(* ===== verification/Cask_Prelude.thy ===== *)
theory Cask_Prelude
  imports Main "HOL-Library.Word" "HOL-Library.Monad_Syntax"
begin

text \<open>
  Shared ground of the development: the C types the sources use, the reading of memory as
  lists of bytes, little-endian storage of integers, the pieces of the C library the sources
  call (\<^verbatim>\<open>strncmp\<close>, \<^verbatim>\<open>strtoull\<close>, \<^verbatim>\<open>strtol\<close>, \<^verbatim>\<open>isdigit\<close>, \<^verbatim>\<open>realloc\<close>, the \<^verbatim>\<open>%lu\<close> conversion
  of \<^verbatim>\<open>snprintf\<close>), and the generic lemmas the component theories rest on.

  Conventions.  A byte is a \<^typ>\<open>char\<close>.  An operation whose C text may run into undefined
  behaviour (a null or freed pointer, an access outside an object, a division by zero) returns
  an \<^typ>\<open>'a option\<close>, and \<^term>\<open>None\<close> is that outcome.  Values of type \<^verbatim>\<open>int\<close> are \<^typ>\<open>int\<close> with the
  conversions from wider types written out by \<open>to_i32\<close>; values of type \<^verbatim>\<open>size_t\<close> are either
  \<^typ>\<open>nat\<close> with \<open>size_add\<close> for the wrapping sum, or \<^typ>\<open>64 word\<close>.
\<close>

section \<open>Types and fact collections\<close>

type_synonym byte = char
type_synonym bytes = "char list"
type_synonym addr = nat
type_synonym u32 = "32 word"
type_synonym u64 = "64 word"

abbreviation (input) NULL :: addr where "NULL \<equiv> 0"
abbreviation (input) ERR :: int where "ERR \<equiv> -1"
abbreviation (input) OK :: int where "OK \<equiv> 0"
abbreviation (input) NUL :: byte where "NUL \<equiv> CHR 0x00"
abbreviation (input) CR :: byte where "CR \<equiv> CHR 0x0D"
abbreviation (input) LF :: byte where "LF \<equiv> CHR 0x0A"
abbreviation (input) HT :: byte where "HT \<equiv> CHR 0x09"
abbreviation (input) SP :: byte where "SP \<equiv> CHR 0x20"

named_theorems bytes_simps \<open>lengths and reads of stored bytes\<close>
named_theorems frame_simps \<open>parts of the memory an update leaves alone\<close>

section \<open>Conversions between integer types\<close>

text \<open>\<open>to_i32\<close> is the conversion \<^verbatim>\<open>(int)x\<close> of a wider integer on the target, two's complement.\<close>

definition to_i32 :: "int \<Rightarrow> int" where
  "to_i32 x = signed_take_bit 31 x"

definition size_add :: "nat \<Rightarrow> nat \<Rightarrow> nat" where
  "size_add a b = (a + b) mod 2 ^ 64"

lemma to_i32_id [simp]: "- (2 ^ 31) \<le> x \<Longrightarrow> x < 2 ^ 31 \<Longrightarrow> to_i32 x = x"
  unfolding to_i32_def by (rule signed_take_bit_int_eq_self) simp_all

lemma to_i32_nat [simp]: "n < 2 ^ 31 \<Longrightarrow> to_i32 (int n) = int n"
  by (rule to_i32_id) simp_all

lemma to_i32_range: "- (2 ^ 31) \<le> to_i32 x" "to_i32 x < 2 ^ 31"
  unfolding to_i32_def by (rule signed_take_bit_int_greater_eq_minus_exp) (rule signed_take_bit_int_less_exp)

lemma size_add_id [simp]: "a + b < 2 ^ 64 \<Longrightarrow> size_add a b = a + b"
  by (simp add: size_add_def)

section \<open>Little-endian storage\<close>

fun le_bytes :: "nat \<Rightarrow> nat \<Rightarrow> bytes" where
  "le_bytes 0 n = []"
| "le_bytes (Suc k) n = char_of n # le_bytes k (n div 256)"

fun le_val :: "bytes \<Rightarrow> nat" where
  "le_val [] = 0"
| "le_val (b # bs) = of_char b + 256 * le_val bs"

lemma length_le_bytes [simp, bytes_simps]: "length (le_bytes k n) = k"
  by (induction k arbitrary: n) auto

lemma le_val_le_bytes: "le_val (le_bytes k n) = n mod 256 ^ k"
proof (induction k arbitrary: n)
  case 0
  then show ?case by simp
next
  case (Suc k)
  then show ?case
    by (simp add: mod_mult2_eq)
qed

lemma of_char_less_256: "of_char b < (256::nat)"
  by (metis mod_less_divisor of_char_mod_256 zero_less_numeral)

lemma of_char_ff: "of_char (CHR 0xFF) = (255::nat)"
  by simp

lemma le_val_less: "le_val bs < 256 ^ length bs"
proof (induction bs)
  case Nil
  then show ?case by simp
next
  case (Cons b bs)
  have "of_char b + 256 * le_val bs < 256 * 256 ^ length bs"
    using Cons.IH of_char_less_256 [of b] by linarith
  then show ?case by simp
qed

lemma le_bytes_le_val: "le_bytes (length bs) (le_val bs) = bs"
proof (induction bs)
  case Nil
  then show ?case by simp
next
  case (Cons b bs)
  have "char_of (of_char b + 256 * le_val bs) = b"
    by (metis char_of_mod_256 mod_mult_self2 char_of_char)
  moreover have "(of_char b + 256 * le_val bs) div 256 = le_val bs"
    using of_char_less_256 by simp
  ultimately show ?case using Cons.IH by simp
qed

abbreviation enc32 :: "u32 \<Rightarrow> bytes" where "enc32 w \<equiv> le_bytes 4 (unat w)"
abbreviation enc64 :: "u64 \<Rightarrow> bytes" where "enc64 w \<equiv> le_bytes 8 (unat w)"

definition dec32 :: "bytes \<Rightarrow> u32" where "dec32 bs = of_nat (le_val bs)"
definition dec64 :: "bytes \<Rightarrow> u64" where "dec64 bs = of_nat (le_val bs)"

lemma dec32_enc32 [simp]: "dec32 (enc32 w) = w"
  using unsigned_less [of w, where ?'a = nat] by (simp add: dec32_def le_val_le_bytes)

lemma dec64_enc64 [simp]: "dec64 (enc64 w) = w"
  using unsigned_less [of w, where ?'a = nat] by (simp add: dec64_def le_val_le_bytes)

lemma le_bytes_ones: "le_bytes k (256 ^ k - 1) = replicate k (CHR 0xFF)"
proof (induction k)
  case 0
  then show ?case by simp
next
  case (Suc k)
  obtain M where M: "(256::nat) ^ k = Suc M"
    by (metis Suc_pred' zero_less_numeral zero_less_power)
  then have split: "256 ^ Suc k - 1 = 255 + 256 * M" by simp
  have "char_of (255 + 256 * M) = CHR 0xFF"
    by (metis char_of_mod_256 mod_mult_self2 char_of_char of_char_ff)
  then show ?case using Suc M split by simp
qed

section \<open>Writing into a byte array\<close>

text \<open>\<open>write_at f k bs\<close> stores \<open>bs\<close> at offset \<open>k\<close>; a gap behind the end of \<open>f\<close> is filled with zeros.\<close>

definition write_at :: "bytes \<Rightarrow> nat \<Rightarrow> bytes \<Rightarrow> bytes" where
  "write_at f k bs =
     (if bs = [] then f else take k f @ replicate (k - length f) NUL @ bs @ drop (k + length bs) f)"

lemma write_at_end [simp]: "write_at f (length f) bs = f @ bs"
  by (simp add: write_at_def)

lemma length_write_at [bytes_simps]: "k + length bs \<le> length f \<Longrightarrow> length (write_at f k bs) = length f"
  by (simp add: write_at_def)

lemma write_at_inside: "write_at (a @ b @ c) (length a) b' = a @ b' @ c" if "length b' = length b"
  using that by (auto simp: write_at_def)

lemma read_write_other:
  assumes "j + n \<le> k \<or> k + length bs \<le> j" and "k \<le> length f" and "j + n \<le> length f"
  shows "take n (drop j (write_at f k bs)) = take n (drop j f)"
  using assms
proof (elim disjE)
  assume "j + n \<le> k"
  then show ?thesis using assms(2) by (auto simp: write_at_def drop_take min_def)
next
  assume "k + length bs \<le> j"
  then show ?thesis using assms(2) by (auto simp: write_at_def min_def)
qed

section \<open>Interface: fixed-width codecs\<close>

text \<open>
  A packed C object is stored as a fixed number of bytes and read back from them.  The clients
  of this interface are arrays of such objects (the bucket table of the database file) and
  streams of them (the records of the file, the messages of the monitor protocol).
\<close>

locale codec =
  fixes enc :: "'a \<Rightarrow> bytes" and dec :: "bytes \<Rightarrow> 'a" and width :: nat
  assumes enc_length: "length (enc x) = width"
    and dec_enc: "dec (enc x) = x"
begin

lemma array_split:
  assumes "i < length xs"
  shows "concat (map enc xs) = concat (map enc (take i xs)) @ enc (xs ! i) @ concat (map enc (drop (Suc i) xs))"
  by (subst id_take_nth_drop [OF assms]) simp

lemma array_length: "length (concat (map enc xs)) = width * length xs"
  by (induction xs) (simp_all add: enc_length)

lemma array_bytes:
  "i < length xs \<Longrightarrow> take width (drop (width * i) (concat (map enc xs) @ rest)) = enc (xs ! i)"
  using array_length [of "take i xs"] by (simp add: array_split enc_length)

lemma array_read:
  "i < length xs \<Longrightarrow> dec (take width (drop (width * i) (concat (map enc xs) @ rest))) = xs ! i"
  by (simp only: array_bytes dec_enc)

lemma array_write:
  assumes "i < length xs"
  shows "write_at (concat (map enc xs) @ rest) (width * i) (enc y) = concat (map enc (xs[i := y])) @ rest"
proof -
  let ?a = "concat (map enc (take i xs))" and ?c = "concat (map enc (drop (Suc i) xs)) @ rest"
  have "length ?a = width * i" using assms by (simp add: array_length)
  moreover have "concat (map enc (xs[i := y])) = ?a @ enc y @ concat (map enc (drop (Suc i) xs))"
    using assms array_split [of i "xs[i := y]"] by simp
  moreover have "write_at (?a @ enc (xs ! i) @ ?c) (length ?a) (enc y) = ?a @ enc y @ ?c"
    by (rule write_at_inside) (simp add: enc_length)
  ultimately show ?thesis using assms by (simp add: array_split [of i xs])
qed

text \<open>Reading a stream one object at a time.\<close>

lemma stream_read: "dec (take width (enc x @ rest)) = x" "drop width (enc x @ rest) = rest"
  by (simp_all add: enc_length [of x, symmetric] dec_enc)

end

interpretation u32: codec enc32 dec32 4
  by unfold_locales simp_all

interpretation u64: codec enc64 dec64 8
  by unfold_locales simp_all

end
