(* ===== verification/Cask_RBTree.thy ===== *)
theory Cask_RBTree
  imports Cask_Prelude
begin

text \<open>
  \<^verbatim>\<open>src/rbtree.h\<close> and \<^verbatim>\<open>src/rbtree.c\<close>: the intrusive red-black tree of the timers.  A node is an
  address; \<open>nodes\<close> maps it to its \<^verbatim>\<open>struct rbnode\<close> and \<open>pay\<close> to the bytes behind it (the object
  the node is embedded in), so that a null, freed or unknown pointer has no node and the
  operation that follows it is \<^term>\<open>None\<close>.  The static sentinel is the node at \<open>RBNIL\<close>.
  \<open>rb\<close> is a \<^verbatim>\<open>struct rbtree\<close> together with this memory.
\<close>

section \<open>Data\<close>

datatype color = RBBLK | RBRED

abbreviation (input) RBNIL :: addr where "RBNIL \<equiv> 1"

record rbnode =
  ncolor :: color
  nleft :: addr
  nright :: addr
  nparent :: addr

record 'p rb =
  troot :: addr
  nodesz :: nat
  tcmp :: "'p \<Rightarrow> 'p \<Rightarrow> int"
  nodes :: "addr \<rightharpoonup> rbnode"
  pay :: "addr \<rightharpoonup> 'p"

definition sentinel :: rbnode where
  "sentinel = \<lparr>ncolor = RBBLK, nleft = RBNIL, nright = RBNIL, nparent = NULL\<rparr>"

text \<open>Field accesses \<^verbatim>\<open>p->f\<close> and assignments \<^verbatim>\<open>p->f = v\<close>.\<close>

definition get_color :: "'p rb \<Rightarrow> addr \<Rightarrow> color option" where
  "get_color s p = map_option ncolor (nodes s p)"

definition get_left :: "'p rb \<Rightarrow> addr \<Rightarrow> addr option" where
  "get_left s p = map_option nleft (nodes s p)"

definition get_right :: "'p rb \<Rightarrow> addr \<Rightarrow> addr option" where
  "get_right s p = map_option nright (nodes s p)"

definition get_parent :: "'p rb \<Rightarrow> addr \<Rightarrow> addr option" where
  "get_parent s p = map_option nparent (nodes s p)"

definition set_color :: "'p rb \<Rightarrow> addr \<Rightarrow> color \<Rightarrow> 'p rb option" where
  "set_color s p v = map_option (\<lambda>n. s\<lparr>nodes := (nodes s)(p \<mapsto> n\<lparr>ncolor := v\<rparr>)\<rparr>) (nodes s p)"

definition set_left :: "'p rb \<Rightarrow> addr \<Rightarrow> addr \<Rightarrow> 'p rb option" where
  "set_left s p v = map_option (\<lambda>n. s\<lparr>nodes := (nodes s)(p \<mapsto> n\<lparr>nleft := v\<rparr>)\<rparr>) (nodes s p)"

definition set_right :: "'p rb \<Rightarrow> addr \<Rightarrow> addr \<Rightarrow> 'p rb option" where
  "set_right s p v = map_option (\<lambda>n. s\<lparr>nodes := (nodes s)(p \<mapsto> n\<lparr>nright := v\<rparr>)\<rparr>) (nodes s p)"

definition set_parent :: "'p rb \<Rightarrow> addr \<Rightarrow> addr \<Rightarrow> 'p rb option" where
  "set_parent s p v = map_option (\<lambda>n. s\<lparr>nodes := (nodes s)(p \<mapsto> n\<lparr>nparent := v\<rparr>)\<rparr>) (nodes s p)"

lemmas field_defs = get_color_def get_left_def get_right_def get_parent_def
  set_color_def set_left_def set_right_def set_parent_def

section \<open>Operations\<close>

definition rbtree_init :: "'p rb \<Rightarrow> nat \<Rightarrow> ('p \<Rightarrow> 'p \<Rightarrow> int) \<Rightarrow> 'p rb" where
  "rbtree_init s sz c = s\<lparr>troot := RBNIL, nodesz := sz, tcmp := c\<rparr>"

definition rotate_left :: "'p rb \<Rightarrow> addr \<Rightarrow> 'p rb option" where
  "rotate_left s x =
     do { y \<leftarrow> get_right s x;
          yl \<leftarrow> get_left s y;
          s \<leftarrow> set_right s x yl;
          yl \<leftarrow> get_left s y;
          s \<leftarrow> (if yl \<noteq> RBNIL then set_parent s yl x else Some s);
          xp \<leftarrow> get_parent s x;
          s \<leftarrow> (if y \<noteq> RBNIL then set_parent s y xp else Some s);
          xp \<leftarrow> get_parent s x;
          s \<leftarrow> (if xp \<noteq> NULL
               then do { l \<leftarrow> get_left s xp;
                         if x = l then set_left s xp y else set_right s xp y }
               else Some (s\<lparr>troot := y\<rparr>));
          s \<leftarrow> set_left s y x;
          if x \<noteq> RBNIL then set_parent s x y else Some s }"

definition rotate_right :: "'p rb \<Rightarrow> addr \<Rightarrow> 'p rb option" where
  "rotate_right s x =
     do { y \<leftarrow> get_left s x;
          yr \<leftarrow> get_right s y;
          s \<leftarrow> set_left s x yr;
          yr \<leftarrow> get_right s y;
          s \<leftarrow> (if yr \<noteq> RBNIL then set_parent s yr x else Some s);
          xp \<leftarrow> get_parent s x;
          s \<leftarrow> (if y \<noteq> RBNIL then set_parent s y xp else Some s);
          xp \<leftarrow> get_parent s x;
          s \<leftarrow> (if xp \<noteq> NULL
               then do { r \<leftarrow> get_right s xp;
                         if x = r then set_right s xp y else set_left s xp y }
               else Some (s\<lparr>troot := y\<rparr>));
          s \<leftarrow> set_right s y x;
          if x \<noteq> RBNIL then set_parent s x y else Some s }"

text \<open>One round of the loop of \<^verbatim>\<open>insert_fixup\<close>: the tree and the new \<open>x\<close>.\<close>

definition insert_fixup_step :: "'p rb \<Rightarrow> addr \<Rightarrow> ('p rb \<times> addr) option" where
  "insert_fixup_step s x =
     do { p \<leftarrow> get_parent s x;
          g \<leftarrow> get_parent s p;
          gl \<leftarrow> get_left s g;
          if p = gl
          then do {
            y \<leftarrow> get_right s g;
            yc \<leftarrow> get_color s y;
            if yc = RBRED
            then do { s \<leftarrow> set_color s p RBBLK; s \<leftarrow> set_color s y RBBLK;
                      s \<leftarrow> set_color s g RBRED; Some (s, g) }
            else do {
              pr \<leftarrow> get_right s p;
              (s, x) \<leftarrow> (if x = pr then do { s \<leftarrow> rotate_left s p; Some (s, p) } else Some (s, x));
              p \<leftarrow> get_parent s x;
              s \<leftarrow> set_color s p RBBLK;
              g \<leftarrow> get_parent s p;
              s \<leftarrow> set_color s g RBRED;
              s \<leftarrow> rotate_right s g;
              Some (s, x) } }
          else do {
            y \<leftarrow> get_left s g;
            yc \<leftarrow> get_color s y;
            if yc = RBRED
            then do { s \<leftarrow> set_color s p RBBLK; s \<leftarrow> set_color s y RBBLK;
                      s \<leftarrow> set_color s g RBRED; Some (s, g) }
            else do {
              pl \<leftarrow> get_left s p;
              (s, x) \<leftarrow> (if x = pl then do { s \<leftarrow> rotate_right s p; Some (s, p) } else Some (s, x));
              p \<leftarrow> get_parent s x;
              s \<leftarrow> set_color s p RBBLK;
              g \<leftarrow> get_parent s p;
              s \<leftarrow> set_color s g RBRED;
              s \<leftarrow> rotate_left s g;
              Some (s, x) } } }"

partial_function (option) insert_fixup :: "'p rb \<Rightarrow> addr \<Rightarrow> 'p rb option" where
  "insert_fixup s x =
     (if x = troot s then set_color s (troot s) RBBLK
      else do { p \<leftarrow> get_parent s x;
                c \<leftarrow> get_color s p;
                if c = RBRED
                then do { (s', x') \<leftarrow> insert_fixup_step s x; insert_fixup s' x' }
                else set_color s (troot s) RBBLK })"

partial_function (option) insert_pos ::
  "'p rb \<Rightarrow> addr \<Rightarrow> addr \<Rightarrow> addr \<Rightarrow> int \<Rightarrow> (addr \<times> int) option" where
  "insert_pos s x cur parent c =
     (if cur = RBNIL then Some (parent, c)
      else do { a \<leftarrow> pay s x;
                b \<leftarrow> pay s cur;
                n \<leftarrow> (if tcmp s a b \<le> 0 then get_left s cur else get_right s cur);
                insert_pos s x n cur (tcmp s a b) })"

definition rbtree_insert :: "'p rb \<Rightarrow> addr \<Rightarrow> 'p rb option" where
  "rbtree_insert s x =
     do { (parent, c) \<leftarrow> insert_pos s x (troot s) NULL 0;
          s \<leftarrow> set_color s x RBRED;
          s \<leftarrow> set_right s x RBNIL;
          s \<leftarrow> set_left s x RBNIL;
          s \<leftarrow> set_parent s x parent;
          s \<leftarrow> (if parent \<noteq> NULL
               then (if c \<le> 0 then set_left s parent x else set_right s parent x)
               else Some (s\<lparr>troot := x\<rparr>));
          insert_fixup s x }"

text \<open>One round of the loop of \<^verbatim>\<open>delete_fixup\<close>.\<close>

definition delete_fixup_step :: "'p rb \<Rightarrow> addr \<Rightarrow> ('p rb \<times> addr) option" where
  "delete_fixup_step s x =
     do { p \<leftarrow> get_parent s x;
          pl \<leftarrow> get_left s p;
          if x = pl
          then do {
            w \<leftarrow> get_right s p;
            wc \<leftarrow> get_color s w;
            (s, w) \<leftarrow> (if wc = RBRED
                      then do { s \<leftarrow> set_color s w RBBLK; s \<leftarrow> set_color s p RBRED;
                                s \<leftarrow> rotate_left s p; p \<leftarrow> get_parent s x;
                                w \<leftarrow> get_right s p; Some (s, w) }
                      else Some (s, w));
            wl \<leftarrow> get_left s w; wlc \<leftarrow> get_color s wl;
            wr \<leftarrow> get_right s w; wrc \<leftarrow> get_color s wr;
            if wlc = RBBLK \<and> wrc = RBBLK
            then do { s \<leftarrow> set_color s w RBRED; x \<leftarrow> get_parent s x; Some (s, x) }
            else do {
              (s, w) \<leftarrow> (if wrc = RBBLK
                        then do { s \<leftarrow> set_color s wl RBBLK; s \<leftarrow> set_color s w RBRED;
                                  s \<leftarrow> rotate_right s w; p \<leftarrow> get_parent s x;
                                  w \<leftarrow> get_right s p; Some (s, w) }
                        else Some (s, w));
              p \<leftarrow> get_parent s x; pc \<leftarrow> get_color s p;
              s \<leftarrow> set_color s w pc;
              s \<leftarrow> set_color s p RBBLK;
              wr \<leftarrow> get_right s w; s \<leftarrow> set_color s wr RBBLK;
              s \<leftarrow> rotate_left s p;
              Some (s, troot s) } }
          else do {
            w \<leftarrow> get_left s p;
            wc \<leftarrow> get_color s w;
            (s, w) \<leftarrow> (if wc = RBRED
                      then do { s \<leftarrow> set_color s w RBBLK; s \<leftarrow> set_color s p RBRED;
                                s \<leftarrow> rotate_right s p; p \<leftarrow> get_parent s x;
                                w \<leftarrow> get_left s p; Some (s, w) }
                      else Some (s, w));
            wr \<leftarrow> get_right s w; wrc \<leftarrow> get_color s wr;
            wl \<leftarrow> get_left s w; wlc \<leftarrow> get_color s wl;
            if wrc = RBBLK \<and> wlc = RBBLK
            then do { s \<leftarrow> set_color s w RBRED; x \<leftarrow> get_parent s x; Some (s, x) }
            else do {
              (s, w) \<leftarrow> (if wlc = RBBLK
                        then do { s \<leftarrow> set_color s wr RBBLK; s \<leftarrow> set_color s w RBRED;
                                  s \<leftarrow> rotate_left s w; p \<leftarrow> get_parent s x;
                                  w \<leftarrow> get_left s p; Some (s, w) }
                        else Some (s, w));
              p \<leftarrow> get_parent s x; pc \<leftarrow> get_color s p;
              s \<leftarrow> set_color s w pc;
              s \<leftarrow> set_color s p RBBLK;
              wl \<leftarrow> get_left s w; s \<leftarrow> set_color s wl RBBLK;
              s \<leftarrow> rotate_right s p;
              Some (s, troot s) } } }"

partial_function (option) delete_fixup :: "'p rb \<Rightarrow> addr \<Rightarrow> 'p rb option" where
  "delete_fixup s x =
     (if x = troot s then set_color s x RBBLK
      else do { c \<leftarrow> get_color s x;
                if c = RBBLK
                then do { (s', x') \<leftarrow> delete_fixup_step s x; delete_fixup s' x' }
                else set_color s x RBBLK })"

text \<open>The walk \<^verbatim>\<open>while (y->left != RBNIL) y = y->left\<close>.\<close>

partial_function (option) left_end :: "'p rb \<Rightarrow> addr \<Rightarrow> addr option" where
  "left_end s y = do { l \<leftarrow> get_left s y; if l \<noteq> RBNIL then left_end s l else Some y }"

partial_function (option) right_end :: "'p rb \<Rightarrow> addr \<Rightarrow> addr option" where
  "right_end s y = do { r \<leftarrow> get_right s y; if r \<noteq> RBNIL then right_end s r else Some y }"

text \<open>
  \<^verbatim>\<open>memcpy(z+1, y+1, nodesz - sizeof(struct rbnode))\<close> copies the object behind \<open>y\<close> over the one
  behind \<open>z\<close>.
\<close>

definition copy_pay :: "'p rb \<Rightarrow> addr \<Rightarrow> addr \<Rightarrow> 'p rb option" where
  "copy_pay s z y = do { _ \<leftarrow> pay s z; v \<leftarrow> pay s y; Some (s\<lparr>pay := (pay s)(z \<mapsto> v)\<rparr>) }"

definition rbtree_delete :: "'p rb \<Rightarrow> addr \<Rightarrow> 'p rb option" where
  "rbtree_delete s z =
     do { zl \<leftarrow> get_left s z;
          zr \<leftarrow> get_right s z;
          y \<leftarrow> (if zl = RBNIL \<or> zr = RBNIL then Some z else left_end s zr);
          yl \<leftarrow> get_left s y;
          x \<leftarrow> (if yl \<noteq> RBNIL then Some yl else get_right s y);
          yp \<leftarrow> get_parent s y;
          s \<leftarrow> set_parent s x yp;
          yp \<leftarrow> get_parent s y;
          s \<leftarrow> (if yp \<noteq> NULL
               then do { l \<leftarrow> get_left s yp;
                         if y = l then set_left s yp x else set_right s yp x }
               else Some (s\<lparr>troot := x\<rparr>));
          s \<leftarrow> (if y \<noteq> z then copy_pay s z y else Some s);
          yc \<leftarrow> get_color s y;
          if yc = RBBLK then delete_fixup s x else Some s }"

definition rbtree_leftmost :: "'p rb \<Rightarrow> addr \<Rightarrow> addr option" where
  "rbtree_leftmost s x = (if x = RBNIL then Some NULL else left_end s x)"

definition rbtree_rightmost :: "'p rb \<Rightarrow> addr \<Rightarrow> addr option" where
  "rbtree_rightmost s x = (if x = RBNIL then Some NULL else right_end s x)"

partial_function (option) upper_bound_loop :: "'p rb \<Rightarrow> addr \<Rightarrow> addr \<Rightarrow> addr \<Rightarrow> addr option" where
  "upper_bound_loop s x best cur =
     (if cur = RBNIL then Some best
      else do { a \<leftarrow> pay s cur;
                b \<leftarrow> pay s x;
                if tcmp s a b > 0
                then do { l \<leftarrow> get_left s cur; upper_bound_loop s x cur l }
                else do { r \<leftarrow> get_right s cur; upper_bound_loop s x best r } })"

definition rbtree_upper_bound :: "'p rb \<Rightarrow> addr \<Rightarrow> addr option" where
  "rbtree_upper_bound s x = upper_bound_loop s x NULL (troot s)"

declare insert_fixup.simps [code] insert_pos.simps [code] delete_fixup.simps [code]
  left_end.simps [code] right_end.simps [code] upper_bound_loop.simps [code]

end
