(* ===== verification/Cask_RBTree_Shape.thy ===== *)
theory Cask_RBTree_Shape
  imports Cask_RBTree
begin

text \<open>
  What the pointers of a red-black tree represent.  A \<open>ptree\<close> is the tree of colours and node
  addresses; a list of frames is the way from a node up to the root (the rest of the tree seen
  from that node), so that an operation on a node anywhere in the tree is described by the subtree
  in focus and the frames above it.  \<open>focus s k t\<close> says that the memory of \<open>s\<close> holds \<open>t\<close> below the
  frames \<open>k\<close>.  The lemmas give each field access, each recolouring and the two rotations as an
  operation on the subtree in focus.
\<close>

section \<open>Trees and contexts\<close>

datatype ptree = E | N color ptree addr ptree

datatype frame = FL color addr ptree | FR color ptree addr

type_synonym ctx = "frame list"

fun ptr_of :: "ptree \<Rightarrow> addr" where
  "ptr_of E = RBNIL"
| "ptr_of (N c l a r) = a"

fun tcol :: "ptree \<Rightarrow> color" where
  "tcol E = RBBLK"
| "tcol (N c l a r) = c"

fun inord :: "ptree \<Rightarrow> addr list" where
  "inord E = []"
| "inord (N c l a r) = inord l @ a # inord r"

fun fill :: "ctx \<Rightarrow> ptree \<Rightarrow> ptree" where
  "fill [] t = t"
| "fill (FL c a r # k) t = fill k (N c t a r)"
| "fill (FR c l a # k) t = fill k (N c l a t)"

fun cpar :: "ctx \<Rightarrow> addr" where
  "cpar [] = NULL"
| "cpar (FL c a r # k) = a"
| "cpar (FR c l a # k) = a"

fun croot :: "addr \<Rightarrow> ctx \<Rightarrow> addr" where
  "croot p [] = p"
| "croot p (FL c a r # k) = croot a k"
| "croot p (FR c l a # k) = croot a k"

fun cnodes :: "ctx \<Rightarrow> addr list" where
  "cnodes [] = []"
| "cnodes (FL c a r # k) = a # inord r @ cnodes k"
| "cnodes (FR c l a # k) = a # inord l @ cnodes k"

fun cpre :: "ctx \<Rightarrow> addr list" where
  "cpre [] = []"
| "cpre (FL c a r # k) = cpre k"
| "cpre (FR c l a # k) = cpre k @ inord l @ [a]"

fun cpost :: "ctx \<Rightarrow> addr list" where
  "cpost [] = []"
| "cpost (FL c a r # k) = a # inord r @ cpost k"
| "cpost (FR c l a # k) = cpost k"

fun tree_at :: "(addr \<rightharpoonup> rbnode) \<Rightarrow> addr \<Rightarrow> ptree \<Rightarrow> bool" where
  "tree_at h q E = True"
| "tree_at h q (N c l a r) =
     (h a = Some \<lparr>ncolor = c, nleft = ptr_of l, nright = ptr_of r, nparent = q\<rparr>
      \<and> tree_at h a l \<and> tree_at h a r)"

fun ctx_at :: "(addr \<rightharpoonup> rbnode) \<Rightarrow> addr \<Rightarrow> ctx \<Rightarrow> bool" where
  "ctx_at h p [] = True"
| "ctx_at h p (FL c a r # k) =
     (h a = Some \<lparr>ncolor = c, nleft = p, nright = ptr_of r, nparent = cpar k\<rparr>
      \<and> tree_at h a r \<and> ctx_at h a k)"
| "ctx_at h p (FR c l a # k) =
     (h a = Some \<lparr>ncolor = c, nleft = ptr_of l, nright = p, nparent = cpar k\<rparr>
      \<and> tree_at h a l \<and> ctx_at h a k)"

lemma ptr_of_in [simp]: "ptr_of t \<in> set (inord t) \<longleftrightarrow> t \<noteq> E"
  by (cases t) auto

lemma inord_fill: "inord (fill k t) = cpre k @ inord t @ cpost k"
  by (induction k t rule: fill.induct) auto

lemma set_cnodes: "set (cnodes k) = set (cpre k) \<union> set (cpost k)"
  by (induction k rule: cnodes.induct) auto

lemma distinct_cnodes: "distinct (cnodes k) = distinct (cpre k @ cpost k)"
  by (induction k rule: cnodes.induct) (auto simp: set_cnodes)

lemma distinct_fill: "distinct (inord (fill k t)) = distinct (inord t @ cnodes k)"
  by (auto simp: inord_fill distinct_cnodes set_cnodes)

lemma set_fill: "set (inord (fill k t)) = set (inord t @ cnodes k)"
  by (auto simp: inord_fill set_cnodes)

lemma fill_append [simp]: "fill (k @ k') t = fill k' (fill k t)"
  by (induction k t rule: fill.induct) auto

lemma cpre_append [simp]: "cpre (k @ k') = cpre k' @ cpre k"
  by (induction k rule: cpre.induct) auto

lemma cpost_append [simp]: "cpost (k @ k') = cpost k @ cpost k'"
  by (induction k rule: cpost.induct) auto

lemma ptr_of_fill: "ptr_of (fill k t) = croot (ptr_of t) k"
  by (induction k t rule: fill.induct) auto

lemma croot_cons: "k \<noteq> [] \<Longrightarrow> croot p k = croot q k"
  by (induction p k rule: croot.induct) auto

lemma croot_in: "k \<noteq> [] \<Longrightarrow> croot p k \<in> set (cnodes k)"
proof (induction p k rule: croot.induct)
  case (2 p c a r k)
  then show ?case by (cases k) auto
next
  case (3 p c l a k)
  then show ?case by (cases k) auto
qed simp

lemma cpar_in: "k \<noteq> [] \<Longrightarrow> cpar k \<in> set (cnodes k)"
  by (cases k rule: cpar.cases) auto

lemma tree_at_fill:
  "tree_at h NULL (fill k t) = (tree_at h (cpar k) t \<and> ctx_at h (ptr_of t) k)"
  by (induction k t rule: fill.induct) auto

lemma tree_at_upd [simp]: "a \<notin> set (inord t) \<Longrightarrow> tree_at (h(a := v)) q t = tree_at h q t"
  by (induction t arbitrary: q) auto

lemma ctx_at_upd [simp]: "a \<notin> set (cnodes k) \<Longrightarrow> ctx_at (h(a := v)) p k = ctx_at h p k"
  by (induction k arbitrary: p rule: cnodes.induct) auto

lemma tree_at_cong: "(\<And>a. a \<in> set (inord t) \<Longrightarrow> h a = h' a) \<Longrightarrow> tree_at h q t = tree_at h' q t"
  by (induction t arbitrary: q) auto

text \<open>A tree with address \<open>a\<close> in it is a context around the subtree at \<open>a\<close>.\<close>

lemma fill_find: "a \<in> set (inord t) \<Longrightarrow> \<exists>k c l r. t = fill k (N c l a r)"
proof (induction t)
  case (N c l b r)
  consider "a = b" | "a \<in> set (inord l)" | "a \<in> set (inord r)" using N.prems by auto
  then show ?case
  proof cases
    case 1
    then have "N c l b r = fill [] (N c l a r)" by simp
    then show ?thesis by blast
  next
    case 2
    then obtain k c' l' r' where "l = fill k (N c' l' a r')" using N.IH by blast
    then have "N c l b r = fill (k @ [FL c b r]) (N c' l' a r')" by simp
    then show ?thesis by blast
  next
    case 3
    then obtain k c' l' r' where "r = fill k (N c' l' a r')" using N.IH by blast
    then have "N c l b r = fill (k @ [FR c l b]) (N c' l' a r')" by simp
    then show ?thesis by blast
  qed
qed simp

section \<open>The memory of a tree\<close>

definition nil_ok :: "'p rb \<Rightarrow> bool" where
  "nil_ok s \<longleftrightarrow> nodes s NULL = None \<and> (\<exists>q. nodes s RBNIL = Some (sentinel\<lparr>nparent := q\<rparr>))"

definition focus :: "'p rb \<Rightarrow> ctx \<Rightarrow> ptree \<Rightarrow> bool" where
  "focus s k t \<longleftrightarrow>
     tree_at (nodes s) (cpar k) t \<and> ctx_at (nodes s) (ptr_of t) k
     \<and> troot s = croot (ptr_of t) k \<and> distinct (inord t @ cnodes k)
     \<and> NULL \<notin> set (inord t @ cnodes k) \<and> RBNIL \<notin> set (inord t @ cnodes k) \<and> nil_ok s"

abbreviation rep :: "'p rb \<Rightarrow> ptree \<Rightarrow> bool" where "rep s t \<equiv> focus s [] t"

text \<open>\<open>keeps s s'\<close>: only fields of nodes and the root pointer have changed.\<close>

definition keeps :: "'p rb \<Rightarrow> 'p rb \<Rightarrow> bool" where
  "keeps s s' \<longleftrightarrow>
     pay s' = pay s \<and> tcmp s' = tcmp s \<and> nodesz s' = nodesz s \<and> dom (nodes s') = dom (nodes s)"

lemma keeps_refl [simp]: "keeps s s"
  by (simp add: keeps_def)

lemma keeps_trans [trans]: "keeps s s' \<Longrightarrow> keeps s' s'' \<Longrightarrow> keeps s s''"
  by (auto simp: keeps_def)

lemma keeps_set:
  "set_color s p c = Some s' \<Longrightarrow> keeps s s'" "set_left s p v = Some s' \<Longrightarrow> keeps s s'"
  "set_right s p v = Some s' \<Longrightarrow> keeps s s'" "set_parent s p v = Some s' \<Longrightarrow> keeps s s'"
  "keeps s (s\<lparr>troot := v\<rparr>)"
  by (auto simp: keeps_def field_defs split: if_splits)

lemma focus_fill: "focus s (k @ k') t = focus s k' (fill k t)"
proof (induction k t rule: fill.induct)
  case (2 c a r k t)
  have "focus s (FL c a r # k @ k') t = focus s (k @ k') (N c t a r)"
    by (auto simp: focus_def)
  then show ?case using 2 by simp
next
  case (3 c l a k t)
  have "focus s (FR c l a # k @ k') t = focus s (k @ k') (N c l a t)"
    by (auto simp: focus_def)
  then show ?case using 3 by simp
qed simp

lemma rep_fill: "rep s (fill k t) = focus s k t"
  using focus_fill [of s k "[]" t] by simp

lemma focus_up:
  "focus s (FL c a r # k) t = focus s k (N c t a r)"
  "focus s (FR c l a # k) t = focus s k (N c l a t)"
  using focus_fill [of s "[FL c a r]" k t] focus_fill [of s "[FR c l a]" k t] by simp_all

section \<open>Accesses to the node in focus\<close>

lemma focus_nodes:
  "focus s k (N c l a r) \<Longrightarrow>
     nodes s a = Some \<lparr>ncolor = c, nleft = ptr_of l, nright = ptr_of r, nparent = cpar k\<rparr>"
  by (simp add: focus_def)

lemma focus_get:
  assumes "focus s k (N c l a r)"
  shows "get_color s a = Some c" "get_left s a = Some (ptr_of l)"
    "get_right s a = Some (ptr_of r)" "get_parent s a = Some (cpar k)"
  using focus_nodes [OF assms] by (simp_all add: field_defs)

lemma focus_color: "focus s k t \<Longrightarrow> get_color s (ptr_of t) = Some (tcol t)"
  by (cases t) (auto simp: focus_def nil_ok_def field_defs sentinel_def)

lemma focus_children:
  assumes "focus s k (N c l a r)"
  shows "get_color s (ptr_of l) = Some (tcol l)" "get_color s (ptr_of r) = Some (tcol r)"
  using assms focus_color [of s "FL c a r # k" l] focus_color [of s "FR c l a # k" r]
  by (simp_all add: focus_up)

lemma focus_fresh:
  assumes "focus s k (N c l a r)"
  shows "a \<noteq> NULL" "a \<noteq> RBNIL" "a \<notin> set (inord l)" "a \<notin> set (inord r)" "a \<notin> set (cnodes k)"
  using assms by (auto simp: focus_def)

lemma focus_set_color:
  assumes "focus s k (N c l a r)"
  obtains s' where "set_color s a v = Some s'" "focus s' k (N v l a r)" "keeps s s'"
    "nodes s' RBNIL = nodes s RBNIL"
proof -
  let ?s = "s\<lparr>nodes := (nodes s)(a \<mapsto> \<lparr>ncolor = v, nleft = ptr_of l, nright = ptr_of r, nparent = cpar k\<rparr>)\<rparr>"
  have "set_color s a v = Some ?s" using focus_nodes [OF assms] by (simp add: field_defs)
  moreover have "focus ?s k (N v l a r)" using assms by (auto simp: focus_def nil_ok_def)
  moreover have "keeps s ?s" using focus_nodes [OF assms] by (auto simp: keeps_def)
  moreover have "nodes ?s RBNIL = nodes s RBNIL" using focus_fresh [OF assms] by simp
  ultimately show thesis by (rule that)
qed

section \<open>Rotations\<close>

lemma field_eval:
  assumes "nodes s a = Some n"
  shows "get_color s a = Some (ncolor n)" "get_left s a = Some (nleft n)"
    "get_right s a = Some (nright n)" "get_parent s a = Some (nparent n)"
    "set_color s a c = Some (s\<lparr>nodes := (nodes s)(a \<mapsto> n\<lparr>ncolor := c\<rparr>)\<rparr>)"
    "set_left s a v = Some (s\<lparr>nodes := (nodes s)(a \<mapsto> n\<lparr>nleft := v\<rparr>)\<rparr>)"
    "set_right s a v = Some (s\<lparr>nodes := (nodes s)(a \<mapsto> n\<lparr>nright := v\<rparr>)\<rparr>)"
    "set_parent s a v = Some (s\<lparr>nodes := (nodes s)(a \<mapsto> n\<lparr>nparent := v\<rparr>)\<rparr>)"
  using assms by (simp_all add: field_defs)

lemmas rotate_simps = rotate_left_def rotate_right_def field_eval focus_def nil_ok_def keeps_def

lemma rotate_left_focus:
  assumes "focus s k (N c a x (N d b y e))"
  obtains s' where "rotate_left s x = Some s'" "focus s' k (N d (N c a x b) y e)"
    "keeps s s'" "nodes s' RBNIL = nodes s RBNIL"
proof -
  have "\<exists>s'. rotate_left s x = Some s' \<and> focus s' k (N d (N c a x b) y e)
     \<and> keeps s s' \<and> nodes s' RBNIL = nodes s RBNIL"
  proof (cases k rule: cpar.cases)
    case 1
    then show ?thesis using assms by (cases b) (auto simp: rotate_simps)
  next
    case (2 kc ka kr k')
    then show ?thesis using assms by (cases b) (auto simp: rotate_simps)
  next
    case (3 kc kl ka k')
    then show ?thesis using assms by (cases b) (auto simp: rotate_simps)
  qed
  then show thesis using that by blast
qed

lemma rotate_right_focus:
  assumes "focus s k (N c (N d a y b) x e)"
  obtains s' where "rotate_right s x = Some s'" "focus s' k (N d a y (N c b x e))"
    "keeps s s'" "nodes s' RBNIL = nodes s RBNIL"
proof -
  have "\<exists>s'. rotate_right s x = Some s' \<and> focus s' k (N d a y (N c b x e))
     \<and> keeps s s' \<and> nodes s' RBNIL = nodes s RBNIL"
  proof (cases k rule: cpar.cases)
    case 1
    then show ?thesis using assms by (cases b) (auto simp: rotate_simps)
  next
    case (2 kc ka kr k')
    then show ?thesis using assms by (cases b) (auto simp: rotate_simps)
  next
    case (3 kc kl ka k')
    then show ?thesis using assms by (cases b) (auto simp: rotate_simps)
  qed
  then show thesis using that by blast
qed

section \<open>Red-black balance\<close>

text \<open>
  \<open>rb_ok n t\<close>: \<open>t\<close> has no red node with a red child and \<open>n\<close> black nodes on every way down.
  \<open>ctx_ok n k\<close>: around a black subtree of black height \<open>n\<close> the frames \<open>k\<close> give such a tree, with a
  black root.
\<close>

fun rb_ok :: "nat \<Rightarrow> ptree \<Rightarrow> bool" where
  "rb_ok n E = (n = 0)"
| "rb_ok n (N RBRED l a r) = (rb_ok n l \<and> rb_ok n r \<and> tcol l = RBBLK \<and> tcol r = RBBLK)"
| "rb_ok 0 (N RBBLK l a r) = False"
| "rb_ok (Suc n) (N RBBLK l a r) = (rb_ok n l \<and> rb_ok n r)"

fun fcol :: "frame \<Rightarrow> color" where
  "fcol (FL c a r) = c"
| "fcol (FR c l a) = c"

definition black_above :: "ctx \<Rightarrow> bool" where
  "black_above k \<longleftrightarrow> k \<noteq> [] \<and> fcol (hd k) = RBBLK"

fun ctx_ok :: "nat \<Rightarrow> ctx \<Rightarrow> bool" where
  "ctx_ok n [] = True"
| "ctx_ok n (FL c a r # k) =
     (rb_ok n r \<and> (c = RBRED \<longrightarrow> tcol r = RBBLK \<and> black_above k)
      \<and> ctx_ok (if c = RBBLK then Suc n else n) k)"
| "ctx_ok n (FR c l a # k) =
     (rb_ok n l \<and> (c = RBRED \<longrightarrow> tcol l = RBBLK \<and> black_above k)
      \<and> ctx_ok (if c = RBBLK then Suc n else n) k)"

definition balanced :: "ptree \<Rightarrow> bool" where
  "balanced t \<longleftrightarrow> tcol t = RBBLK \<and> (\<exists>n. rb_ok n t)"

lemma not_red [simp]: "c \<noteq> RBRED \<longleftrightarrow> c = RBBLK" "c \<noteq> RBBLK \<longleftrightarrow> c = RBRED"
  by (cases c; simp)+

lemma black_above_simps [simp]:
  "\<not> black_above []" "black_above (f # k) \<longleftrightarrow> fcol f = RBBLK"
  by (simp_all add: black_above_def)

lemma balanced_fill:
  "ctx_ok n k \<Longrightarrow> rb_ok n t \<Longrightarrow> tcol t = RBBLK \<or> black_above k \<Longrightarrow> balanced (fill k t)"
proof (induction n k arbitrary: t rule: ctx_ok.induct)
  case (1 n)
  then show ?case by (auto simp: balanced_def)
next
  case (2 n c a r k)
  show ?case
  proof (cases c)
    case RBBLK
    then show ?thesis using 2 by simp
  next
    case RBRED
    then show ?thesis using 2 by simp
  qed
next
  case (3 n c l a k)
  show ?case
  proof (cases c)
    case RBBLK
    then show ?thesis using 3 by simp
  next
    case RBRED
    then show ?thesis using 3 by simp
  qed
qed

lemma fill_balanced:
  assumes "balanced (fill k t)"
  obtains n where "ctx_ok n k" "rb_ok n t" "tcol t = RBBLK \<or> black_above k"
proof -
  have "\<exists>n. ctx_ok n k \<and> rb_ok n t \<and> (tcol t = RBBLK \<or> black_above k)" using assms
  proof (induction k t rule: fill.induct)
    case (1 t)
    then show ?case by (auto simp: balanced_def)
  next
    case (2 c a r k t)
    then obtain n where n: "ctx_ok n k" "rb_ok n (N c t a r)" "c = RBBLK \<or> black_above k" by auto
    show ?case
    proof (cases c)
      case RBBLK
      then show ?thesis using n by (cases n) auto
    qed (use n in auto)
  next
    case (3 c l a k t)
    then obtain n where n: "ctx_ok n k" "rb_ok n (N c l a t)" "c = RBBLK \<or> black_above k" by auto
    show ?case
    proof (cases c)
      case RBBLK
      then show ?thesis using n by (cases n) auto
    qed (use n in auto)
  qed
  then show thesis using that by blast
qed

end
