(* ===== verification/Cask_RBTree_Insert.thy ===== *)
theory Cask_RBTree_Insert
  imports Cask_RBTree_Shape
begin

text \<open>
  Correctness of \<^verbatim>\<open>rbtree_insert\<close>.  Each round of \<^verbatim>\<open>insert_fixup\<close> is one of eight local changes of
  the tree in focus; by induction on the frames above, the loop ends, meets no null pointer, keeps the
  in-order sequence of nodes and restores the red-black balance.
\<close>

section \<open>One round of \<open>insert_fixup\<close>\<close>

lemma focus_up2:
  assumes "focus s (f1 # f2 # k) t"
  shows "focus s (f2 # k) (fill [f1] t)" "focus s k (fill [f1, f2] t)"
  using assms focus_fill [of s "[f1]" "f2 # k" t] focus_fill [of s "[f1, f2]" k t] by auto

lemmas step_simps = insert_fixup_step_def field_eval focus_def nil_ok_def keeps_def

lemma insert_recolor:
  "focus s (FL RBRED p b # FL c g (N RBRED ul u ur) # k) (N d l x r) \<Longrightarrow>
     \<exists>s'. insert_fixup_step s x = Some (s', g) \<and> keeps s s' \<and>
       focus s' k (N RBRED (N RBBLK (N d l x r) p b) g (N RBBLK ul u ur))"
  "focus s (FR RBRED b p # FL c g (N RBRED ul u ur) # k) (N d l x r) \<Longrightarrow>
     \<exists>s'. insert_fixup_step s x = Some (s', g) \<and> keeps s s' \<and>
       focus s' k (N RBRED (N RBBLK b p (N d l x r)) g (N RBBLK ul u ur))"
  "focus s (FL RBRED p b # FR c (N RBRED ul u ur) g # k) (N d l x r) \<Longrightarrow>
     \<exists>s'. insert_fixup_step s x = Some (s', g) \<and> keeps s s' \<and>
       focus s' k (N RBRED (N RBBLK ul u ur) g (N RBBLK (N d l x r) p b))"
  "focus s (FR RBRED b p # FR c (N RBRED ul u ur) g # k) (N d l x r) \<Longrightarrow>
     \<exists>s'. insert_fixup_step s x = Some (s', g) \<and> keeps s s' \<and>
       focus s' k (N RBRED (N RBBLK ul u ur) g (N RBBLK b p (N d l x r)))"
  by (auto simp: step_simps)

text \<open>The recolouring and the rotation at the grandparent that end the loop.\<close>

lemma insert_tail_right:
  assumes F: "focus s (FL e p b # FL c g u # k) (N d l x r)"
  shows "\<exists>s'. do { p \<leftarrow> get_parent s x; s \<leftarrow> set_color s p RBBLK; g \<leftarrow> get_parent s p;
                   s \<leftarrow> set_color s g RBRED; s \<leftarrow> rotate_right s g; Some (s, x) } = Some (s', x)
     \<and> keeps s s' \<and> focus s' k (N RBBLK (N d l x r) p (N RBRED b g u))"
proof -
  obtain s1 where s1: "set_color s p RBBLK = Some s1" "keeps s s1"
    "focus s1 (FL c g u # k) (N RBBLK (N d l x r) p b)"
    using focus_set_color focus_up2(1) [OF F] by (metis fill.simps(1,2))
  obtain s2 where s2: "set_color s1 g RBRED = Some s2" "keeps s1 s2"
    "focus s2 k (N RBRED (N RBBLK (N d l x r) p b) g u)"
    using focus_set_color s1(3) focus_up(1) by metis
  obtain s3 where "rotate_right s2 g = Some s3" "keeps s2 s3"
    "focus s3 k (N RBBLK (N d l x r) p (N RBRED b g u))"
    using rotate_right_focus [OF s2(3)] by metis
  then show ?thesis using s1(1,2) s2(1,2) focus_get [OF F] focus_get [OF s1(3)]
    by (auto intro: keeps_trans)
qed

lemma insert_tail_left:
  assumes F: "focus s (FR e b p # FR c u g # k) (N d l x r)"
  shows "\<exists>s'. do { p \<leftarrow> get_parent s x; s \<leftarrow> set_color s p RBBLK; g \<leftarrow> get_parent s p;
                   s \<leftarrow> set_color s g RBRED; s \<leftarrow> rotate_left s g; Some (s, x) } = Some (s', x)
     \<and> keeps s s' \<and> focus s' k (N RBBLK (N RBRED u g b) p (N d l x r))"
proof -
  obtain s1 where s1: "set_color s p RBBLK = Some s1" "keeps s s1"
    "focus s1 (FR c u g # k) (N RBBLK b p (N d l x r))"
    using focus_set_color focus_up2(1) [OF F] by (metis fill.simps(1,3))
  obtain s2 where s2: "set_color s1 g RBRED = Some s2" "keeps s1 s2"
    "focus s2 k (N RBRED u g (N RBBLK b p (N d l x r)))"
    using focus_set_color s1(3) focus_up(2) by metis
  obtain s3 where "rotate_left s2 g = Some s3" "keeps s2 s3"
    "focus s3 k (N RBBLK (N RBRED u g b) p (N d l x r))"
    using rotate_left_focus [OF s2(3)] by metis
  then show ?thesis using s1(1,2) s2(1,2) focus_get [OF F] focus_get [OF s1(3)]
    by (auto intro: keeps_trans)
qed

lemma insert_rotate_outer:
  assumes "tcol u = RBBLK"
  shows "focus s (FL RBRED p b # FL c g u # k) (N d l x r) \<Longrightarrow>
     \<exists>s'. insert_fixup_step s x = Some (s', x) \<and> keeps s s' \<and>
       focus s' k (N RBBLK (N d l x r) p (N RBRED b g u))"
    and "focus s (FR RBRED b p # FR c u g # k) (N d l x r) \<Longrightarrow>
     \<exists>s'. insert_fixup_step s x = Some (s', x) \<and> keeps s s' \<and>
       focus s' k (N RBBLK (N RBRED u g b) p (N d l x r))"
proof -
  assume F: "focus s (FL RBRED p b # FL c g u # k) (N d l x r)"
  then have "x \<noteq> ptr_of b" by (cases b) (auto simp: focus_def)
  then show "\<exists>s'. insert_fixup_step s x = Some (s', x) \<and> keeps s s' \<and>
       focus s' k (N RBBLK (N d l x r) p (N RBRED b g u))"
    using assms insert_tail_right [OF F] focus_get [OF F] focus_up2 [OF F]
    by (simp add: insert_fixup_step_def focus_get focus_children)
next
  assume F: "focus s (FR RBRED b p # FR c u g # k) (N d l x r)"
  then have "x \<noteq> ptr_of b" "p \<noteq> ptr_of u"
    by (cases b; auto simp: focus_def) (cases u; use F in \<open>auto simp: focus_def\<close>)
  then show "\<exists>s'. insert_fixup_step s x = Some (s', x) \<and> keeps s s' \<and>
       focus s' k (N RBBLK (N RBRED u g b) p (N d l x r))"
    using assms insert_tail_left [OF F] focus_get [OF F] focus_up2 [OF F]
    by (simp add: insert_fixup_step_def focus_get focus_children)
qed

lemma insert_rotate_inner:
  assumes "tcol u = RBBLK"
  shows "focus s (FR RBRED b p # FL c g u # k) (N d l x r) \<Longrightarrow>
     \<exists>s'. insert_fixup_step s x = Some (s', p) \<and> keeps s s' \<and>
       focus s' k (N RBBLK (N RBRED b p l) x (N RBRED r g u))"
    and "focus s (FL RBRED p b # FR c u g # k) (N d l x r) \<Longrightarrow>
     \<exists>s'. insert_fixup_step s x = Some (s', p) \<and> keeps s s' \<and>
       focus s' k (N RBBLK (N RBRED u g l) x (N RBRED r p b))"
proof -
  assume F: "focus s (FR RBRED b p # FL c g u # k) (N d l x r)"
  then have P: "focus s (FL c g u # k) (N RBRED b p (N d l x r))" by (simp add: focus_up)
  obtain s1 where s1: "rotate_left s p = Some s1" "keeps s s1"
    "focus s1 (FL d x r # FL c g u # k) (N RBRED b p l)"
    using rotate_left_focus [OF P] focus_up(1) by metis
  show "\<exists>s'. insert_fixup_step s x = Some (s', p) \<and> keeps s s' \<and>
       focus s' k (N RBBLK (N RBRED b p l) x (N RBRED r g u))"
    using assms insert_tail_right [OF s1(3)] focus_get [OF F] focus_up2 [OF F] s1(1,2)
    by (auto simp: insert_fixup_step_def focus_get focus_children intro: keeps_trans)
next
  assume F: "focus s (FL RBRED p b # FR c u g # k) (N d l x r)"
  then have P: "focus s (FR c u g # k) (N RBRED (N d l x r) p b)" by (simp add: focus_up)
  have "p \<noteq> ptr_of u" by (cases u) (use F in \<open>auto simp: focus_def\<close>)
  obtain s1 where s1: "rotate_right s p = Some s1" "keeps s s1"
    "focus s1 (FR d l x # FR c u g # k) (N RBRED r p b)"
    using rotate_right_focus [OF P] focus_up(2) by metis
  show "\<exists>s'. insert_fixup_step s x = Some (s', p) \<and> keeps s s' \<and>
       focus s' k (N RBBLK (N RBRED u g l) x (N RBRED r p b))"
    using assms insert_tail_left [OF s1(3)] focus_get [OF F] focus_up2 [OF F] s1(1,2) \<open>p \<noteq> ptr_of u\<close>
    by (auto simp: insert_fixup_step_def focus_get focus_children intro: keeps_trans)
qed

section \<open>The loop\<close>

fun blacken :: "ptree \<Rightarrow> ptree" where
  "blacken E = E"
| "blacken (N c l a r) = N RBBLK l a r"

lemma inord_blacken [simp]: "inord (blacken t) = inord t"
  by (cases t) auto

lemma blacken_id [simp]: "tcol t = RBBLK \<Longrightarrow> blacken t = t"
  by (cases t) auto

lemma set_root_black:
  assumes "rep s t" "t \<noteq> E"
  shows "\<exists>s'. set_color s (troot s) RBBLK = Some s' \<and> rep s' (blacken t) \<and> keeps s s'"
proof (cases t)
  case (N c l a r)
  then show ?thesis using assms focus_set_color [of s "[]" c l a r RBBLK]
    by (simp add: focus_def) metis
qed (use assms in simp)

lemma fill_not_E: "t \<noteq> E \<Longrightarrow> fill k t \<noteq> E"
  by (induction k t rule: fill.induct) auto

lemma insert_fixup_stop:
  assumes F: "focus s k (N c l x r)" and "k = [] \<or> black_above k"
  shows "\<exists>s'. insert_fixup s x = Some s' \<and> keeps s s' \<and> rep s' (blacken (fill k (N c l x r)))"
proof -
  have R: "rep s (fill k (N c l x r))" using F by (simp add: rep_fill)
  have "insert_fixup s x = set_color s (troot s) RBBLK"
  proof (cases k)
    case Nil
    then show ?thesis using F by (simp add: insert_fixup.simps focus_def)
  next
    case (Cons f k')
    then have "get_color s (cpar k) = Some RBBLK" using F assms(2)
      by (cases f) (auto simp: focus_up focus_get)
    moreover have "x \<noteq> troot s"
      using F Cons croot_in [of k x] by (auto simp: focus_def)
    ultimately show ?thesis using focus_get [OF F] by (simp add: insert_fixup.simps)
  qed
  then show ?thesis using set_root_black [OF R] fill_not_E by auto
qed

definition fixed_up :: "'p rb \<Rightarrow> addr list \<Rightarrow> 'p rb option \<Rightarrow> bool" where
  "fixed_up s xs res \<longleftrightarrow>
     (\<exists>s' t'. res = Some s' \<and> keeps s s' \<and> rep s' t' \<and> inord t' = xs \<and> balanced t')"

lemma fixed_up_keeps: "fixed_up s' xs res \<Longrightarrow> keeps s s' \<Longrightarrow> fixed_up s xs res"
  by (auto simp: fixed_up_def intro: keeps_trans)

lemma insert_fixup_done:
  assumes "focus s k t" "ctx_ok n k" "rb_ok n t" "t = N c l x r" "k = [] \<longrightarrow> c = RBBLK"
    "k = [] \<or> black_above k"
  shows "fixed_up s (inord (fill k t)) (insert_fixup s x)"
proof -
  have "balanced (fill k t)" using balanced_fill [of n k t] assms by auto
  then show ?thesis using insert_fixup_stop [of s k c l x r] assms
    by (auto simp: fixed_up_def balanced_def)
qed

lemma insert_fixup_next:
  assumes "x \<noteq> troot s" "get_parent s x = Some p" "get_color s p = Some RBRED"
    "insert_fixup_step s x = Some (s', x')" "keeps s s'" "fixed_up s' xs (insert_fixup s' x')"
  shows "fixed_up s xs (insert_fixup s x)"
  using assms by (simp add: insert_fixup.simps [of s x] fixed_up_keeps)

text \<open>
  A round either moves the red node two levels up or ends with a black node above it; \<open>k'\<close> and
  \<open>y\<close> are the frames and the red node after it.
\<close>

definition round_to :: "'p rb \<Rightarrow> addr \<Rightarrow> nat \<Rightarrow> ptree \<Rightarrow> ctx \<Rightarrow> ctx \<Rightarrow> bool" where
  "round_to s x m t k k' \<longleftrightarrow>
     (\<exists>s' y a b. insert_fixup_step s x = Some (s', y) \<and> keeps s s' \<and> focus s' k' (N RBRED a y b)
        \<and> rb_ok m (N RBRED a y b) \<and> ctx_ok m k' \<and> inord (fill k' (N RBRED a y b)) = inord (fill k t))"

lemma insert_round_red:
  assumes "focus s (f1 # f2 # k) (N RBRED l x r)" "rb_ok n (N RBRED l x r)" "ctx_ok n (f1 # f2 # k)"
    "fcol f1 = RBRED" "f2 = FL RBBLK g (N RBRED ul u ur) \<or> f2 = FR RBBLK (N RBRED ul u ur) g"
  shows "round_to s x (Suc n) (N RBRED l x r) (f1 # f2 # k) k"
  using assms(5)
proof
  assume "f2 = FL RBBLK g (N RBRED ul u ur)"
  then show ?thesis using assms insert_recolor(1,2) [of s _ _ RBBLK g ul u ur k RBRED l x r]
    by (cases f1) (fastforce simp: round_to_def inord_fill)+
next
  assume "f2 = FR RBBLK (N RBRED ul u ur) g"
  then show ?thesis using assms insert_recolor(3,4) [of s _ _ RBBLK ul u ur g k RBRED l x r]
    by (cases f1) (fastforce simp: round_to_def inord_fill)+
qed

lemma insert_round_black:
  assumes "focus s (f1 # f2 # k) (N RBRED l x r)" "rb_ok n (N RBRED l x r)" "ctx_ok n (f1 # f2 # k)"
    "fcol f1 = RBRED" "f2 = FL RBBLK g u \<or> f2 = FR RBBLK u g" "tcol u = RBBLK"
  shows "\<exists>f. fcol f = RBBLK \<and> round_to s x n (N RBRED l x r) (f1 # f2 # k) (f # k)"
  using assms(5)
proof
  assume f2: "f2 = FL RBBLK g u"
  show ?thesis
  proof (cases f1)
    case (FL c p b)
    then have "round_to s x n (N RBRED l x r) (f1 # f2 # k) (FL RBBLK p (N RBRED b g u) # k)"
      using assms f2 insert_rotate_outer(1) [of u s p b RBBLK g k RBRED l x r]
      by (fastforce simp: round_to_def inord_fill focus_up)
    then show ?thesis by (metis fcol.simps(1))
  next
    case (FR c b p)
    then have "round_to s x n (N RBRED l x r) (f1 # f2 # k) (FL RBBLK x (N RBRED r g u) # k)"
      using assms f2 insert_rotate_inner(1) [of u s b p RBBLK g k RBRED l x r]
      by (fastforce simp: round_to_def inord_fill focus_up)
    then show ?thesis by (metis fcol.simps(1))
  qed
next
  assume f2: "f2 = FR RBBLK u g"
  show ?thesis
  proof (cases f1)
    case (FL c p b)
    then have "round_to s x n (N RBRED l x r) (f1 # f2 # k) (FR RBBLK (N RBRED u g l) x # k)"
      using assms f2 insert_rotate_inner(2) [of u s p b RBBLK g k RBRED l x r]
      by (fastforce simp: round_to_def inord_fill focus_up)
    then show ?thesis by (metis fcol.simps(2))
  next
    case (FR c b p)
    then have "round_to s x n (N RBRED l x r) (f1 # f2 # k) (FR RBBLK (N RBRED u g b) p # k)"
      using assms f2 insert_rotate_outer(2) [of u s b p RBBLK g k RBRED l x r]
      by (fastforce simp: round_to_def inord_fill focus_up)
    then show ?thesis by (metis fcol.simps(2))
  qed
qed

lemma insert_fixup_ok:
  "focus s k (N RBRED l x r) \<Longrightarrow> rb_ok n (N RBRED l x r) \<Longrightarrow> ctx_ok n k \<Longrightarrow>
     fixed_up s (inord (fill k (N RBRED l x r))) (insert_fixup s x)"
proof (induction k arbitrary: s l x r n rule: induct_list012)
  case 1
  have "rb_ok (Suc n) (N RBBLK l x r)" using 1 by simp
  then have "balanced (N RBBLK l x r)" unfolding balanced_def by (metis tcol.simps(2))
  then show ?case using insert_fixup_stop [OF 1(1)]
    by (auto simp: fixed_up_def intro!: exI [of _ "N RBBLK l x r"])
next
  case (2 f)
  then have "black_above [f]" by (cases f) auto
  then show ?case using 2 by (intro insert_fixup_done) auto
next
  case (3 f1 f2 k)
  show ?case
  proof (cases "fcol f1")
    case RBBLK
    then show ?thesis using 3 by (intro insert_fixup_done) auto
  next
    case RBRED
    then have f2: "fcol f2 = RBBLK" using "3.prems"(3) by (cases f1) auto
    have par: "get_parent s x = Some (cpar (f1 # f2 # k))" "x \<noteq> troot s"
      using focus_get(4) [OF "3.prems"(1)] "3.prems"(1) croot_in [of "f1 # f2 # k" x]
      by (auto simp: focus_def)
    have col: "get_color s (cpar (f1 # f2 # k)) = Some RBRED"
      using RBRED "3.prems"(1) by (cases f1) (auto simp: focus_up focus_get)
    obtain g u where gu: "f2 = FL RBBLK g u \<or> f2 = FR RBBLK u g" using f2 by (cases f2) auto
    obtain m k' where k': "round_to s x m (N RBRED l x r) (f1 # f2 # k) k'"
      "k' = k \<or> black_above k'"
    proof (cases "tcol u")
      case RBRED
      then obtain ul ua ur where "u = N RBRED ul ua ur" by (cases u) auto
      then show thesis using that insert_round_red [OF "3.prems" \<open>fcol f1 = RBRED\<close>] gu by blast
    next
      case RBBLK
      then obtain f where "fcol f = RBBLK"
        "round_to s x n (N RBRED l x r) (f1 # f2 # k) (f # k)"
        using insert_round_black [OF "3.prems" \<open>fcol f1 = RBRED\<close> gu] by blast
      then show thesis using that by (metis black_above_simps(2))
    qed
    from k'(1) obtain s' y a b where r: "insert_fixup_step s x = Some (s', y)" "keeps s s'"
      "focus s' k' (N RBRED a y b)" "rb_ok m (N RBRED a y b)" "ctx_ok m k'"
      "inord (fill k' (N RBRED a y b)) = inord (fill (f1 # f2 # k) (N RBRED l x r))"
      unfolding round_to_def by blast
    have "fixed_up s' (inord (fill k' (N RBRED a y b))) (insert_fixup s' y)"
      using k'(2)
    proof
      assume "black_above k'"
      then show ?thesis using insert_fixup_done [OF r(3,5,4)] by (cases k') auto
    qed (use "3.IH"(1) [of s' a y b m] r(3-5) in simp)
    then show ?thesis using insert_fixup_next [OF par(2,1) col r(1,2)] r(6) by simp
  qed
qed

section \<open>The place of the new node\<close>

text \<open>\<open>insert_pos\<close> descends to a leaf: the frames \<open>k\<close> above it, and the result of the last comparison.\<close>

definition side :: "ctx \<Rightarrow> int \<Rightarrow> bool" where
  "side k c \<longleftrightarrow> (case k of [] \<Rightarrow> True | FL _ _ _ # _ \<Rightarrow> c \<le> 0 | FR _ _ _ # _ \<Rightarrow> 0 < c)"

definition pays :: "'p rb \<Rightarrow> addr list \<Rightarrow> bool" where
  "pays s as \<longleftrightarrow> (\<forall>a\<in>set as. pay s a \<noteq> None)"

definition val :: "'p rb \<Rightarrow> addr \<Rightarrow> 'p" where
  "val s a = the (pay s a)"

lemma pays_val: "pays s as \<Longrightarrow> a \<in> set as \<Longrightarrow> pay s a = Some (val s a)"
  by (auto simp: pays_def val_def)

text \<open>
  Along the nodes \<open>as\<close> the comparison with \<open>x\<close> changes from greater to not greater at most once;
  the nodes \<open>xs\<close> are the ones before the change and \<open>ys\<close> the ones after it.
\<close>

definition up_closed :: "'p rb \<Rightarrow> addr \<Rightarrow> addr list \<Rightarrow> bool" where
  "up_closed s x as \<longleftrightarrow>
     sorted_wrt (\<lambda>a b. tcmp s (val s x) (val s a) \<le> 0 \<longrightarrow> tcmp s (val s x) (val s b) \<le> 0) as"

definition parted :: "'p rb \<Rightarrow> addr \<Rightarrow> addr list \<Rightarrow> addr list \<Rightarrow> bool" where
  "parted s x xs ys \<longleftrightarrow>
     (\<forall>a\<in>set xs. \<not> tcmp s (val s x) (val s a) \<le> 0) \<and> (\<forall>a\<in>set ys. tcmp s (val s x) (val s a) \<le> 0)"

lemma monotone_split:
  assumes "sorted_wrt (\<lambda>a b. P a \<longrightarrow> P b) (xs @ a # ys)"
  shows "sorted_wrt (\<lambda>a b. P a \<longrightarrow> P b) xs" "sorted_wrt (\<lambda>a b. P a \<longrightarrow> P b) ys"
    "P a \<Longrightarrow> b \<in> set ys \<Longrightarrow> P b" "\<not> P a \<Longrightarrow> b \<in> set xs \<Longrightarrow> \<not> P b"
  using assms unfolding sorted_wrt_append sorted_wrt.simps set_simps by blast+

lemma insert_pos_ok:
  assumes "focus s k t" "pay s x \<noteq> None" "pays s (inord t)" "side k c"
  obtains k' c' where "insert_pos s x (ptr_of t) (cpar k) c = Some (cpar (k' @ k), c')"
    "side (k' @ k) c'" "fill k' E = t"
    "up_closed s x (inord t) \<Longrightarrow> parted s x (cpre k') (cpost k')"
proof -
  let ?up = "\<lambda>a. tcmp s (val s x) (val s a) \<le> 0"
  have "\<exists>k' c'. insert_pos s x (ptr_of t) (cpar k) c = Some (cpar (k' @ k), c') \<and> side (k' @ k) c'
    \<and> fill k' E = t \<and> (sorted_wrt (\<lambda>a b. ?up a \<longrightarrow> ?up b) (inord t) \<longrightarrow>
      (\<forall>a\<in>set (cpre k'). \<not> ?up a) \<and> (\<forall>a\<in>set (cpost k'). ?up a))"
    using assms
  proof (induction t arbitrary: k c)
    case E
    then show ?case by (intro exI [of _ "[]"]) (simp add: insert_pos.simps)
  next
    case (N d l a r)
    let ?c = "tcmp s (val s x) (val s a)"
    have prems: "focus s (FL d a r # k) l" "focus s (FR d l a # k) r"
      "pays s (inord l)" "pays s (inord r)"
      using N.prems by (simp_all add: focus_up pays_def)
    have step: "insert_pos s x a (cpar k) c
        = insert_pos s x (ptr_of (if ?c \<le> 0 then l else r)) a ?c"
      using N.prems focus_fresh(2) [OF N.prems(1)] focus_get [OF N.prems(1)]
      by (subst insert_pos.simps) (auto simp: pays_def val_def)
    show ?case
    proof (cases "?c \<le> 0")
      case True
      then obtain k' c' where "insert_pos s x (ptr_of l) a ?c = Some (cpar (k' @ FL d a r # k), c')"
        "side (k' @ FL d a r # k) c'" "fill k' E = l"
        "sorted_wrt (\<lambda>a b. ?up a \<longrightarrow> ?up b) (inord l) \<longrightarrow>
           (\<forall>a\<in>set (cpre k'). \<not> ?up a) \<and> (\<forall>a\<in>set (cpost k'). ?up a)"
        using N.IH(1) [of "FL d a r # k" ?c] prems(1,3) N.prems(2) by (auto simp: side_def)
      note pos = this
      have "sorted_wrt (\<lambda>a b. ?up a \<longrightarrow> ?up b) (inord (N d l a r)) \<longrightarrow>
          (\<forall>b\<in>set (cpre (k' @ [FL d a r])). \<not> ?up b) \<and> (\<forall>b\<in>set (cpost (k' @ [FL d a r])). ?up b)"
      proof
        assume "sorted_wrt (\<lambda>a b. ?up a \<longrightarrow> ?up b) (inord (N d l a r))"
        note mono = monotone_split [OF this [unfolded inord.simps]]
        show "(\<forall>b\<in>set (cpre (k' @ [FL d a r])). \<not> ?up b) \<and> (\<forall>b\<in>set (cpost (k' @ [FL d a r])). ?up b)"
          using pos(4) [rule_format, OF mono(1)] mono(3) [OF True] True by auto
      qed
      moreover have "insert_pos s x (ptr_of (N d l a r)) (cpar k) c = Some (cpar ((k' @ [FL d a r]) @ k), c')"
        "side ((k' @ [FL d a r]) @ k) c'" "fill (k' @ [FL d a r]) E = N d l a r"
        using pos(1-3) True step by simp_all
      ultimately show ?thesis by blast
    next
      case False
      then obtain k' c' where "insert_pos s x (ptr_of r) a ?c = Some (cpar (k' @ FR d l a # k), c')"
        "side (k' @ FR d l a # k) c'" "fill k' E = r"
        "sorted_wrt (\<lambda>a b. ?up a \<longrightarrow> ?up b) (inord r) \<longrightarrow>
           (\<forall>a\<in>set (cpre k'). \<not> ?up a) \<and> (\<forall>a\<in>set (cpost k'). ?up a)"
        using N.IH(2) [of "FR d l a # k" ?c] prems(2,4) N.prems(2) by (auto simp: side_def)
      note pos = this
      have "sorted_wrt (\<lambda>a b. ?up a \<longrightarrow> ?up b) (inord (N d l a r)) \<longrightarrow>
          (\<forall>b\<in>set (cpre (k' @ [FR d l a])). \<not> ?up b) \<and> (\<forall>b\<in>set (cpost (k' @ [FR d l a])). ?up b)"
      proof
        assume "sorted_wrt (\<lambda>a b. ?up a \<longrightarrow> ?up b) (inord (N d l a r))"
        note mono = monotone_split [OF this [unfolded inord.simps]]
        show "(\<forall>b\<in>set (cpre (k' @ [FR d l a])). \<not> ?up b) \<and> (\<forall>b\<in>set (cpost (k' @ [FR d l a])). ?up b)"
          using pos(4) [rule_format, OF mono(2)] mono(4) [OF False] False by auto
      qed
      moreover have "insert_pos s x (ptr_of (N d l a r)) (cpar k) c = Some (cpar ((k' @ [FR d l a]) @ k), c')"
        "side ((k' @ [FR d l a]) @ k) c'" "fill (k' @ [FR d l a]) E = N d l a r"
        using pos(1-3) False step by simp_all
      ultimately show ?thesis by blast
    qed
  qed
  then show thesis using that unfolding up_closed_def parted_def by blast
qed

lemma link_new:
  assumes F: "focus s k E" and x: "nodes s x = Some n" "x \<notin> set (cnodes k)" "x \<noteq> RBNIL" and "side k c"
  obtains s' where
    "do { s \<leftarrow> set_color s x RBRED; s \<leftarrow> set_right s x RBNIL; s \<leftarrow> set_left s x RBNIL;
          s \<leftarrow> set_parent s x (cpar k);
          s \<leftarrow> (if cpar k \<noteq> NULL
               then (if c \<le> 0 then set_left s (cpar k) x else set_right s (cpar k) x)
               else Some (s\<lparr>troot := x\<rparr>));
          f s } = f s'"
    "keeps s s'" "focus s' k (N RBRED E x E)"
proof -
  have x0: "x \<noteq> NULL" using x(1) F by (cases "x = NULL") (auto simp: focus_def nil_ok_def)
  let ?n = "\<lparr>ncolor = RBRED, nleft = RBNIL, nright = RBNIL, nparent = cpar k\<rparr>"
  let ?s = "s\<lparr>nodes := (nodes s)(x \<mapsto> ?n)\<rparr>"
  have new: "do { s \<leftarrow> set_color s x RBRED; s \<leftarrow> set_right s x RBNIL; s \<leftarrow> set_left s x RBNIL;
          s \<leftarrow> set_parent s x (cpar k); g s } = g ?s" for g
    using x(1) by (cases n) (simp add: field_eval)
  have keep: "keeps s ?s" using x(1) by (auto simp: keeps_def)
  obtain s' where s': "(if cpar k \<noteq> NULL
               then (if c \<le> 0 then set_left ?s (cpar k) x else set_right ?s (cpar k) x)
               else Some (?s\<lparr>troot := x\<rparr>)) = Some s'" "keeps ?s s'" "focus s' k (N RBRED E x E)"
    using F x x0 \<open>side k c\<close>
    by (cases k rule: cpar.cases)
      (auto simp: field_eval focus_def nil_ok_def keeps_def side_def)
  show thesis
    by (rule that [OF _ keeps_trans [OF keep s'(2)] s'(3)]) (subst new, subst s'(1), simp)
qed

section \<open>\<open>rbtree_insert\<close>\<close>

text \<open>\<open>holds s t\<close>: the memory holds the balanced tree \<open>t\<close>, every node in it with its object.\<close>

definition holds :: "'p rb \<Rightarrow> ptree \<Rightarrow> bool" where
  "holds s t \<longleftrightarrow> rep s t \<and> balanced t \<and> pays s (inord t)"

text \<open>\<open>fresh s t x\<close>: \<open>x\<close> is a node with its object, not the sentinel and not in the tree.\<close>

definition fresh :: "'p rb \<Rightarrow> ptree \<Rightarrow> addr \<Rightarrow> bool" where
  "fresh s t x \<longleftrightarrow> nodes s x \<noteq> None \<and> pay s x \<noteq> None \<and> x \<noteq> RBNIL \<and> x \<notin> set (inord t)"

lemma rbtree_insert_ok:
  assumes h: "holds s t" and x: "fresh s t x"
  obtains s' t' xs ys where "rbtree_insert s x = Some s'" "holds s' t'" "keeps s s'"
    "inord t = xs @ ys" "inord t' = xs @ x # ys"
    "up_closed s x (inord t) \<Longrightarrow> parted s x xs ys"
proof -
  have R: "rep s t" and B: "balanced t" and P: "pays s (inord t)" using h by (auto simp: holds_def)
  have px: "pay s x \<noteq> None" using x by (simp add: fresh_def)
  have root: "troot s = ptr_of t" using R by (simp add: focus_def)
  obtain k c where k: "insert_pos s x (ptr_of t) NULL 0 = Some (cpar k, c)" "side k c" "fill k E = t"
    and srt: "up_closed s x (inord t) \<Longrightarrow> parted s x (cpre k) (cpost k)"
    by (rule insert_pos_ok [OF R px P, of 0]) (simp_all add: side_def)
  have F: "focus s k E" using R k(3) rep_fill by metis
  have inord: "inord t = cpre k @ cpost k" using k(3) inord_fill [of k E] by simp
  obtain n where n: "nodes s x = Some n" "x \<noteq> RBNIL" "x \<notin> set (cnodes k)"
    using x by (auto simp: fresh_def inord set_cnodes)
  obtain s1 where s1: "rbtree_insert s x = insert_fixup s1 x" "keeps s s1" "focus s1 k (N RBRED E x E)"
    by (rule link_new [OF F n(1,3,2) k(2), of "\<lambda>s. insert_fixup s x"])
      (simp add: rbtree_insert_def root k(1))
  have "ctx_ok 0 k" using fill_balanced [of k E] B k(3) by fastforce
  then have "fixed_up s1 (inord (fill k (N RBRED E x E))) (insert_fixup s1 x)"
    using insert_fixup_ok [OF s1(3), of 0] by simp
  then obtain s' t' where s': "insert_fixup s1 x = Some s'" "keeps s1 s'" "rep s' t'"
    "inord t' = cpre k @ x # cpost k" "balanced t'"
    by (auto simp: fixed_up_def inord_fill)
  have kp: "keeps s s'" using s1(2) s'(2) by (rule keeps_trans)
  then have "holds s' t'" using s' P px by (auto simp: holds_def pays_def inord keeps_def)
  then show thesis using that [OF _ _ kp inord s'(4)] s1(1) s'(1) srt by simp
qed

end
