(* ===== verification/Cask_RBTree_Query.thy ===== *)
theory Cask_RBTree_Query
  imports Cask_RBTree_Insert
begin

text \<open>
  The queries of the red-black tree, and the tree as an ordered sequence: under a comparison that
  orders the objects by a key, \<^verbatim>\<open>rbtree_insert\<close> is \<^const>\<open>insort_key\<close> on the in-order sequence of the
  nodes, \<^verbatim>\<open>rbtree_leftmost\<close> its head and \<^verbatim>\<open>rbtree_upper_bound\<close> the first node above a key.
\<close>

section \<open>Leftmost, rightmost\<close>

lemma left_end_ok: "focus s k t \<Longrightarrow> t \<noteq> E \<Longrightarrow> left_end s (ptr_of t) = Some (hd (inord t))"
proof (induction t arbitrary: k)
  case (N c l a r)
  then have l: "focus s (FL c a r # k) l" by (simp add: focus_up)
  show ?case
  proof (cases l)
    case E
    then show ?thesis using focus_get [OF N.prems(1)] by (simp add: left_end.simps)
  next
    case N': (N d l' b r')
    then have "b \<noteq> RBNIL" using l focus_fresh by blast
    then show ?thesis using focus_get [OF N.prems(1)] N.IH(1) [OF l] N'
      by (simp add: left_end.simps [of s a] hd_append)
  qed
qed simp

lemma right_end_ok: "focus s k t \<Longrightarrow> t \<noteq> E \<Longrightarrow> right_end s (ptr_of t) = Some (last (inord t))"
proof (induction t arbitrary: k)
  case (N c l a r)
  then have r: "focus s (FR c l a # k) r" by (simp add: focus_up)
  show ?case
  proof (cases r)
    case E
    then show ?thesis using focus_get [OF N.prems(1)] by (simp add: right_end.simps)
  next
    case N': (N d l' b r')
    then have "b \<noteq> RBNIL" using r focus_fresh by blast
    then show ?thesis using focus_get [OF N.prems(1)] N.IH(2) [OF r] N'
      by (simp add: right_end.simps [of s a])
  qed
qed simp

lemma inord_Nil [simp]: "inord t = [] \<longleftrightarrow> t = E"
  by (cases t) auto

definition end_node :: "addr list \<Rightarrow> (addr list \<Rightarrow> addr) \<Rightarrow> addr" where
  "end_node as f = (if as = [] then NULL else f as)"

lemma troot_rep: "rep s t \<Longrightarrow> troot s = ptr_of t"
  by (simp add: focus_def)

lemma ptr_of_nil: "focus s k t \<Longrightarrow> ptr_of t = RBNIL \<longleftrightarrow> t = E"
  by (cases t) (auto simp: focus_def)

lemma leftmost_ok: "rep s t \<Longrightarrow> rbtree_leftmost s (troot s) = Some (end_node (inord t) hd)"
  by (simp add: rbtree_leftmost_def troot_rep end_node_def ptr_of_nil left_end_ok del: One_nat_def)

lemma rightmost_ok: "rep s t \<Longrightarrow> rbtree_rightmost s (troot s) = Some (end_node (inord t) last)"
  by (simp add: rbtree_rightmost_def troot_rep end_node_def ptr_of_nil right_end_ok del: One_nat_def)

section \<open>Upper bound\<close>

text \<open>\<open>first_above\<close>: the first node of a list whose object compares above that of \<open>x\<close>, else \<open>d\<close>.\<close>

definition first_above :: "'p rb \<Rightarrow> addr \<Rightarrow> addr \<Rightarrow> addr list \<Rightarrow> addr" where
  "first_above s x d as =
     (case find (\<lambda>a. 0 < tcmp s (val s a) (val s x)) as of None \<Rightarrow> d | Some a \<Rightarrow> a)"

definition above_closed :: "'p rb \<Rightarrow> addr \<Rightarrow> addr list \<Rightarrow> bool" where
  "above_closed s x as \<longleftrightarrow>
     sorted_wrt (\<lambda>a b. 0 < tcmp s (val s a) (val s x) \<longrightarrow> 0 < tcmp s (val s b) (val s x)) as"

lemma above_closed_split:
  assumes "above_closed s x (xs @ a # ys)"
  shows "above_closed s x xs" "above_closed s x ys"
    "\<not> 0 < tcmp s (val s a) (val s x) \<Longrightarrow> b \<in> set xs \<Longrightarrow> \<not> 0 < tcmp s (val s b) (val s x)"
  using assms monotone_split [of "\<lambda>a. 0 < tcmp s (val s a) (val s x)" xs a ys]
  unfolding above_closed_def by blast+

lemma find_append: "find P (xs @ ys) = (case find P xs of None \<Rightarrow> find P ys | Some a \<Rightarrow> Some a)"
  by (induction xs) auto

lemma first_above_hit:
  "0 < tcmp s (val s a) (val s x) \<Longrightarrow> first_above s x d (xs @ a # ys) = first_above s x a xs"
  by (simp add: first_above_def find_append split: option.split)

lemma first_above_miss:
  assumes "\<not> 0 < tcmp s (val s a) (val s x)" "above_closed s x (xs @ a # ys)"
  shows "first_above s x d (xs @ a # ys) = first_above s x d ys"
proof -
  have "find (\<lambda>a. 0 < tcmp s (val s a) (val s x)) xs = None"
    using above_closed_split(3) [OF assms(2,1)] by (auto simp: find_None_iff)
  then show ?thesis using assms(1) by (simp add: first_above_def find_append)
qed

lemma upper_bound_loop_ok:
  "focus s k t \<Longrightarrow> pays s (inord t) \<Longrightarrow> pay s x \<noteq> None \<Longrightarrow> above_closed s x (inord t) \<Longrightarrow>
     upper_bound_loop s x best (ptr_of t) = Some (first_above s x best (inord t))"
proof (induction t arbitrary: k best)
  case E
  then show ?case by (simp add: upper_bound_loop.simps first_above_def)
next
  case (N c l a r)
  note get = focus_get [OF N.prems(1)] and cl = above_closed_split [OF N.prems(4) [unfolded inord.simps]]
  have sub: "focus s (FL c a r # k) l" "focus s (FR c l a # k) r" "pays s (inord l)" "pays s (inord r)"
    using N.prems by (auto simp: focus_up pays_def)
  have px: "pay s x = Some (val s x)" using N.prems(3) by (auto simp: val_def)
  have pa: "pay s a = Some (val s a)" using N.prems(2) by (simp add: pays_val)
  have step: "upper_bound_loop s x best a =
      (if 0 < tcmp s (val s a) (val s x) then upper_bound_loop s x a (ptr_of l)
       else upper_bound_loop s x best (ptr_of r))"
    using get focus_fresh(2) [OF N.prems(1)] pa px
    by (subst upper_bound_loop.simps) simp
  show ?case
    using step N.IH(1) [OF sub(1,3) N.prems(3) cl(1)] N.IH(2) [OF sub(2,4) N.prems(3) cl(2)]
      first_above_hit [of s a x best "inord l" "inord r"]
      first_above_miss [of s a x "inord l" "inord r" best] N.prems(4)
    by simp
qed

section \<open>The tree under an order of its objects\<close>

text \<open>
  The contract a comparison function has towards the tree: it orders the objects by a key.
\<close>

locale keyed_cmp =
  fixes cmp :: "'p \<Rightarrow> 'p \<Rightarrow> int" and key :: "'p \<Rightarrow> 'k::linorder"
  assumes cmp_key: "cmp a b \<le> 0 \<longleftrightarrow> key a \<le> key b"
begin

definition node_key :: "'p rb \<Rightarrow> addr \<Rightarrow> 'k" where
  "node_key s a = key (val s a)"

definition ordered :: "'p rb \<Rightarrow> ptree \<Rightarrow> bool" where
  "ordered s t \<longleftrightarrow> holds s t \<and> tcmp s = cmp \<and> sorted (map (node_key s) (inord t))"

lemma cmp_above: "0 < cmp a b \<longleftrightarrow> key b < key a"
  using cmp_key [of a b] by auto

lemma ordered_up_closed: "ordered s t \<Longrightarrow> up_closed s x (inord t)"
  unfolding ordered_def up_closed_def sorted_map node_key_def
  by (auto simp: cmp_key elim!: sorted_wrt_mono_rel [rotated])

lemma ordered_above_closed: "ordered s t \<Longrightarrow> above_closed s x (inord t)"
  unfolding ordered_def above_closed_def sorted_map node_key_def
  by (auto simp: cmp_above elim!: sorted_wrt_mono_rel [rotated])

lemma insort_parted:
  "tcmp s = cmp \<Longrightarrow> parted s x xs ys \<Longrightarrow> insort_key (node_key s) x (xs @ ys) = xs @ x # ys"
proof (induction xs)
  case Nil
  then show ?case by (cases ys) (auto simp: parted_def cmp_key node_key_def)
next
  case (Cons a xs)
  then show ?case by (auto simp: parted_def cmp_key node_key_def)
qed

theorem insert_insort:
  assumes "ordered s t" "fresh s t x"
  obtains s' t' where "rbtree_insert s x = Some s'" "ordered s' t'" "keeps s s'"
    "inord t' = insort_key (node_key s) x (inord t)"
proof -
  obtain s' t' xs ys where r: "rbtree_insert s x = Some s'" "holds s' t'" "keeps s s'"
    "inord t = xs @ ys" "inord t' = xs @ x # ys" "up_closed s x (inord t) \<Longrightarrow> parted s x xs ys"
    by (rule rbtree_insert_ok [OF _ assms(2)]) (use assms(1) in \<open>simp_all add: ordered_def\<close>)
  have i: "inord t' = insort_key (node_key s) x (inord t)"
    using insort_parted [of s x xs ys] r(4,5) r(6) [OF ordered_up_closed [OF assms(1)]] assms(1)
    by (simp add: ordered_def)
  have k: "node_key s' = node_key s" using r(3) by (auto simp: keeps_def node_key_def val_def)
  have "ordered s' t'"
    using r(2,3) assms(1) by (simp add: ordered_def k i sorted_insort_key keeps_def)
  then show thesis using that r(1,3) i by blast
qed

theorem leftmost_min:
  assumes "ordered s t" "t \<noteq> E"
  obtains a where "rbtree_leftmost s (troot s) = Some a" "a \<in> set (inord t)"
    "\<And>b. b \<in> set (inord t) \<Longrightarrow> node_key s a \<le> node_key s b"
proof -
  have l: "rbtree_leftmost s (troot s) = Some (hd (inord t))"
    using assms leftmost_ok [of s t] by (simp add: ordered_def holds_def end_node_def)
  show thesis
    by (rule that [OF l]) (use assms in \<open>cases "inord t"; auto simp: ordered_def\<close>)+
qed

theorem upper_bound_least:
  assumes "ordered s t" "pay s x \<noteq> None"
  shows "rbtree_upper_bound s x = Some (case find (\<lambda>a. node_key s x < node_key s a) (inord t) of
           None \<Rightarrow> NULL | Some a \<Rightarrow> a)"
  using upper_bound_loop_ok [of s "[]" t x NULL] ordered_above_closed [OF assms(1)] assms
    troot_rep [of s t]
  by (simp add: rbtree_upper_bound_def ordered_def holds_def first_above_def cmp_above node_key_def)

end

end
