(* ===== verification/Cask_RBTree_Delete.thy ===== *)
theory Cask_RBTree_Delete
  imports Cask_RBTree_Query
begin

text \<open>
  Correctness of \<^verbatim>\<open>rbtree_delete\<close>.  The loop of \<^verbatim>\<open>delete_fixup\<close> works at a subtree whose black height
  is one too small; the sentinel's parent field stands for that of an empty subtree.  The values of
  the tree lose exactly the one of the deleted node.  The nodes do not: when the node has two
  children its successor's object is copied over it and the successor's node leaves the tree.
\<close>

section \<open>One round of \<open>delete_fixup\<close>\<close>

text \<open>\<open>dfocus\<close>: the parent field of the node in focus can be followed, also that of the sentinel.\<close>

definition dfocus :: "'p rb \<Rightarrow> ctx \<Rightarrow> ptree \<Rightarrow> bool" where
  "dfocus s k t \<longleftrightarrow> focus s k t \<and> get_parent s (ptr_of t) = Some (cpar k)"

lemma dfocus_node: "dfocus s k (N c l a r) = focus s k (N c l a r)"
  using focus_get(4) by (auto simp: dfocus_def)

lemma dfocus_keep:
  assumes "dfocus s k t" "focus s' k' t" "cpar k' = cpar k" "nodes s' RBNIL = nodes s RBNIL"
  shows "dfocus s' k' t"
proof (cases t)
  case E
  then show ?thesis using assms by (simp add: dfocus_def get_parent_def)
next
  case (N c l a r)
  then show ?thesis using assms by (simp add: dfocus_node)
qed

lemma ptr_of_other: "focus s (FL c a r # k) t \<Longrightarrow> r \<noteq> E \<Longrightarrow> ptr_of t \<noteq> ptr_of r"
  "focus s (FR c l a # k) t \<Longrightarrow> l \<noteq> E \<Longrightarrow> ptr_of t \<noteq> ptr_of l"
  by (cases t; cases r; force simp: focus_def) (cases t; cases l; force simp: focus_def)

text \<open>The rest of a round once the sibling is black.\<close>

definition del_left_tail :: "'p rb \<Rightarrow> addr \<Rightarrow> addr \<Rightarrow> ('p rb \<times> addr) option" where
  "del_left_tail s x w =
     do { wl \<leftarrow> get_left s w; wlc \<leftarrow> get_color s wl;
          wr \<leftarrow> get_right s w; wrc \<leftarrow> get_color s wr;
          if wlc = RBBLK \<and> wrc = RBBLK
          then do { s \<leftarrow> set_color s w RBRED; x \<leftarrow> get_parent s x; Some (s, x) }
          else do {
            (s, w) \<leftarrow> (if wrc = RBBLK
                      then do { s \<leftarrow> set_color s wl RBBLK; s \<leftarrow> set_color s w RBRED;
                                s \<leftarrow> rotate_right s w; p \<leftarrow> get_parent s x;
                                w \<leftarrow> get_right s p; Some (s, w) }
                      else Some (s, w));
            p \<leftarrow> get_parent s x; pc \<leftarrow> get_color s p;
            s \<leftarrow> set_color s w pc;
            s \<leftarrow> set_color s p RBBLK;
            wr \<leftarrow> get_right s w; s \<leftarrow> set_color s wr RBBLK;
            s \<leftarrow> rotate_left s p;
            Some (s, troot s) } }"

definition del_right_tail :: "'p rb \<Rightarrow> addr \<Rightarrow> addr \<Rightarrow> ('p rb \<times> addr) option" where
  "del_right_tail s x w =
     do { wl \<leftarrow> get_right s w; wlc \<leftarrow> get_color s wl;
          wr \<leftarrow> get_left s w; wrc \<leftarrow> get_color s wr;
          if wlc = RBBLK \<and> wrc = RBBLK
          then do { s \<leftarrow> set_color s w RBRED; x \<leftarrow> get_parent s x; Some (s, x) }
          else do {
            (s, w) \<leftarrow> (if wrc = RBBLK
                      then do { s \<leftarrow> set_color s wl RBBLK; s \<leftarrow> set_color s w RBRED;
                                s \<leftarrow> rotate_left s w; p \<leftarrow> get_parent s x;
                                w \<leftarrow> get_left s p; Some (s, w) }
                      else Some (s, w));
            p \<leftarrow> get_parent s x; pc \<leftarrow> get_color s p;
            s \<leftarrow> set_color s w pc;
            s \<leftarrow> set_color s p RBBLK;
            wr \<leftarrow> get_left s w; s \<leftarrow> set_color s wr RBBLK;
            s \<leftarrow> rotate_right s p;
            Some (s, troot s) } }"

lemma del_left_recolor:
  assumes D: "dfocus s (FL pc p (N RBBLK wl w wr) # k) t" and c: "tcol wl = RBBLK" "tcol wr = RBBLK"
  shows "\<exists>s'. del_left_tail s (ptr_of t) w = Some (s', p) \<and> keeps s s'
     \<and> focus s' k (N pc t p (N RBRED wl w wr))"
proof -
  have W: "focus s (FR pc t p # k) (N RBBLK wl w wr)"
    and P: "get_parent s (ptr_of t) = Some p"
    using D by (auto simp: dfocus_def focus_up)
  obtain s1 where s1: "set_color s w RBRED = Some s1" "focus s1 (FR pc t p # k) (N RBRED wl w wr)"
    "keeps s s1" "nodes s1 RBNIL = nodes s RBNIL"
    by (rule focus_set_color [OF W])
  have "get_parent s1 (ptr_of t) = Some p"
    using dfocus_keep [OF D, of s1 "FL pc p (N RBRED wl w wr) # k"] s1(2,4)
    by (simp add: dfocus_def focus_up)
  then show ?thesis using focus_get [OF W] focus_children [OF W] c s1 P
    by (simp add: del_left_tail_def focus_up)
qed

lemma del_left_end:
  assumes D: "dfocus s (FL pc p (N wc wl w (N rc a r b)) # k) t"
  shows "\<exists>s'. do { p \<leftarrow> get_parent s (ptr_of t); pc \<leftarrow> get_color s p; s \<leftarrow> set_color s w pc;
            s \<leftarrow> set_color s p RBBLK; wr \<leftarrow> get_right s w; s \<leftarrow> set_color s wr RBBLK;
            s \<leftarrow> rotate_left s p; Some (s, troot s) } = Some (s', troot s')
     \<and> keeps s s' \<and> focus s' k (N pc (N RBBLK t p wl) w (N RBBLK a r b))"
proof -
  have W: "focus s (FR pc t p # k) (N wc wl w (N rc a r b))"
    and G: "focus s k (N pc t p (N wc wl w (N rc a r b)))"
    and P: "get_parent s (ptr_of t) = Some p"
    using D by (auto simp: dfocus_def focus_up)
  obtain s1 where s1: "set_color s w pc = Some s1" "keeps s s1"
    "focus s1 k (N pc t p (N pc wl w (N rc a r b)))"
    using focus_set_color [OF W] focus_up(2) by metis
  obtain s2 where s2: "set_color s1 p RBBLK = Some s2" "keeps s1 s2"
    "focus s2 k (N RBBLK t p (N pc wl w (N rc a r b)))"
    using focus_set_color [OF s1(3)] by metis
  then have W2: "focus s2 (FR RBBLK t p # k) (N pc wl w (N rc a r b))"
    and R2: "focus s2 (FR pc wl w # FR RBBLK t p # k) (N rc a r b)"
    by (simp_all add: focus_up)
  obtain s3 where s3: "set_color s2 r RBBLK = Some s3" "keeps s2 s3"
    "focus s3 k (N RBBLK t p (N pc wl w (N RBBLK a r b)))"
    using focus_set_color [OF R2] focus_up(2) by metis
  obtain s4 where "rotate_left s3 p = Some s4" "keeps s3 s4"
    "focus s4 k (N pc (N RBBLK t p wl) w (N RBBLK a r b))"
    using rotate_left_focus [OF s3(3)] by metis
  then show ?thesis using P focus_get [OF G] focus_get [OF W2] s1(1,2) s2(1,2) s3(1,2)
    by (auto intro: keeps_trans)
qed

lemma del_left_outer:
  assumes D: "dfocus s (FL pc p (N RBBLK wl w (N RBRED a r b)) # k) t"
  shows "\<exists>s'. del_left_tail s (ptr_of t) w = Some (s', troot s') \<and> keeps s s'
     \<and> focus s' k (N pc (N RBBLK t p wl) w (N RBBLK a r b))"
proof -
  have W: "focus s (FR pc t p # k) (N RBBLK wl w (N RBRED a r b))"
    using D by (auto simp: dfocus_def focus_up)
  show ?thesis using del_left_end [OF D] focus_get [OF W] focus_children [OF W]
    by (simp add: del_left_tail_def)
qed

lemma del_left_inner:
  assumes D: "dfocus s (FL pc p (N RBBLK (N RBRED a b c) w wr) # k) t" and "tcol wr = RBBLK"
  shows "\<exists>s'. del_left_tail s (ptr_of t) w = Some (s', troot s') \<and> keeps s s'
     \<and> focus s' k (N pc (N RBBLK t p a) b (N RBBLK c w wr))"
proof -
  have W: "focus s (FR pc t p # k) (N RBBLK (N RBRED a b c) w wr)"
    and B: "focus s (FL RBBLK w wr # FR pc t p # k) (N RBRED a b c)"
    using D by (auto simp: dfocus_def focus_up)
  obtain s1 where s1: "set_color s b RBBLK = Some s1" "keeps s s1" "nodes s1 RBNIL = nodes s RBNIL"
    "focus s1 (FR pc t p # k) (N RBBLK (N RBBLK a b c) w wr)"
    using focus_set_color [OF B] focus_up(1) by metis
  obtain s2 where s2: "set_color s1 w RBRED = Some s2" "keeps s1 s2" "nodes s2 RBNIL = nodes s1 RBNIL"
    "focus s2 (FR pc t p # k) (N RBRED (N RBBLK a b c) w wr)"
    using focus_set_color [OF s1(4)] by metis
  obtain s3 where s3: "rotate_right s2 w = Some s3" "keeps s2 s3" "nodes s3 RBNIL = nodes s2 RBNIL"
    "focus s3 (FR pc t p # k) (N RBBLK a b (N RBRED c w wr))"
    using rotate_right_focus [OF s2(4)] by metis
  have D3: "dfocus s3 (FL pc p (N RBBLK a b (N RBRED c w wr)) # k) t"
    by (rule dfocus_keep [OF D]) (use s1(3) s2(3) s3(3,4) in \<open>simp_all add: focus_up\<close>)
  then have "get_parent s3 (ptr_of t) = Some p" "get_right s3 p = Some b"
    using focus_get [of s3 k pc] by (auto simp: dfocus_def focus_up)
  then show ?thesis
    using del_left_end [OF D3] focus_get [OF W] focus_children [OF W] assms(2) s1(1,2) s2(1,2) s3(1,2)
    by (auto simp: del_left_tail_def intro: keeps_trans)
qed

lemma del_right_recolor:
  assumes D: "dfocus s (FR pc (N RBBLK wr w wl) p # k) t" and c: "tcol wl = RBBLK" "tcol wr = RBBLK"
  shows "\<exists>s'. del_right_tail s (ptr_of t) w = Some (s', p) \<and> keeps s s'
     \<and> focus s' k (N pc (N RBRED wr w wl) p t)"
proof -
  have W: "focus s (FL pc p t # k) (N RBBLK wr w wl)"
    and P: "get_parent s (ptr_of t) = Some p"
    using D by (auto simp: dfocus_def focus_up)
  obtain s1 where s1: "set_color s w RBRED = Some s1" "focus s1 (FL pc p t # k) (N RBRED wr w wl)"
    "keeps s s1" "nodes s1 RBNIL = nodes s RBNIL"
    by (rule focus_set_color [OF W])
  have "get_parent s1 (ptr_of t) = Some p"
    using dfocus_keep [OF D, of s1 "FR pc (N RBRED wr w wl) p # k"] s1(2,4)
    by (simp add: dfocus_def focus_up)
  then show ?thesis using focus_get [OF W] focus_children [OF W] c s1 P
    by (simp add: del_right_tail_def focus_up)
qed

lemma del_right_end:
  assumes D: "dfocus s (FR pc (N wc (N rc b r a) w wl) p # k) t"
  shows "\<exists>s'. do { p \<leftarrow> get_parent s (ptr_of t); pc \<leftarrow> get_color s p; s \<leftarrow> set_color s w pc;
            s \<leftarrow> set_color s p RBBLK; wr \<leftarrow> get_left s w; s \<leftarrow> set_color s wr RBBLK;
            s \<leftarrow> rotate_right s p; Some (s, troot s) } = Some (s', troot s')
     \<and> keeps s s' \<and> focus s' k (N pc (N RBBLK b r a) w (N RBBLK wl p t))"
proof -
  have W: "focus s (FL pc p t # k) (N wc (N rc b r a) w wl)"
    and G: "focus s k (N pc (N wc (N rc b r a) w wl) p t)"
    and P: "get_parent s (ptr_of t) = Some p"
    using D by (auto simp: dfocus_def focus_up)
  obtain s1 where s1: "set_color s w pc = Some s1" "keeps s s1"
    "focus s1 k (N pc (N pc (N rc b r a) w wl) p t)"
    using focus_set_color [OF W] focus_up(1) by metis
  obtain s2 where s2: "set_color s1 p RBBLK = Some s2" "keeps s1 s2"
    "focus s2 k (N RBBLK (N pc (N rc b r a) w wl) p t)"
    using focus_set_color [OF s1(3)] by metis
  then have W2: "focus s2 (FL RBBLK p t # k) (N pc (N rc b r a) w wl)"
    and R2: "focus s2 (FL pc w wl # FL RBBLK p t # k) (N rc b r a)"
    by (simp_all add: focus_up)
  obtain s3 where s3: "set_color s2 r RBBLK = Some s3" "keeps s2 s3"
    "focus s3 k (N RBBLK (N pc (N RBBLK b r a) w wl) p t)"
    using focus_set_color [OF R2] focus_up(1) by metis
  obtain s4 where "rotate_right s3 p = Some s4" "keeps s3 s4"
    "focus s4 k (N pc (N RBBLK b r a) w (N RBBLK wl p t))"
    using rotate_right_focus [OF s3(3)] by metis
  then show ?thesis using P focus_get [OF G] focus_get [OF W2] s1(1,2) s2(1,2) s3(1,2)
    by (auto intro: keeps_trans)
qed

lemma del_right_outer:
  assumes D: "dfocus s (FR pc (N RBBLK (N RBRED b r a) w wl) p # k) t"
  shows "\<exists>s'. del_right_tail s (ptr_of t) w = Some (s', troot s') \<and> keeps s s'
     \<and> focus s' k (N pc (N RBBLK b r a) w (N RBBLK wl p t))"
proof -
  have W: "focus s (FL pc p t # k) (N RBBLK (N RBRED b r a) w wl)"
    using D by (auto simp: dfocus_def focus_up)
  show ?thesis using del_right_end [OF D] focus_get [OF W] focus_children [OF W]
    by (simp add: del_right_tail_def)
qed

lemma del_right_inner:
  assumes D: "dfocus s (FR pc (N RBBLK wr w (N RBRED c b a)) p # k) t" and "tcol wr = RBBLK"
  shows "\<exists>s'. del_right_tail s (ptr_of t) w = Some (s', troot s') \<and> keeps s s'
     \<and> focus s' k (N pc (N RBBLK wr w c) b (N RBBLK a p t))"
proof -
  have W: "focus s (FL pc p t # k) (N RBBLK wr w (N RBRED c b a))"
    and B: "focus s (FR RBBLK wr w # FL pc p t # k) (N RBRED c b a)"
    using D by (auto simp: dfocus_def focus_up)
  obtain s1 where s1: "set_color s b RBBLK = Some s1" "keeps s s1" "nodes s1 RBNIL = nodes s RBNIL"
    "focus s1 (FL pc p t # k) (N RBBLK wr w (N RBBLK c b a))"
    using focus_set_color [OF B] focus_up(2) by metis
  obtain s2 where s2: "set_color s1 w RBRED = Some s2" "keeps s1 s2" "nodes s2 RBNIL = nodes s1 RBNIL"
    "focus s2 (FL pc p t # k) (N RBRED wr w (N RBBLK c b a))"
    using focus_set_color [OF s1(4)] by metis
  obtain s3 where s3: "rotate_left s2 w = Some s3" "keeps s2 s3" "nodes s3 RBNIL = nodes s2 RBNIL"
    "focus s3 (FL pc p t # k) (N RBBLK (N RBRED wr w c) b a)"
    using rotate_left_focus [OF s2(4)] by metis
  have D3: "dfocus s3 (FR pc (N RBBLK (N RBRED wr w c) b a) p # k) t"
    by (rule dfocus_keep [OF D]) (use s1(3) s2(3) s3(3,4) in \<open>simp_all add: focus_up\<close>)
  then have "get_parent s3 (ptr_of t) = Some p" "get_left s3 p = Some b"
    using focus_get [of s3 k pc] by (auto simp: dfocus_def focus_up)
  then show ?thesis
    using del_right_end [OF D3] focus_get [OF W] focus_children [OF W] assms(2) s1(1,2) s2(1,2) s3(1,2)
    by (auto simp: del_right_tail_def intro: keeps_trans)
qed

lemma step_left_black:
  assumes "dfocus s (FL pc p (N RBBLK wl w wr) # k) t"
  shows "delete_fixup_step s (ptr_of t) = del_left_tail s (ptr_of t) w"
proof -
  have G: "focus s k (N pc t p (N RBBLK wl w wr))" and "ptr_of t \<noteq> w"
    and P: "get_parent s (ptr_of t) = Some p"
    using assms ptr_of_other(1) [of s pc] by (fastforce simp: dfocus_def focus_up)+
  then show ?thesis using focus_get [OF G] focus_children [OF G]
    by (simp add: delete_fixup_step_def del_left_tail_def)
qed

lemma step_left_red:
  assumes D: "dfocus s (FL pc p (N RBRED (N d a v b) w wr) # k) t"
  shows "\<exists>s'. delete_fixup_step s (ptr_of t) = del_left_tail s' (ptr_of t) v \<and> keeps s s'
     \<and> dfocus s' (FL RBRED p (N d a v b) # FL RBBLK w wr # k) t"
proof -
  have G: "focus s k (N pc t p (N RBRED (N d a v b) w wr))" and ne: "ptr_of t \<noteq> w"
    and W: "focus s (FR pc t p # k) (N RBRED (N d a v b) w wr)"
    and P: "get_parent s (ptr_of t) = Some p"
    using D ptr_of_other(1) [of s pc] by (fastforce simp: dfocus_def focus_up)+
  obtain s1 where s1: "set_color s w RBBLK = Some s1" "keeps s s1" "nodes s1 RBNIL = nodes s RBNIL"
    "focus s1 k (N pc t p (N RBBLK (N d a v b) w wr))"
    using focus_set_color [OF W] focus_up(2) by metis
  obtain s2 where s2: "set_color s1 p RBRED = Some s2" "keeps s1 s2" "nodes s2 RBNIL = nodes s1 RBNIL"
    "focus s2 k (N RBRED t p (N RBBLK (N d a v b) w wr))"
    using focus_set_color [OF s1(4)] by metis
  obtain s3 where s3: "rotate_left s2 p = Some s3" "keeps s2 s3" "nodes s3 RBNIL = nodes s2 RBNIL"
    "focus s3 k (N RBBLK (N RBRED t p (N d a v b)) w wr)"
    using rotate_left_focus [OF s2(4)] by metis
  have D3: "dfocus s3 (FL RBRED p (N d a v b) # FL RBBLK w wr # k) t"
    by (rule dfocus_keep [OF D]) (use s1(3) s2(3) s3(3,4) in \<open>simp_all add: focus_up\<close>)
  then have "get_parent s3 (ptr_of t) = Some p" "get_right s3 p = Some v"
    using focus_get [of s3 "FL RBBLK w wr # k" RBRED] by (auto simp: dfocus_def focus_up)
  then have "delete_fixup_step s (ptr_of t) = del_left_tail s3 (ptr_of t) v"
    using focus_get [OF G] focus_children [OF G] P ne s1(1) s2(1) s3(1)
    by (simp add: delete_fixup_step_def del_left_tail_def)
  then show ?thesis using D3 s1(2) s2(2) s3(2) by (blast intro: keeps_trans)
qed

lemma step_right_black:
  assumes "dfocus s (FR pc (N RBBLK wr w wl) p # k) t"
  shows "delete_fixup_step s (ptr_of t) = del_right_tail s (ptr_of t) w"
proof -
  have G: "focus s k (N pc (N RBBLK wr w wl) p t)" and "ptr_of t \<noteq> w"
    and P: "get_parent s (ptr_of t) = Some p"
    using assms ptr_of_other(2) [of s pc] by (fastforce simp: dfocus_def focus_up)+
  then show ?thesis using focus_get [OF G] focus_children [OF G]
    by (simp add: delete_fixup_step_def del_right_tail_def)
qed

lemma step_right_red:
  assumes D: "dfocus s (FR pc (N RBRED wr w (N d b v a)) p # k) t"
  shows "\<exists>s'. delete_fixup_step s (ptr_of t) = del_right_tail s' (ptr_of t) v \<and> keeps s s'
     \<and> dfocus s' (FR RBRED (N d b v a) p # FR RBBLK wr w # k) t"
proof -
  have G: "focus s k (N pc (N RBRED wr w (N d b v a)) p t)" and ne: "ptr_of t \<noteq> w"
    and W: "focus s (FL pc p t # k) (N RBRED wr w (N d b v a))"
    and P: "get_parent s (ptr_of t) = Some p"
    using D ptr_of_other(2) [of s pc] by (fastforce simp: dfocus_def focus_up)+
  obtain s1 where s1: "set_color s w RBBLK = Some s1" "keeps s s1" "nodes s1 RBNIL = nodes s RBNIL"
    "focus s1 k (N pc (N RBBLK wr w (N d b v a)) p t)"
    using focus_set_color [OF W] focus_up(1) by metis
  obtain s2 where s2: "set_color s1 p RBRED = Some s2" "keeps s1 s2" "nodes s2 RBNIL = nodes s1 RBNIL"
    "focus s2 k (N RBRED (N RBBLK wr w (N d b v a)) p t)"
    using focus_set_color [OF s1(4)] by metis
  obtain s3 where s3: "rotate_right s2 p = Some s3" "keeps s2 s3" "nodes s3 RBNIL = nodes s2 RBNIL"
    "focus s3 k (N RBBLK wr w (N RBRED (N d b v a) p t))"
    using rotate_right_focus [OF s2(4)] by metis
  have D3: "dfocus s3 (FR RBRED (N d b v a) p # FR RBBLK wr w # k) t"
    by (rule dfocus_keep [OF D]) (use s1(3) s2(3) s3(3,4) in \<open>simp_all add: focus_up\<close>)
  then have "get_parent s3 (ptr_of t) = Some p" "get_left s3 p = Some v"
    using focus_get [of s3 "FR RBBLK wr w # k" RBRED] by (auto simp: dfocus_def focus_up)
  then have "delete_fixup_step s (ptr_of t) = del_right_tail s3 (ptr_of t) v"
    using focus_get [OF G] focus_children [OF G] P ne s1(1) s2(1) s3(1)
    by (simp add: delete_fixup_step_def del_right_tail_def)
  then show ?thesis using D3 s1(2) s2(2) s3(2) by (blast intro: keeps_trans)
qed

section \<open>The loop\<close>

text \<open>
  A subtree one black node short: once its root is black it has black height \<open>Suc n\<close> if the root
  was red, and \<open>n\<close> if not.
\<close>

definition short_ok :: "nat \<Rightarrow> ptree \<Rightarrow> bool" where
  "short_ok n t \<longleftrightarrow> (if tcol t = RBRED then rb_ok (Suc n) (blacken t) else rb_ok n t)"

text \<open>
  The outcomes of a round on the subtree \<open>t\<close> under the frames \<open>k\<close>: it is over, the whole tree being
  balanced, or it goes on with the parent, which is red or has the frames \<open>tl k\<close> above it.
\<close>

definition round_over :: "'p rb \<Rightarrow> addr \<Rightarrow> addr list \<Rightarrow> bool" where
  "round_over s x xs \<longleftrightarrow>
     (\<exists>s' t'. delete_fixup_step s x = Some (s', troot s') \<and> keeps s s' \<and> rep s' t' \<and> t' \<noteq> E
        \<and> balanced t' \<and> inord t' = xs)"

definition round_up :: "'p rb \<Rightarrow> addr \<Rightarrow> addr list \<Rightarrow> ctx \<Rightarrow> bool" where
  "round_up s x xs k \<longleftrightarrow>
     (\<exists>s' k' t' m. delete_fixup_step s x = Some (s', ptr_of t') \<and> keeps s s' \<and> dfocus s' k' t'
        \<and> short_ok m t' \<and> ctx_ok (Suc m) k' \<and> inord (fill k' t') = xs \<and> (k' = k \<or> tcol t' = RBRED))"

lemma rb_ok_Suc_black:
  assumes "rb_ok (Suc n) t" "tcol t = RBBLK"
  obtains l a r where "t = N RBBLK l a r" "rb_ok n l" "rb_ok n r"
  using assms by (cases "(Suc n, t)" rule: rb_ok.cases) auto

lemma rb_ok_cases:
  assumes "rb_ok (Suc n) t"
  obtains (black) l a r where "t = N RBBLK l a r" "rb_ok n l" "rb_ok n r"
  | (red) l a r where "t = N RBRED l a r" "rb_ok (Suc n) l" "rb_ok (Suc n) r"
      "tcol l = RBBLK" "tcol r = RBBLK"
  using assms by (cases "(Suc n, t)" rule: rb_ok.cases) auto

lemma tcol_red:
  assumes "tcol t = RBRED"
  obtains l a r where "t = N RBRED l a r"
  using assms by (cases t) auto

text \<open>A round with a black sibling, on the left.\<close>

lemma del_left_black:
  assumes D: "dfocus s (FL pc p (N RBBLK wl w wr) # k) t"
    and ok: "rb_ok n t" "rb_ok n wl" "rb_ok n wr" "tcol t = RBBLK"
      "ctx_ok (if pc = RBBLK then Suc (Suc n) else Suc n) k" "pc = RBBLK \<or> black_above k"
    and eq: "delete_fixup_step s0 (ptr_of t) = del_left_tail s (ptr_of t) w" "keeps s0 s"
    and xs: "xs = inord (fill (FL pc p (N RBBLK wl w wr) # k) t)"
    and k0: "k0 = k \<or> pc = RBRED"
  shows "round_over s0 (ptr_of t) xs \<or> round_up s0 (ptr_of t) xs k0"
proof -
  have over: "round_over s0 (ptr_of t) xs"
    if "del_left_tail s (ptr_of t) w = Some (s', troot s')" "keeps s s'" "focus s' k t'"
      "rb_ok (if pc = RBBLK then Suc (Suc n) else Suc n) t'" "tcol t' = pc" "t' \<noteq> E"
      "inord (fill k t') = xs" for s' t'
    using that eq balanced_fill [of _ k t'] ok(5,6) fill_not_E [of t' k] rep_fill [of s' k t']
    unfolding round_over_def by (metis keeps_trans)
  show ?thesis
  proof (cases "tcol wr")
    case RBRED
    then obtain a r b where wr: "wr = (N RBRED a r b)" by (rule tcol_red)
    obtain s' where s': "del_left_tail s (ptr_of t) w = Some (s', troot s')" "keeps s s'"
      "focus s' k (N pc (N RBBLK t p wl) w (N RBBLK a r b))"
      using del_left_outer D unfolding wr by blast
    have "round_over s0 (ptr_of t) xs"
      by (rule over [OF s']) (use ok xs wr in \<open>cases pc; simp add: inord_fill\<close>)+
    then show ?thesis by blast
  next
    case wr: RBBLK
    show ?thesis
    proof (cases "tcol wl")
      case RBRED
      then obtain a b c where wl: "wl = (N RBRED a b c)" by (rule tcol_red)
      obtain s' where s': "del_left_tail s (ptr_of t) w = Some (s', troot s')" "keeps s s'"
        "focus s' k (N pc (N RBBLK t p a) b (N RBBLK c w wr))"
        using del_left_inner D wr unfolding wl by blast
      have "round_over s0 (ptr_of t) xs"
        by (rule over [OF s']) (use ok xs wl in \<open>cases pc; simp add: inord_fill\<close>)+
      then show ?thesis by blast
    next
      case wl: RBBLK
      obtain s' where s': "del_left_tail s (ptr_of t) w = Some (s', p)" "keeps s s'"
        "focus s' k (N pc t p (N RBRED wl w wr))"
        using del_left_recolor [OF D wl wr] by blast
      have "round_up s0 (ptr_of t) xs k0" unfolding round_up_def
        by (rule exI [of _ s'], rule exI [of _ k], rule exI [of _ "(N pc t p (N RBRED wl w wr))"],
            rule exI [of _ "if pc = RBBLK then Suc n else n"])
          (use s' eq ok wl wr xs k0 in
            \<open>cases pc; auto simp: dfocus_node short_ok_def inord_fill intro: keeps_trans\<close>)
      then show ?thesis by blast
    qed
  qed
qed

lemma delete_round_left:
  assumes D: "dfocus s (FL pc p w # k) t" and "rb_ok n t" "tcol t = RBBLK"
    and ok: "ctx_ok (Suc n) (FL pc p w # k)"
  shows "round_over s (ptr_of t) (inord (fill (FL pc p w # k) t))
    \<or> round_up s (ptr_of t) (inord (fill (FL pc p w # k) t)) k"
proof -
  have "rb_ok (Suc n) w" using ok by simp
  then show ?thesis
  proof (cases rule: rb_ok_cases)
    case (black l a r)
    show ?thesis unfolding black(1)
      by (rule del_left_black [OF D [unfolded black(1)] assms(2)])
        (use step_left_black [OF D [unfolded black(1)]] assms black in \<open>auto split: if_splits\<close>)
  next
    case (red l a r)
    obtain wl wr where "w = (N RBRED wl a wr)" "rb_ok (Suc n) wl" "tcol wl = RBBLK" "rb_ok (Suc n) wr"
      using red by blast
    moreover from this obtain b v c where "wl = (N RBBLK b v c)" "rb_ok n b" "rb_ok n c"
      using rb_ok_Suc_black by metis
    ultimately have w: "w = (N RBRED (N RBBLK b v c) a wr)" "rb_ok n b" "rb_ok n c" "rb_ok (Suc n) wr"
      by auto
    have pc: "pc = RBBLK" using ok w by (cases pc) auto
    obtain s' where s': "delete_fixup_step s (ptr_of t) = del_left_tail s' (ptr_of t) v" "keeps s s'"
      "dfocus s' (FL RBRED p (N RBBLK b v c) # FL RBBLK a wr # k) t"
      using step_left_red D unfolding w(1) by blast
    show ?thesis
      by (rule del_left_black [OF s'(3) assms(2) w(2,3) assms(3) _ _ s'(1,2)])
        (use w pc ok in \<open>simp_all add: inord_fill\<close>)
  qed
qed

text \<open>A round with a black sibling, on the right.\<close>

lemma del_right_black:
  assumes D: "dfocus s (FR pc (N RBBLK wr w wl) p # k) t"
    and ok: "rb_ok n t" "rb_ok n wl" "rb_ok n wr" "tcol t = RBBLK"
      "ctx_ok (if pc = RBBLK then Suc (Suc n) else Suc n) k" "pc = RBBLK \<or> black_above k"
    and eq: "delete_fixup_step s0 (ptr_of t) = del_right_tail s (ptr_of t) w" "keeps s0 s"
    and xs: "xs = inord (fill (FR pc (N RBBLK wr w wl) p # k) t)"
    and k0: "k0 = k \<or> pc = RBRED"
  shows "round_over s0 (ptr_of t) xs \<or> round_up s0 (ptr_of t) xs k0"
proof -
  have over: "round_over s0 (ptr_of t) xs"
    if "del_right_tail s (ptr_of t) w = Some (s', troot s')" "keeps s s'" "focus s' k t'"
      "rb_ok (if pc = RBBLK then Suc (Suc n) else Suc n) t'" "tcol t' = pc" "t' \<noteq> E"
      "inord (fill k t') = xs" for s' t'
    using that eq balanced_fill [of _ k t'] ok(5,6) fill_not_E [of t' k] rep_fill [of s' k t']
    unfolding round_over_def by (metis keeps_trans)
  show ?thesis
  proof (cases "tcol wr")
    case RBRED
    then obtain a r b where wr: "wr = (N RBRED b r a)" by (rule tcol_red)
    obtain s' where s': "del_right_tail s (ptr_of t) w = Some (s', troot s')" "keeps s s'"
      "focus s' k (N pc (N RBBLK b r a) w (N RBBLK wl p t))"
      using del_right_outer D unfolding wr by blast
    have "round_over s0 (ptr_of t) xs"
      by (rule over [OF s']) (use ok xs wr in \<open>cases pc; simp add: inord_fill\<close>)+
    then show ?thesis by blast
  next
    case wr: RBBLK
    show ?thesis
    proof (cases "tcol wl")
      case RBRED
      then obtain a b c where wl: "wl = (N RBRED c b a)" by (rule tcol_red)
      obtain s' where s': "del_right_tail s (ptr_of t) w = Some (s', troot s')" "keeps s s'"
        "focus s' k (N pc (N RBBLK wr w c) b (N RBBLK a p t))"
        using del_right_inner D wr unfolding wl by blast
      have "round_over s0 (ptr_of t) xs"
        by (rule over [OF s']) (use ok xs wl in \<open>cases pc; simp add: inord_fill\<close>)+
      then show ?thesis by blast
    next
      case wl: RBBLK
      obtain s' where s': "del_right_tail s (ptr_of t) w = Some (s', p)" "keeps s s'"
        "focus s' k (N pc (N RBRED wr w wl) p t)"
        using del_right_recolor [OF D wl wr] by blast
      have "round_up s0 (ptr_of t) xs k0" unfolding round_up_def
        by (rule exI [of _ s'], rule exI [of _ k], rule exI [of _ "(N pc (N RBRED wr w wl) p t)"],
            rule exI [of _ "if pc = RBBLK then Suc n else n"])
          (use s' eq ok wl wr xs k0 in
            \<open>cases pc; auto simp: dfocus_node short_ok_def inord_fill intro: keeps_trans\<close>)
      then show ?thesis by blast
    qed
  qed
qed

lemma delete_round_right:
  assumes D: "dfocus s (FR pc w p # k) t" and "rb_ok n t" "tcol t = RBBLK"
    and ok: "ctx_ok (Suc n) (FR pc w p # k)"
  shows "round_over s (ptr_of t) (inord (fill (FR pc w p # k) t))
    \<or> round_up s (ptr_of t) (inord (fill (FR pc w p # k) t)) k"
proof -
  have "rb_ok (Suc n) w" using ok by simp
  then show ?thesis
  proof (cases rule: rb_ok_cases)
    case (black l a r)
    show ?thesis unfolding black(1)
      by (rule del_right_black [OF D [unfolded black(1)] assms(2)])
        (use step_right_black [OF D [unfolded black(1)]] assms black in \<open>auto split: if_splits\<close>)
  next
    case (red l a r)
    obtain wl wr where "w = (N RBRED wr a wl)" "rb_ok (Suc n) wl" "tcol wl = RBBLK" "rb_ok (Suc n) wr"
      using red by blast
    moreover from this obtain b v c where "wl = (N RBBLK c v b)" "rb_ok n b" "rb_ok n c"
      using rb_ok_Suc_black by metis
    ultimately have w: "w = (N RBRED wr a (N RBBLK c v b))" "rb_ok n b" "rb_ok n c" "rb_ok (Suc n) wr"
      by auto
    have pc: "pc = RBBLK" using ok w by (cases pc) auto
    obtain s' where s': "delete_fixup_step s (ptr_of t) = del_right_tail s' (ptr_of t) v" "keeps s s'"
      "dfocus s' (FR RBRED (N RBBLK c v b) p # FR RBBLK wr a # k) t"
      using step_right_red D unfolding w(1) by blast
    show ?thesis
      by (rule del_right_black [OF s'(3) assms(2) w(2,3) assms(3) _ _ s'(1,2)])
        (use w pc ok in \<open>simp_all add: inord_fill\<close>)
  qed
qed

lemma delete_round:
  assumes "dfocus s (f # k) t" "rb_ok n t" "tcol t = RBBLK" "ctx_ok (Suc n) (f # k)"
  shows "round_over s (ptr_of t) (inord (fill (f # k) t))
    \<or> round_up s (ptr_of t) (inord (fill (f # k) t)) k"
proof (cases f)
  case (FL pc p w)
  then show ?thesis using delete_round_left assms by blast
next
  case (FR pc w p)
  then show ?thesis using delete_round_right assms by blast
qed

lemma set_color_stop:
  assumes "focus s k t" "short_ok n t" "ctx_ok (Suc n) k" "k = [] \<or> tcol t = RBRED"
  shows "fixed_up s (inord (fill k t)) (set_color s (ptr_of t) RBBLK)"
proof (cases t)
  case E
  then obtain q where q: "nodes s RBNIL = Some (sentinel\<lparr>nparent := q\<rparr>)"
    using assms(1) by (auto simp: focus_def nil_ok_def)
  then have "(nodes s)(RBNIL \<mapsto> sentinel\<lparr>nparent := q, ncolor := RBBLK\<rparr>) = nodes s"
    by (intro fun_upd_idem) (simp add: sentinel_def)
  then have "set_color s RBNIL RBBLK = Some s" using field_eval(5) [OF q, of RBBLK] by simp
  moreover have "balanced E" by (auto simp: balanced_def)
  ultimately show ?thesis using E assms by (fastforce simp: fixed_up_def)
next
  case (N c l a r)
  obtain s' where s': "set_color s a RBBLK = Some s'" "focus s' k (N RBBLK l a r)" "keeps s s'"
    using focus_set_color assms(1) N by metis
  have "balanced (fill k (N RBBLK l a r))"
  proof (cases c)
    case RBRED
    then show ?thesis using assms N by (intro balanced_fill [of "Suc n"]) (auto simp: short_ok_def)
  next
    case RBBLK
    then have "k = []" "rb_ok n (N RBBLK l a r)" using assms N by (auto simp: short_ok_def)
    then show ?thesis by (auto simp: balanced_def)
  qed
  moreover have "inord (fill k (N RBBLK l a r)) = inord (fill k t)" using N by (simp add: inord_fill)
  ultimately show ?thesis using s' N rep_fill by (auto simp: fixed_up_def)
qed

lemma delete_fixup_over:
  assumes "rep s t" "t \<noteq> E" "balanced t"
  shows "fixed_up s (inord t) (delete_fixup s (troot s))"
proof -
  obtain n where "rb_ok n t" "tcol t = RBBLK" using assms(3) by (auto simp: balanced_def)
  then have "fixed_up s (inord (fill [] t)) (set_color s (ptr_of t) RBBLK)"
    using assms(1) by (intro set_color_stop [of s "[]" t n]) (auto simp: short_ok_def)
  then show ?thesis using troot_rep [OF assms(1)] by (simp add: delete_fixup.simps)
qed

lemma delete_fixup_ok:
  "dfocus s k t \<Longrightarrow> short_ok n t \<Longrightarrow> ctx_ok (Suc n) k \<Longrightarrow>
     fixed_up s (inord (fill k t)) (delete_fixup s (ptr_of t))"
proof (induction "length k" arbitrary: s k t n rule: less_induct)
  case less
  have F: "focus s k t" using less.prems by (simp add: dfocus_def)
  note stop = set_color_stop [OF F less.prems(2,3)]
  show ?case
  proof (cases "k = [] \<or> tcol t = RBRED")
    case True
    have "delete_fixup s (ptr_of t) = set_color s (ptr_of t) RBBLK"
    proof (cases "ptr_of t = troot s")
      case False
      then have "tcol t = RBRED" using True F by (auto simp: focus_def)
      then show ?thesis using focus_color [OF F] False by (simp add: delete_fixup.simps)
    qed (simp add: delete_fixup.simps)
    then show ?thesis using stop True by simp
  next
    case False
    then obtain f k' where k: "k = f # k'" and t: "tcol t = RBBLK" by (cases k) auto
    have n: "rb_ok n t" using less.prems(2) t by (simp add: short_ok_def)
    have "troot s \<in> set (cnodes k)" using F k croot_in [of k "ptr_of t"] by (auto simp: focus_def)
    then have root: "ptr_of t \<noteq> troot s" using F by (cases t) (auto simp: focus_def)
    have next_round: "fixed_up s xs (delete_fixup s (ptr_of t))"
      if "delete_fixup_step s (ptr_of t) = Some (s', x')" "keeps s s'"
        "fixed_up s' xs (delete_fixup s' x')" for s' x' xs
      using that root focus_color [OF F] t
      by (simp add: delete_fixup.simps [of s "ptr_of t"] fixed_up_keeps)
    from delete_round [OF less.prems(1) [unfolded k] n t less.prems(3) [unfolded k]]
    show ?thesis
    proof
      assume "round_over s (ptr_of t) (inord (fill (f # k') t))"
      then show ?thesis unfolding k round_over_def using next_round delete_fixup_over by metis
    next
      assume "round_up s (ptr_of t) (inord (fill (f # k') t)) k'"
      then obtain s' k2 t' m where r: "delete_fixup_step s (ptr_of t) = Some (s', ptr_of t')"
        "keeps s s'" "dfocus s' k2 t'" "short_ok m t'" "ctx_ok (Suc m) k2"
        "inord (fill k2 t') = inord (fill k t)" "k2 = k' \<or> tcol t' = RBRED"
        unfolding round_up_def k by blast
      have "fixed_up s' (inord (fill k2 t')) (delete_fixup s' (ptr_of t'))"
      proof (cases "tcol t' = RBRED")
        case True
        have F': "focus s' k2 t'" using r(3) by (simp add: dfocus_def)
        have "delete_fixup s' (ptr_of t') = set_color s' (ptr_of t') RBBLK"
          using focus_color [OF F'] True by (simp add: delete_fixup.simps)
        then show ?thesis using set_color_stop [OF F' r(4,5)] True by simp
      next
        case False
        then have "length k2 < length k" using r(7) k by simp
        then show ?thesis using less.hyps r(3-5) by blast
      qed
      then show ?thesis using next_round [OF r(1,2)] r(6) by simp
    qed
  qed
qed

section \<open>\<open>rbtree_delete\<close>\<close>

text \<open>Taking the node \<open>y\<close> with at most one child out of the tree.\<close>

fun only_child :: "ptree \<Rightarrow> ptree" where
  "only_child E = E"
| "only_child (N c E a r) = r"
| "only_child (N c l a r) = l"

definition unlink_node :: "'p rb \<Rightarrow> addr \<Rightarrow> addr \<Rightarrow> 'p rb option" where
  "unlink_node s y x =
     do { yp \<leftarrow> get_parent s y;
          s \<leftarrow> set_parent s x yp;
          yp \<leftarrow> get_parent s y;
          if yp \<noteq> NULL
          then do { l \<leftarrow> get_left s yp;
                    if y = l then set_left s yp x else set_right s yp x }
          else Some (s\<lparr>troot := x\<rparr>) }"

lemmas unlink_node_simps = unlink_node_def field_eval dfocus_def focus_def nil_ok_def keeps_def

lemma unlink_node_right:
  assumes "focus s k (N c E y r)"
  shows "\<exists>s'. unlink_node s y (ptr_of r) = Some s' \<and> keeps s s' \<and> dfocus s' k r \<and> get_color s' y = Some c"
proof (cases r)
  case E
  then show ?thesis using assms by (cases k rule: cpar.cases) (auto simp: unlink_node_simps)
next
  case (N d a b e)
  then show ?thesis using assms by (cases k rule: cpar.cases) (auto simp: unlink_node_simps)
qed

lemma unlink_node_left:
  assumes "focus s k (N c l y E)"
  shows "\<exists>s'. unlink_node s y (ptr_of l) = Some s' \<and> keeps s s' \<and> dfocus s' k l \<and> get_color s' y = Some c"
proof (cases l)
  case E
  then show ?thesis using assms unlink_node_right by metis
next
  case (N d a b e)
  then show ?thesis using assms by (cases k rule: cpar.cases) (auto simp: unlink_node_simps)
qed

lemma unlink_node_ok:
  assumes "focus s k (N c l y r)" "l = E \<or> r = E" "t = only_child (N c l y r)"
  shows "\<exists>s'. unlink_node s y (ptr_of t) = Some s' \<and> keeps s s' \<and> dfocus s' k t
     \<and> get_color s' y = Some c"
  using assms unlink_node_left [of s k c l y] unlink_node_right [of s k c y r] by (cases l) auto

text \<open>The successor of a node with two children: the leftmost node of its right subtree.\<close>

lemma leftmost_frames:
  "t \<noteq> E \<Longrightarrow> \<exists>k c y r. t = fill k (N c E y r) \<and> cpre k = []"
proof (induction t)
  case (N c l a r)
  show ?case
  proof (cases "l = E")
    case True
    then have "N c l a r = fill [] (N c E a r) \<and> cpre [] = []" by simp
    then show ?thesis by blast
  next
    case False
    then obtain k d y e where "l = fill k (N d E y e)" "cpre k = []" using N.IH(1) by blast
    then have "N c l a r = fill (k @ [FL c a r]) (N d E y e) \<and> cpre (k @ [FL c a r]) = []" by simp
    then show ?thesis by blast
  qed
qed simp

text \<open>
  Which node is taken out: \<open>z\<close> itself, or with two children its successor \<open>y\<close>, the next node in
  order.
\<close>

definition two_children :: "'p rb \<Rightarrow> addr \<Rightarrow> bool" where
  "two_children s z \<longleftrightarrow> get_left s z \<noteq> Some RBNIL \<and> get_right s z \<noteq> Some RBNIL"

definition victim :: "'p rb \<Rightarrow> addr \<Rightarrow> addr option" where
  "victim s z =
     do { zl \<leftarrow> get_left s z; zr \<leftarrow> get_right s z;
          if zl = RBNIL \<or> zr = RBNIL then Some z else left_end s zr }"

lemma victim_ok:
  assumes R: "rep s t" and z: "z \<in> set (inord t)"
  obtains k c l y r where "victim s z = Some y" "t = fill k (N c l y r)" "l = E \<or> r = E"
    "if two_children s z then \<exists>ys. cpre k = ys @ [z] \<and> l = E else y = z"
proof -
  obtain k c l r where t: "t = fill k (N c l z r)" using fill_find [OF z] by blast
  have F: "focus s k (N c l z r)" using R t rep_fill by metis
  have L: "focus s (FL c z r # k) l" and Rt: "focus s (FR c l z # k) r" using F by (simp_all add: focus_up)
  note get = focus_get [OF F] and nil = ptr_of_nil [OF L] ptr_of_nil [OF Rt]
  show thesis
  proof (cases "l = E \<or> r = E")
    case True
    then show thesis using that [of z k c l r] t get nil
      by (auto simp: victim_def two_children_def simp del: One_nat_def)
  next
    case False
    then obtain k' d y e where y: "r = fill k' (N d E y e)" "cpre k' = []"
      using leftmost_frames by blast
    have "victim s z = Some y"
      using False get nil left_end_ok [OF Rt] y by (simp add: victim_def inord_fill del: One_nat_def)
    moreover have "t = fill (k' @ FR c l z # k) (N d E y e)" using t y by simp
    ultimately show thesis
      using that [of y "k' @ FR c l z # k" d E e] y(2) False get nil
      by (auto simp: two_children_def simp del: One_nat_def)
  qed
qed

lemma rbtree_delete_eq:
  "rbtree_delete s z =
     do { y \<leftarrow> victim s z;
          yl \<leftarrow> get_left s y;
          x \<leftarrow> (if yl \<noteq> RBNIL then Some yl else get_right s y);
          s \<leftarrow> unlink_node s y x;
          s \<leftarrow> (if y \<noteq> z then copy_pay s z y else Some s);
          yc \<leftarrow> get_color s y;
          if yc = RBBLK then delete_fixup s x else Some s }"
  unfolding rbtree_delete_def victim_def unlink_node_def by (simp cong: if_cong)

lemma focus_pay [simp]: "focus (s\<lparr>pay := f\<rparr>) k t = focus s k t" "dfocus (s\<lparr>pay := f\<rparr>) k t = dfocus s k t"
  by (auto simp: focus_def nil_ok_def dfocus_def get_parent_def)

lemma only_child_ok:
  assumes "rb_ok n (N c l y r)" "l = E \<or> r = E" "t = only_child (N c l y r)"
  shows "inord t = inord l @ inord r" "c = RBRED \<Longrightarrow> rb_ok n t \<and> tcol t = RBBLK"
    "c = RBBLK \<Longrightarrow> \<exists>m. n = Suc m \<and> short_ok m t"
proof -
  have t: "t = l \<and> r = E \<or> t = r \<and> l = E" using assms(2,3) by (cases l) auto
  have "rb_ok m u \<Longrightarrow> short_ok m u" for m u
    by (cases "(m, u)" rule: rb_ok.cases) (auto simp: short_ok_def)
  then show "c = RBBLK \<Longrightarrow> \<exists>m. n = Suc m \<and> short_ok m t"
    using assms(1) t by (cases n) auto
  show "inord t = inord l @ inord r" "c = RBRED \<Longrightarrow> rb_ok n t \<and> tcol t = RBBLK"
    using t assms(1) by auto
qed

lemma delete_at:
  assumes R: "rep s t" and B: "balanced t" and P: "pays s (inord t)" and z: "z \<in> set (inord t)"
    and y: "victim s z = Some y" "t = fill k (N c l y r)" "l = E \<or> r = E"
  obtains s' t' where "rbtree_delete s z = Some s'" "rep s' t'" "balanced t'"
    "inord t' = cpre k @ inord l @ inord r @ cpost k" "tcmp s' = tcmp s" "dom (nodes s') = dom (nodes s)"
    "pay s' = (if y \<noteq> z then (pay s)(z \<mapsto> val s y) else pay s)"
proof -
  let ?t = "only_child (N c l y r)" and ?p = "if y \<noteq> z then (pay s)(z \<mapsto> val s y) else pay s"
  have F: "focus s k (N c l y r)" using R y(2) rep_fill by metis
  obtain n where n: "ctx_ok n k" "rb_ok n (N c l y r)" "c = RBBLK \<or> black_above k"
    using B y(2) fill_balanced by (metis tcol.simps(2))
  note oc = only_child_ok [OF n(2) y(3) refl]
  obtain s1 where s1: "unlink_node s y (ptr_of ?t) = Some s1" "keeps s s1" "dfocus s1 k ?t" "get_color s1 y = Some c"
    using unlink_node_ok [OF F y(3) refl] by blast
  let ?s = "s1\<lparr>pay := ?p\<rparr>"
  have "pay s z = Some (val s z)" "pay s y = Some (val s y)"
    using P z y(2) by (auto simp: pays_def val_def set_fill)
  then have cp: "(if y \<noteq> z then copy_pay s1 z y else Some s1) = Some ?s" using s1(2)
    by (simp add: copy_pay_def keeps_def)
  have L: "focus s (FL c y r # k) l" using F by (simp add: focus_up)
  have x: "(if ptr_of l \<noteq> RBNIL then Some (ptr_of l) else get_right s y) = Some (ptr_of ?t)"
    using focus_get [OF F] y(3) ptr_of_nil [OF L] by (cases l) auto
  have "get_color ?s y = Some c" using s1(4) by (simp add: get_color_def)
  have eq: "rbtree_delete s z = (if c = RBBLK then delete_fixup ?s (ptr_of ?t) else Some ?s)"
    using y(1) focus_get(2) [OF F] x s1(1) cp \<open>get_color ?s y = Some c\<close>
    by (simp add: rbtree_delete_eq del: One_nat_def split del: if_split)
  have D: "dfocus ?s k ?t" using s1(3) by simp
  have "fixed_up ?s (inord (fill k ?t)) (rbtree_delete s z)"
  proof (cases c)
    case RBBLK
    then obtain m where "n = Suc m" "short_ok m ?t" using oc(3) by blast
    then show ?thesis using delete_fixup_ok [OF D] n(1) eq RBBLK by simp
  next
    case RBRED
    then have "balanced (fill k ?t)" using oc(2) n(1) by (intro balanced_fill) auto
    moreover have "rep ?s (fill k ?t)" using D by (simp add: rep_fill dfocus_def)
    ultimately show ?thesis using eq RBRED by (auto simp: fixed_up_def)
  qed
  then obtain s' t' where r: "rbtree_delete s z = Some s'" "keeps ?s s'" "rep s' t'" "balanced t'"
    "inord t' = inord (fill k ?t)" by (auto simp: fixed_up_def)
  show thesis
    by (rule that [OF r(1,3,4)]) (use r(2,5) s1(2) oc(1) in \<open>simp_all add: inord_fill keeps_def\<close>)
qed

lemma rbtree_delete_ok:
  assumes h: "holds s t" and z: "z \<in> set (inord t)"
  obtains s' t' xs ys where "rbtree_delete s z = Some s'" "holds s' t'" "tcmp s' = tcmp s"
    "dom (nodes s') = dom (nodes s)" "inord t = xs @ z # ys"
    "inord t' = (if two_children s z then xs @ z # tl ys else xs @ ys)"
    "two_children s z \<longrightarrow> ys \<noteq> []" "map (val s') (inord t') = map (val s) (xs @ ys)"
    "pay s' = (if two_children s z then (pay s)(z \<mapsto> val s (hd ys)) else pay s)"
proof -
  have R: "rep s t" and B: "balanced t" and P: "pays s (inord t)" using h by (auto simp: holds_def)
  have dist: "distinct (inord t)" using R by (simp add: focus_def)
  obtain k c l y r where y: "victim s z = Some y" "t = fill k (N c l y r)" "l = E \<or> r = E"
    and two: "if two_children s z then \<exists>ys. cpre k = ys @ [z] \<and> l = E else y = z"
    by (rule victim_ok [OF R z])
  have it: "inord t = cpre k @ inord l @ y # inord r @ cpost k" using y(2) by (simp add: inord_fill)
  obtain s' t' where r: "rbtree_delete s z = Some s'" "rep s' t'" "balanced t'"
    "inord t' = cpre k @ inord l @ inord r @ cpost k" "tcmp s' = tcmp s" "dom (nodes s') = dom (nodes s)"
    "pay s' = (if y \<noteq> z then (pay s)(z \<mapsto> val s y) else pay s)"
    by (rule delete_at [OF R B P z y])
  have hs: "holds s' t'" using r P by (auto simp: holds_def pays_def it)
  show thesis
  proof (cases "two_children s z")
    case False
    then have "y = z" using two by simp
    show thesis
      by (rule that [OF r(1) hs r(5,6), of "cpre k @ inord l" "inord r @ cpost k"])
        (use False \<open>y = z\<close> it r(4,7) in \<open>simp_all add: val_def\<close>)
  next
    case True
    then obtain xs where xs: "cpre k = xs @ [z]" "l = E" using two by auto
    have "y \<noteq> z" "z \<notin> set xs" "z \<notin> set (inord r @ cpost k)" using dist it xs by auto
    then have "map (val s') (inord t') = map (val s) (xs @ y # inord r @ cpost k)"
      using r(4,7) xs by (auto simp: val_def)
    then show thesis
      by (intro that [OF r(1) hs r(5,6), of xs "y # inord r @ cpost k"])
        (use True xs it r(4,7) \<open>y \<noteq> z\<close> in simp_all)
  qed
qed

section \<open>Deletion under an order\<close>

context keyed_cmp begin

lemma node_key_keeps: "pay s' = pay s \<Longrightarrow> node_key s' = node_key s"
  by (auto simp: node_key_def val_def)

theorem delete_ordered:
  assumes "ordered s t" "z \<in> set (inord t)"
  obtains s' t' xs ys where "rbtree_delete s z = Some s'" "ordered s' t'"
    "dom (nodes s') = dom (nodes s)" "inord t = xs @ z # ys"
    "inord t' = (if two_children s z then xs @ z # tl ys else xs @ ys)"
    "two_children s z \<longrightarrow> ys \<noteq> []" "map (val s') (inord t') = map (val s) (xs @ ys)"
    "pay s' = (if two_children s z then (pay s)(z \<mapsto> val s (hd ys)) else pay s)"
proof -
  have h: "holds s t" using assms(1) by (simp add: ordered_def)
  obtain s' t' xs ys where r: "rbtree_delete s z = Some s'" "holds s' t'" "tcmp s' = tcmp s"
    "dom (nodes s') = dom (nodes s)" "inord t = xs @ z # ys"
    "inord t' = (if two_children s z then xs @ z # tl ys else xs @ ys)"
    "two_children s z \<longrightarrow> ys \<noteq> []" "map (val s') (inord t') = map (val s) (xs @ ys)"
    "pay s' = (if two_children s z then (pay s)(z \<mapsto> val s (hd ys)) else pay s)"
    by (rule rbtree_delete_ok [OF h assms(2)])
  have "map (node_key s') (inord t') = map key (map (val s') (inord t'))" by (simp add: node_key_def)
  also have "\<dots> = map (node_key s) (xs @ ys)" unfolding r(8) by (simp add: node_key_def)
  finally have "sorted (map (node_key s') (inord t'))"
    using assms(1) r(5) by (auto simp: ordered_def sorted_append)
  then have "ordered s' t'" using assms(1) r(2,3) by (simp add: ordered_def)
  then show thesis using that r(1,4-) by blast
qed

end

end
