(* ===== verification/Cask_Event.thy ===== *)
theory Cask_Event
  imports Cask_RBTree_Delete
begin

text \<open>
  \<^verbatim>\<open>src/event.h\<close>, \<^verbatim>\<open>src/event.c\<close> and \<^verbatim>\<open>src/util.c\<close>: timers, descriptor events and the event loop.  An
  \<open>ebase\<close> is a \<^verbatim>\<open>struct event_base\<close> with the memory its objects live in: the timers (tree nodes and
  the objects behind them, in \<open>timers\<close>), the \<^verbatim>\<open>struct event\<close>s (\<open>evs\<close>), the interest list the kernel
  keeps for the epoll descriptor, the open descriptors and the readings of the clock still to come.
  The record is extensible: a program that embeds the loop adds its own state to it, and a callback
  is a step on the whole of it.  The results of \<^verbatim>\<open>epoll_create1\<close>, \<^verbatim>\<open>epoll_ctl\<close> and \<^verbatim>\<open>epoll_wait\<close> are
  arguments.
\<close>

section \<open>Data\<close>

record timer =
  trigger :: u64
  interval :: u32
  tflags :: u32
  tcb :: addr
  tdata :: addr

record event =
  evfd :: int
  events :: u32
  eflags :: u32
  ecb :: addr
  edata :: addr

record ebase =
  epollfd :: int
  timers :: "timer rb"
  evs :: "addr \<rightharpoonup> event"
  interest :: "int \<rightharpoonup> u32 \<times> addr"
  fds :: "int set"
  clock :: "nat \<Rightarrow> (u64 \<times> u64) option"
  ticks :: nat

definition EVENT_FLAG_ACTIVE :: u32 where "EVENT_FLAG_ACTIVE = 1"
definition TIMER_FLAG_ACTIVE :: u32 where "TIMER_FLAG_ACTIVE = 1"
definition TIMER_FLAG_ONESHOT :: u32 where "TIMER_FLAG_ONESHOT = 2"
definition MAX_IO_EVENTS :: nat where "MAX_IO_EVENTS = 64"
definition IO_TIMEOUT :: int where "IO_TIMEOUT = 10"

unbundle bit_operations_syntax

definition has_flag :: "u32 \<Rightarrow> u32 \<Rightarrow> bool" where
  "has_flag fl f \<longleftrightarrow> fl AND f \<noteq> 0"

definition make_event :: "int \<Rightarrow> u32 \<Rightarrow> addr \<Rightarrow> addr \<Rightarrow> event" where
  "make_event fd ev cb d = \<lparr>evfd = fd, events = ev, eflags = 0, ecb = cb, edata = d\<rparr>"

definition make_timer :: "u32 \<Rightarrow> u32 \<Rightarrow> addr \<Rightarrow> addr \<Rightarrow> timer" where
  "make_timer iv mode cb d = \<lparr>trigger = 0, interval = iv, tflags = mode, tcb = cb, tdata = d\<rparr>"

section \<open>The clock\<close>

text \<open>\<^verbatim>\<open>clock_gettime\<close> gives seconds and nanoseconds, or fails; the reading is in nanoseconds.\<close>

definition time_of :: "(u64 \<times> u64) option \<Rightarrow> u64" where
  "time_of ts = (case ts of None \<Rightarrow> 0 | Some (sec, nsec) \<Rightarrow> sec * 1000000000 + nsec)"

definition get_time :: "'a ebase_scheme \<Rightarrow> u64 \<times> 'a ebase_scheme" where
  "get_time b = (time_of (clock b (ticks b)), b\<lparr>ticks := Suc (ticks b)\<rparr>)"

section \<open>Timers\<close>

definition get_timer :: "'a ebase_scheme \<Rightarrow> addr \<Rightarrow> timer option" where
  "get_timer b t = pay (timers b) t"

definition put_timer :: "'a ebase_scheme \<Rightarrow> addr \<Rightarrow> timer \<Rightarrow> 'a ebase_scheme" where
  "put_timer b t tm = b\<lparr>timers := timers b\<lparr>pay := (pay (timers b))(t \<mapsto> tm)\<rparr>\<rparr>"

definition update_trigger :: "'a ebase_scheme \<Rightarrow> addr \<Rightarrow> 'a ebase_scheme option" where
  "update_trigger b t =
     (let (now, b) = get_time b in
      do { tm \<leftarrow> get_timer b t;
           Some (put_timer b t (tm\<lparr>trigger := now + ucast (interval tm) * 1000000\<rparr>)) })"

definition timer_cmp :: "timer \<Rightarrow> timer \<Rightarrow> int" where
  "timer_cmp a b = (if trigger a < trigger b then -1 else if trigger a = trigger b then 0 else 1)"

definition add_timer :: "'a ebase_scheme \<Rightarrow> addr \<Rightarrow> (int \<times> 'a ebase_scheme) option" where
  "add_timer b t =
     do { tm \<leftarrow> get_timer b t;
          if has_flag (tflags tm) TIMER_FLAG_ACTIVE then Some (ERR, b)
          else do {
            b \<leftarrow> update_trigger b t;
            tm \<leftarrow> get_timer b t;
            let b = put_timer b t (tm\<lparr>tflags := tflags tm OR TIMER_FLAG_ACTIVE\<rparr>);
            s \<leftarrow> rbtree_insert (timers b) t;
            Some (OK, b\<lparr>timers := s\<rparr>) } }"

definition del_timer :: "'a ebase_scheme \<Rightarrow> addr \<Rightarrow> (int \<times> 'a ebase_scheme) option" where
  "del_timer b t =
     do { tm \<leftarrow> get_timer b t;
          if has_flag (tflags tm) TIMER_FLAG_ACTIVE
          then do {
            s \<leftarrow> rbtree_delete (timers b) t;
            let b = b\<lparr>timers := s\<rparr>;
            tm \<leftarrow> get_timer b t;
            Some (OK, put_timer b t (tm\<lparr>tflags := tflags tm AND NOT TIMER_FLAG_ACTIVE\<rparr>)) }
          else Some (ERR, b) }"

text \<open>The loop of \<^verbatim>\<open>run_timers\<close>; \<open>call cb data\<close> is the call of a timer callback.\<close>

partial_function (option) run_timers_loop ::
  "(addr \<Rightarrow> addr \<Rightarrow> 'a ebase_scheme \<Rightarrow> 'a ebase_scheme option) \<Rightarrow> u64 \<Rightarrow> 'a ebase_scheme
     \<Rightarrow> 'a ebase_scheme option" where
  "run_timers_loop call now b =
     do { t \<leftarrow> rbtree_leftmost (timers b) (troot (timers b));
          if t = NULL then Some b
          else do {
            tm \<leftarrow> get_timer b t;
            if now \<ge> trigger tm
            then if has_flag (tflags tm) TIMER_FLAG_ACTIVE
                 then do {
                   b \<leftarrow> (if has_flag (tflags tm) TIMER_FLAG_ONESHOT
                        then do { (_, b) \<leftarrow> del_timer b t; Some b }
                        else update_trigger b t);
                   tm \<leftarrow> get_timer b t;
                   if tcb tm = NULL then None
                   else do { b \<leftarrow> call (tcb tm) (tdata tm) b;
                             run_timers_loop call now b } }
                 else do { (_, b) \<leftarrow> del_timer b t;
                           run_timers_loop call now b }
            else Some b } }"

declare run_timers_loop.simps [code]

definition run_timers ::
  "(addr \<Rightarrow> addr \<Rightarrow> 'a ebase_scheme \<Rightarrow> 'a ebase_scheme option) \<Rightarrow> 'a ebase_scheme
     \<Rightarrow> 'a ebase_scheme option" where
  "run_timers call b = (let (now, b) = get_time b in run_timers_loop call now b)"

section \<open>Descriptor events\<close>

text \<open>
  \<open>ctl\<close> is the result of \<^verbatim>\<open>epoll_ctl\<close>; the interest list changes when it is zero.
\<close>

definition add_event :: "int \<Rightarrow> 'a ebase_scheme \<Rightarrow> addr \<Rightarrow> (int \<times> 'a ebase_scheme) option" where
  "add_event ctl b e =
     do { ev \<leftarrow> evs b e;
          if ctl \<noteq> 0 then Some (ERR, b)
          else Some (OK, b\<lparr>interest := (interest b)(evfd ev \<mapsto> (events ev, e)),
                           evs := (evs b)(e \<mapsto> ev\<lparr>eflags := eflags ev OR EVENT_FLAG_ACTIVE\<rparr>)\<rparr>) }"

definition del_event :: "int \<Rightarrow> 'a ebase_scheme \<Rightarrow> addr \<Rightarrow> (int \<times> 'a ebase_scheme) option" where
  "del_event ctl b e =
     do { ev \<leftarrow> evs b e;
          if ctl \<noteq> 0 then Some (ERR, b)
          else Some (OK, b\<lparr>interest := (interest b)(evfd ev := None),
                           evs := (evs b)(e \<mapsto> ev\<lparr>eflags := eflags ev AND NOT EVENT_FLAG_ACTIVE\<rparr>)\<rparr>) }"

text \<open>The loop over the events \<^verbatim>\<open>epoll_wait\<close> stored, from index \<open>i\<close>, \<open>k\<close> of them left.\<close>

fun run_events ::
  "(addr \<Rightarrow> int \<Rightarrow> u32 \<Rightarrow> addr \<Rightarrow> 'a ebase_scheme \<Rightarrow> 'a ebase_scheme option)
     \<Rightarrow> (u32 \<times> addr) list \<Rightarrow> nat \<Rightarrow> nat \<Rightarrow> 'a ebase_scheme \<Rightarrow> 'a ebase_scheme option" where
  "run_events call es i 0 b = Some b"
| "run_events call es i (Suc k) b =
     do { (ee, p) \<leftarrow> (if i < length es then Some (es ! i) else None);
          ev \<leftarrow> evs b p;
          b \<leftarrow> (if ecb ev = NULL then None else call (ecb ev) (evfd ev) ee (edata ev) b);
          run_events call es (Suc i) k b }"

definition run_io ::
  "(addr \<Rightarrow> int \<Rightarrow> u32 \<Rightarrow> addr \<Rightarrow> 'a ebase_scheme \<Rightarrow> 'a ebase_scheme option)
     \<Rightarrow> (int \<Rightarrow> nat \<Rightarrow> int \<Rightarrow> 'a ebase_scheme \<Rightarrow> int \<times> (u32 \<times> addr) list)
     \<Rightarrow> 'a ebase_scheme \<Rightarrow> int \<Rightarrow> (int \<times> 'a ebase_scheme) option" where
  "run_io call epoll_wait b timeout =
     (let (n, es) = epoll_wait (epollfd b) MAX_IO_EVENTS timeout b in
      if n \<noteq> 0 then do { b \<leftarrow> run_events call es 0 (nat n) b; Some (OK, b) }
      else if n < 0 then Some (ERR, b)
      else Some (OK, b))"

section \<open>The event base\<close>

text \<open>\<open>nodesz\<close> of the timers is \<^verbatim>\<open>sizeof(struct timer)\<close>.\<close>

definition TIMER_SIZE :: nat where "TIMER_SIZE = 64"

definition create_event_base :: "bool \<Rightarrow> int \<Rightarrow> 'a ebase_scheme \<Rightarrow> 'a ebase_scheme option" where
  "create_event_base alloc_fails epoll_create b =
     (if alloc_fails then None
      else let b = b\<lparr>epollfd := 0, timers := rbtree_init (timers b) TIMER_SIZE timer_cmp\<rparr> in
           Some (if epoll_create \<ge> 0
                 then b\<lparr>epollfd := epoll_create, fds := insert epoll_create (fds b), interest := Map.empty\<rparr>
                 else b))"

definition destroy_event_base :: "'a ebase_scheme \<Rightarrow> 'a ebase_scheme" where
  "destroy_event_base b = (if epollfd b \<ge> 0 then b\<lparr>fds := fds b - {epollfd b}\<rparr> else b)"

definition event_base_iter ::
  "(addr \<Rightarrow> addr \<Rightarrow> 'a ebase_scheme \<Rightarrow> 'a ebase_scheme option)
     \<Rightarrow> (addr \<Rightarrow> int \<Rightarrow> u32 \<Rightarrow> addr \<Rightarrow> 'a ebase_scheme \<Rightarrow> 'a ebase_scheme option)
     \<Rightarrow> (int \<Rightarrow> nat \<Rightarrow> int \<Rightarrow> 'a ebase_scheme \<Rightarrow> int \<times> (u32 \<times> addr) list)
     \<Rightarrow> 'a ebase_scheme \<Rightarrow> (int \<times> 'a ebase_scheme) option" where
  "event_base_iter call_timer call_event epoll_wait b =
     do { b \<leftarrow> run_timers call_timer b;
          run_io call_event epoll_wait b IO_TIMEOUT }"

end
