(* ===== verification/Cask_RBTree_Spec.thy ===== *)
theory Cask_RBTree_Spec
  imports Cask_RBTree_Delete
begin

text \<open>
  What the red-black tree of \<^verbatim>\<open>src/rbtree.c\<close> promises, for any comparison that orders the objects by a
  key, and a concrete tree.
\<close>

definition demo_rb :: "int rb" where
  "demo_rb = \<lparr>troot = 2, nodesz = 40, tcmp = (\<lambda>a b. a - b),
     nodes = [RBNIL \<mapsto> sentinel,
              2 \<mapsto> \<lparr>ncolor = RBBLK, nleft = 3, nright = 4, nparent = NULL\<rparr>,
              3 \<mapsto> \<lparr>ncolor = RBRED, nleft = RBNIL, nright = RBNIL, nparent = 2\<rparr>,
              4 \<mapsto> \<lparr>ncolor = RBRED, nleft = RBNIL, nright = RBNIL, nparent = 2\<rparr>,
              5 \<mapsto> \<lparr>ncolor = RBBLK, nleft = NULL, nright = NULL, nparent = NULL\<rparr>],
     pay = [2 \<mapsto> 10, 3 \<mapsto> 5, 4 \<mapsto> 20, 5 \<mapsto> 7]\<rparr>"

definition demo_tree :: ptree where
  "demo_tree = N RBBLK (N RBRED E 3 E) 2 (N RBRED E 4 E)"

lemma demo_holds: "holds demo_rb demo_tree"
proof -
  have "rb_ok (Suc 0) demo_tree" by (simp add: demo_tree_def)
  moreover have "tcol demo_tree = RBBLK" by (simp add: demo_tree_def)
  ultimately have "balanced demo_tree" unfolding balanced_def by blast
  then show ?thesis
    by (auto simp: holds_def focus_def nil_ok_def pays_def demo_rb_def demo_tree_def sentinel_def)
qed

lemma demo_fresh: "fresh demo_rb demo_tree 5"
  by (simp add: fresh_def demo_rb_def demo_tree_def)

lemma demo_two: "two_children demo_rb 2"
  by (simp add: two_children_def demo_rb_def get_left_def get_right_def)

lemma demo_vals: "map (val demo_rb) (inord demo_tree) = [5, 10, 20]" "val demo_rb 5 = 7"
  by (simp_all add: demo_rb_def demo_tree_def val_def)

lemma keyed_tree:
  assumes "\<forall>a b. tcmp s a b \<le> 0 \<longleftrightarrow> key a \<le> key b" "holds s t"
    "sorted (map (\<lambda>a. key (val s a)) (inord t))"
  shows "keyed_cmp (tcmp s) key" "keyed_cmp.ordered (tcmp s) key s t"
    "keyed_cmp.node_key key s = (\<lambda>a. key (val s a))"
proof -
  show K: "keyed_cmp (tcmp s) key" using assms(1) by unfold_locales auto
  show "keyed_cmp.node_key key s = (\<lambda>a. key (val s a))"
    using keyed_cmp.node_key_def [OF K] by auto
  then show "keyed_cmp.ordered (tcmp s) key s t"
    using keyed_cmp.ordered_def [OF K] assms by auto
qed

text \<open>C7. \<^verbatim>\<open>rbtree_insert\<close> of a node that is not in the tree ends, follows no null pointer, leaves a
  balanced red-black tree with parent links in order, and puts the node into the in-order sequence
  where its key belongs, before the nodes of equal key.\<close>

theorem rbtree_insert_correct:
  assumes "\<forall>a b. tcmp s a b \<le> 0 \<longleftrightarrow> key a \<le> (key b :: 'k::linorder)"
    and "holds s t" "fresh s t x" "sorted (map (\<lambda>a. key (val s a)) (inord t))"
  shows "\<exists>s' t'. rbtree_insert s x = Some s' \<and> holds s' t' \<and> pay s' = pay s
     \<and> inord t' = insort_key (\<lambda>a. key (val s a)) x (inord t)"
proof -
  note K = keyed_tree [OF assms(1,2,4)]
  obtain s' t' where "rbtree_insert s x = Some s'" "keyed_cmp.ordered (tcmp s) key s' t'" "keeps s s'"
    "inord t' = insort_key (keyed_cmp.node_key key s) x (inord t)"
    by (rule keyed_cmp.insert_insort [OF K(1,2) assms(3)])
  then show ?thesis using keyed_cmp.ordered_def [OF K(1), of s' t'] K(3) by (auto simp: keeps_def)
qed

theorem rbtree_insert_correct_witness:
  "\<exists>s' t'. rbtree_insert demo_rb 5 = Some s' \<and> holds s' t' \<and> inord t' = [3, 5, 2, 4]"
proof -
  have o: "\<forall>a b. tcmp demo_rb a b \<le> 0 \<longleftrightarrow> (a::int) \<le> b" by (simp add: demo_rb_def)
  have v: "sorted (map (val demo_rb) (inord demo_tree))" by (simp add: demo_vals)
  show ?thesis
    using rbtree_insert_correct [OF o demo_holds demo_fresh] v
    by (simp add: demo_tree_def val_def) (auto simp: demo_rb_def)
qed

text \<open>C8. \<^verbatim>\<open>rbtree_delete\<close> of a node in the tree ends, follows no null pointer and leaves a balanced
  red-black tree whose sequence of objects has lost exactly the object of that node.  The node
  itself leaves the tree only when it has at most one child: with two children it stays, holding
  its successor's object, and the successor's node is the one that is gone.\<close>

theorem rbtree_delete_correct:
  assumes "holds s t" "z \<in> set (inord t)"
  shows "\<exists>s' t' xs ys. rbtree_delete s z = Some s' \<and> holds s' t' \<and> inord t = xs @ z # ys
     \<and> map (val s') (inord t') = map (val s) (xs @ ys)
     \<and> (if two_children s z then ys \<noteq> [] \<and> inord t' = xs @ z # tl ys \<and> pay s' z = pay s (hd ys)
        else inord t' = xs @ ys)"
proof -
  obtain s' t' xs ys where "rbtree_delete s z = Some s'" "holds s' t'" "inord t = xs @ z # ys"
    "map (val s') (inord t') = map (val s) (xs @ ys)"
    "inord t' = (if two_children s z then xs @ z # tl ys else xs @ ys)"
    "two_children s z \<longrightarrow> ys \<noteq> []"
    "pay s' = (if two_children s z then (pay s)(z \<mapsto> val s (hd ys)) else pay s)"
    by (rule rbtree_delete_ok [OF assms])
  moreover have "pay s (hd ys) = Some (val s (hd ys))" if "ys \<noteq> []"
    using assms(1) \<open>inord t = xs @ z # ys\<close> that by (intro pays_val [of s "inord t"]) (auto simp: holds_def)
  ultimately show ?thesis by (intro exI [of _ s'] exI [of _ t'] exI [of _ xs] exI [of _ ys]) auto
qed

theorem rbtree_delete_correct_witness:
  "\<exists>s' t'. rbtree_delete demo_rb 2 = Some s' \<and> holds s' t' \<and> inord t' = [3, 2]
     \<and> map (val s') (inord t') = [5, 20]"
proof -
  have z: "2 \<in> set (inord demo_tree)" by (simp add: demo_tree_def)
  obtain s' t' xs ys where r: "rbtree_delete demo_rb 2 = Some s'" "holds s' t'"
    "inord demo_tree = xs @ 2 # ys" "map (val s') (inord t') = map (val demo_rb) (xs @ ys)"
    "inord t' = xs @ 2 # tl ys"
    using rbtree_delete_correct [OF demo_holds z] demo_two by auto
  have "xs = [3] \<and> ys = [4]" using r(3)
    by (cases xs; cases "tl xs"; cases "tl (tl xs)") (auto simp: demo_tree_def)
  then show ?thesis using r by (auto simp: val_def demo_rb_def)
qed

text \<open>C28. \<^verbatim>\<open>rbtree_upper_bound\<close> returns the first node in order whose key is above that of the given
  object, and a null pointer when there is none; \<^verbatim>\<open>rbtree_leftmost\<close> and \<^verbatim>\<open>rbtree_rightmost\<close> return the
  ends of the sequence, and a null pointer on the empty tree.\<close>

theorem rbtree_queries_correct:
  assumes "\<forall>a b. tcmp s a b \<le> 0 \<longleftrightarrow> key a \<le> (key b :: 'k::linorder)"
    and "holds s t" "pay s x = Some v" "sorted (map (\<lambda>a. key (val s a)) (inord t))"
  shows "rbtree_upper_bound s x =
      Some (case find (\<lambda>a. key v < key (val s a)) (inord t) of None \<Rightarrow> NULL | Some a \<Rightarrow> a)
    \<and> rbtree_leftmost s (troot s) = Some (if inord t = [] then NULL else hd (inord t))
    \<and> rbtree_rightmost s (troot s) = Some (if inord t = [] then NULL else last (inord t))"
proof -
  note K = keyed_tree [OF assms(1,2,4)]
  have R: "rep s t" using assms(2) by (simp add: holds_def)
  have "val s x = v" using assms(3) by (simp add: val_def)
  then show ?thesis
    using keyed_cmp.upper_bound_least [OF K(1,2), of x] K(3) assms(3) leftmost_ok [OF R] rightmost_ok [OF R]
    by (simp add: end_node_def)
qed

theorem rbtree_queries_correct_witness:
  "rbtree_upper_bound demo_rb 5 = Some 2 \<and> rbtree_leftmost demo_rb (troot demo_rb) = Some 3
     \<and> rbtree_rightmost demo_rb (troot demo_rb) = Some 4"
proof -
  have o: "\<forall>a b. tcmp demo_rb a b \<le> 0 \<longleftrightarrow> (a::int) \<le> b" by (simp add: demo_rb_def)
  have v: "sorted (map (val demo_rb) (inord demo_tree))" by (simp add: demo_vals)
  have p: "pay demo_rb 5 = Some 7" by (simp add: demo_rb_def)
  show ?thesis
    using rbtree_queries_correct [OF o demo_holds p] v
    by (simp add: demo_tree_def val_def) (simp add: demo_rb_def)
qed

end
