(* ===== verification/Cask_Timers.thy ===== *)
theory Cask_Timers
  imports Cask_Event Cask_RBTree_Spec
begin

text \<open>
  Properties of the timers of \<^verbatim>\<open>src/event.c\<close>.  The comparison of \<^verbatim>\<open>event.c\<close> meets the contract of the
  red-black tree, so the timers are kept in the order of their triggers; adding a timer inserts it
  there, and \<^verbatim>\<open>run_timers\<close> fires exactly the due timers, in order.  Deleting a timer is right as long
  as its node has at most one child; with two children it leaves the deleted timer in the tree and
  takes another one out.
\<close>

section \<open>The order of timers\<close>

interpretation tim: keyed_cmp timer_cmp trigger
  by unfold_locales (auto simp: timer_cmp_def)

lemma has_flag_bit:
  "has_flag f TIMER_FLAG_ACTIVE = bit f 0" "has_flag f TIMER_FLAG_ONESHOT = bit f 1"
  using and_exp_eq_0_iff_not_bit [of f 0] and_exp_eq_0_iff_not_bit [of f 1]
  by (simp_all add: has_flag_def TIMER_FLAG_ACTIVE_def TIMER_FLAG_ONESHOT_def)

lemma has_flag_simps [simp]:
  "has_flag (f OR TIMER_FLAG_ACTIVE) TIMER_FLAG_ACTIVE"
  "\<not> has_flag (f AND NOT TIMER_FLAG_ACTIVE) TIMER_FLAG_ACTIVE"
  "has_flag (f OR TIMER_FLAG_ACTIVE) TIMER_FLAG_ONESHOT = has_flag f TIMER_FLAG_ONESHOT"
  "has_flag (f AND NOT TIMER_FLAG_ACTIVE) TIMER_FLAG_ONESHOT = has_flag f TIMER_FLAG_ONESHOT"
  by (simp_all add: has_flag_bit) (simp_all add: TIMER_FLAG_ACTIVE_def bit_simps)

definition active :: "timer \<Rightarrow> bool" where
  "active tm \<longleftrightarrow> has_flag (tflags tm) TIMER_FLAG_ACTIVE"

definition oneshot :: "timer \<Rightarrow> bool" where
  "oneshot tm \<longleftrightarrow> has_flag (tflags tm) TIMER_FLAG_ONESHOT"

abbreviation trig :: "'a ebase_scheme \<Rightarrow> addr \<Rightarrow> u64" where
  "trig b \<equiv> tim.node_key (timers b)"

text \<open>
  The invariant: the tree of timers is ordered, every timer has its node, and the active timers
  are the ones in the tree.
\<close>

definition timers_ok :: "'a ebase_scheme \<Rightarrow> ptree \<Rightarrow> bool" where
  "timers_ok b t \<longleftrightarrow>
     tim.ordered (timers b) t
     \<and> (\<forall>a tm. get_timer b a = Some tm \<longrightarrow>
          a \<noteq> RBNIL \<and> nodes (timers b) a \<noteq> None \<and> (active tm \<longleftrightarrow> a \<in> set (inord t)))"

lemma timers_okD:
  assumes "timers_ok b t"
  shows "tim.ordered (timers b) t" "holds (timers b) t" "rep (timers b) t"
    "pays (timers b) (inord t)" "distinct (inord t)" "NULL \<notin> set (inord t)"
  using assms by (auto simp: timers_ok_def tim.ordered_def holds_def focus_def)

lemma timers_ok_timer:
  assumes "timers_ok b t" "a \<in> set (inord t)"
  obtains tm where "get_timer b a = Some tm" "active tm" "trig b a = trigger tm"
  using assms timers_okD(4) [OF assms(1)]
  by (auto simp: timers_ok_def pays_def get_timer_def tim.node_key_def val_def)

text \<open>Changing an object outside the tree.\<close>

lemma ordered_outside:
  assumes "tim.ordered s t" "a \<notin> set (inord t)"
  shows "tim.ordered (s\<lparr>pay := (pay s)(a \<mapsto> v)\<rparr>) t"
proof -
  have "map (tim.node_key (s\<lparr>pay := (pay s)(a \<mapsto> v)\<rparr>)) (inord t) = map (tim.node_key s) (inord t)"
    using assms(2) by (auto simp: tim.node_key_def val_def)
  then show ?thesis using assms unfolding tim.ordered_def
    by (simp only: simp_thms) (auto simp: holds_def pays_def)
qed

lemma insort_key_cong:
  "(\<And>a. a \<in> set (x # xs) \<Longrightarrow> f a = g a) \<Longrightarrow> insort_key f x xs = insort_key g x xs"
  by (induction xs) auto

section \<open>Adding a timer\<close>

definition now_of :: "'a ebase_scheme \<Rightarrow> u64" where
  "now_of b = time_of (clock b (ticks b))"

text \<open>The timer after \<^verbatim>\<open>add_timer\<close>.\<close>

definition armed :: "u64 \<Rightarrow> timer \<Rightarrow> timer" where
  "armed now tm = tm\<lparr>trigger := now + ucast (interval tm) * 1000000,
                     tflags := tflags tm OR TIMER_FLAG_ACTIVE\<rparr>"

lemma add_timer_ok:
  assumes ok: "timers_ok b t" and tm: "get_timer b a = Some tm" and na: "\<not> active tm"
  obtains b' t' where "add_timer b a = Some (OK, b')" "timers_ok b' t'"
    "inord t' = insort_key (trig b') a (inord t)"
    "get_timer b' = (get_timer b)(a \<mapsto> armed (now_of b) tm)" "ticks b' = Suc (ticks b)"
proof -
  let ?p = "(pay (timers b))(a \<mapsto> armed (now_of b) tm)"
  let ?s = "timers b\<lparr>pay := ?p\<rparr>"
  have a: "a \<notin> set (inord t)" "a \<noteq> RBNIL" "nodes (timers b) a \<noteq> None"
    using ok tm na by (auto simp: timers_ok_def)
  have O: "tim.ordered ?s t" using ordered_outside [OF timers_okD(1) [OF ok] a(1)] .
  have F: "fresh ?s t a" using a by (simp add: fresh_def)
  obtain s' t' where s': "rbtree_insert ?s a = Some s'" "tim.ordered s' t'" "keeps ?s s'"
    "inord t' = insort_key (tim.node_key ?s) a (inord t)"
    by (rule tim.insert_insort [OF O F])
  let ?b = "b\<lparr>ticks := Suc (ticks b), timers := s'\<rparr>"
  have eq: "add_timer b a = Some (OK, ?b)"
    using tm na s'(1)
    by (simp add: add_timer_def update_trigger_def get_time_def get_timer_def put_timer_def
        active_def armed_def now_of_def)
  have g: "get_timer ?b = (get_timer b)(a \<mapsto> armed (now_of b) tm)"
    using s'(3) by (auto simp: get_timer_def keeps_def)
  have i: "inord t' = insort_key (trig ?b) a (inord t)"
    using s'(3,4) tim.node_key_keeps [of s' ?s] by (simp add: keeps_def)
  have "timers_ok ?b t'"
    unfolding timers_ok_def
  proof (intro conjI allI impI)
    fix c tmc assume c: "get_timer ?b c = Some tmc"
    show "c \<noteq> RBNIL" "nodes (timers ?b) c \<noteq> None" "active tmc \<longleftrightarrow> c \<in> set (inord t')"
      using c g ok a s'(3) unfolding timers_ok_def i
      by (auto simp: keeps_def dom_def set_insort_key active_def armed_def split: if_splits)
  qed (use s'(2) in simp)
  then show thesis using that eq i g by simp
qed

section \<open>Deleting a timer\<close>

definition disarmed :: "timer \<Rightarrow> timer" where
  "disarmed tm = tm\<lparr>tflags := tflags tm AND NOT TIMER_FLAG_ACTIVE\<rparr>"

lemma disarmed_simps [simp]:
  "\<not> active (disarmed tm)" "oneshot (disarmed tm) = oneshot tm" "trigger (disarmed tm) = trigger tm"
  "tcb (disarmed tm) = tcb tm" "tdata (disarmed tm) = tdata tm"
  by (simp_all add: disarmed_def active_def oneshot_def)

lemma del_timer_eq:
  assumes "get_timer b a = Some tm" "active tm" "rbtree_delete (timers b) a = Some s'" "pay s' a = Some tm'"
  shows "del_timer b a = Some (OK, b\<lparr>timers := s'\<lparr>pay := (pay s')(a \<mapsto> disarmed tm')\<rparr>\<rparr>)"
  using assms by (simp add: del_timer_def active_def get_timer_def put_timer_def disarmed_def)

lemma del_timer_inactive:
  "get_timer b a = Some tm \<Longrightarrow> \<not> active tm \<Longrightarrow> del_timer b a = Some (ERR, b)"
  by (simp add: del_timer_def active_def)

lemma del_timer_tree:
  assumes ok: "timers_ok b t" and a: "a \<in> set (inord t)" and tm: "get_timer b a = Some tm"
  obtains b' t' xs ys where "del_timer b a = Some (OK, b')"
    "holds (timers b') t'" "tcmp (timers b') = timer_cmp"
    "dom (nodes (timers b')) = dom (nodes (timers b))"
    "inord t = xs @ a # ys" "two_children (timers b) a \<longrightarrow> ys \<noteq> []"
    "inord t' = (if two_children (timers b) a then xs @ a # tl ys else xs @ ys)"
    "sorted (map (trig b') (inord t'))"
    "get_timer b' = (get_timer b)(a \<mapsto>
       disarmed (if two_children (timers b) a then val (timers b) (hd ys) else tm))"
    "b' = b\<lparr>timers := timers b'\<rparr>"
proof -
  obtain s' t' xs ys where r: "rbtree_delete (timers b) a = Some s'" "tim.ordered s' t'"
    "dom (nodes s') = dom (nodes (timers b))" "inord t = xs @ a # ys"
    "inord t' = (if two_children (timers b) a then xs @ a # tl ys else xs @ ys)"
    "two_children (timers b) a \<longrightarrow> ys \<noteq> []"
    "map (val s') (inord t') = map (val (timers b)) (xs @ ys)"
    "pay s' = (if two_children (timers b) a then (pay (timers b))(a \<mapsto> val (timers b) (hd ys))
               else pay (timers b))"
    by (rule tim.delete_ordered [OF timers_okD(1) [OF ok] a])
  let ?v = "if two_children (timers b) a then val (timers b) (hd ys) else tm"
  let ?s = "s'\<lparr>pay := (pay s')(a \<mapsto> disarmed ?v)\<rparr>"
  have act: "active tm" using ok tm a by (auto simp: timers_ok_def)
  have v: "pay s' a = Some ?v" using r(8) tm by (simp add: get_timer_def)
  have key: "tim.node_key ?s = tim.node_key s'" using v by (auto simp: tim.node_key_def val_def fun_eq_iff)
  have h: "holds ?s t'" using r(2) by (auto simp: tim.ordered_def holds_def pays_def)
  have g: "get_timer (b\<lparr>timers := ?s\<rparr>) = (get_timer b)(a \<mapsto> disarmed ?v)"
    using r(8) by (auto simp: get_timer_def)
  have srt: "sorted (map (trig (b\<lparr>timers := ?s\<rparr>)) (inord t'))" "tcmp ?s = timer_cmp"
    using r(2) key by (simp_all add: tim.ordered_def)
  show thesis
    by (rule that [OF del_timer_eq [OF tm act r(1) v], of t' xs ys])
      (use h srt r(3-6) g in simp_all)
qed

text \<open>A node with at most one child leaves the tree.\<close>

lemma del_timer_ok:
  assumes ok: "timers_ok b t" and a: "a \<in> set (inord t)" and tm: "get_timer b a = Some tm"
    and one: "\<not> two_children (timers b) a"
  obtains b' t' where "del_timer b a = Some (OK, b')" "timers_ok b' t'"
    "inord t' = remove1 a (inord t)" "get_timer b' = (get_timer b)(a \<mapsto> disarmed tm)"
    "b' = b\<lparr>timers := timers b'\<rparr>"
proof -
  obtain b' t' xs ys where r: "del_timer b a = Some (OK, b')"
    "holds (timers b') t'" "tcmp (timers b') = timer_cmp"
    "dom (nodes (timers b')) = dom (nodes (timers b))"
    "inord t = xs @ a # ys" "inord t' = xs @ ys" "sorted (map (trig b') (inord t'))"
    "get_timer b' = (get_timer b)(a \<mapsto> disarmed tm)" "b' = b\<lparr>timers := timers b'\<rparr>"
    by (rule del_timer_tree [OF ok a tm]) (use one in simp)
  have dist: "distinct (inord t)" using ok by (rule timers_okD)
  have rm: "inord t' = remove1 a (inord t)" using dist r(5,6) by (simp add: remove1_append)
  have "timers_ok b' t'" unfolding timers_ok_def
  proof (intro conjI allI impI)
    fix c tmc assume c: "get_timer b' c = Some tmc"
    show "c \<noteq> RBNIL" "nodes (timers b') c \<noteq> None" "active tmc \<longleftrightarrow> c \<in> set (inord t')"
      using c r(4,5,6,8) ok tm dist unfolding timers_ok_def
      by (auto simp: dom_def split: if_splits)
  qed (use r(2,3,7) in \<open>simp add: tim.ordered_def\<close>)
  then show thesis using that r(1,8,9) rm by blast
qed

section \<open>Running the due timers\<close>

lemma leftmost_one_child:
  assumes "rep s t" "inord t = a # as"
  shows "\<not> two_children s a"
proof -
  obtain k c l r where t: "t = fill k (N c l a r)" using fill_find [of a t] assms(2) by auto
  have "distinct (inord t)" using assms(1) by (simp add: focus_def)
  then have "inord l = []" using assms(2) t by (cases "cpre k"; cases "inord l") (auto simp: inord_fill)
  then show ?thesis using assms(1) t focus_get(2) [of s k c l a r] by (simp add: rep_fill two_children_def)
qed

text \<open>Firing a list of timers, each disarmed and called.\<close>

fun fire_all ::
  "(addr \<Rightarrow> addr \<Rightarrow> 'a ebase_scheme \<Rightarrow> 'a ebase_scheme option) \<Rightarrow> addr list \<Rightarrow> 'a ebase_scheme
     \<Rightarrow> 'a ebase_scheme option" where
  "fire_all call [] b = Some b"
| "fire_all call (a # as) b =
     do { (_, b) \<leftarrow> del_timer b a; tm \<leftarrow> get_timer b a;
          b \<leftarrow> call (tcb tm) (tdata tm) b; fire_all call as b }"

lemma leftmost_timer:
  "timers_ok b t \<Longrightarrow>
     rbtree_leftmost (timers b) (troot (timers b)) = Some (end_node (inord t) hd)"
  by (rule leftmost_ok) (rule timers_okD)

lemma run_timers_loop_stop:
  assumes ok: "timers_ok b t" and "inord t = [] \<or> now < trig b (hd (inord t))"
  shows "run_timers_loop call now b = Some b"
proof (cases "inord t = []")
  case True
  then show ?thesis using leftmost_timer [OF ok] by (simp add: run_timers_loop.simps end_node_def)
next
  case False
  then have hd: "hd (inord t) \<in> set (inord t)" by simp
  then have "hd (inord t) \<noteq> NULL" using timers_okD(6) [OF ok] by metis
  moreover obtain tm where "get_timer b (hd (inord t)) = Some tm" "trig b (hd (inord t)) = trigger tm"
    using timers_ok_timer [OF ok hd] by blast
  moreover from this have "\<not> trigger tm \<le> now" using False assms(2) by auto
  ultimately show ?thesis using leftmost_timer [OF ok] False
    by (simp add: run_timers_loop.simps end_node_def)
qed

text \<open>
  What the loop needs of the callbacks: called on a timer that has just been disarmed, with the
  client's invariant, a callback returns, leaves the order and the timers of the tree as they are
  and re-establishes the invariant.
\<close>

locale timer_client =
  fixes call :: "addr \<Rightarrow> addr \<Rightarrow> 'a ebase_scheme \<Rightarrow> 'a ebase_scheme option"
    and inv :: "addr list \<Rightarrow> 'a ebase_scheme \<Rightarrow> bool"
  assumes call_ok:
    "\<lbrakk>timers_ok b t; inv (a # inord t) b; get_timer b a = Some tm; \<not> active tm\<rbrakk> \<Longrightarrow>
       \<exists>b' t'. call (tcb tm) (tdata tm) b = Some b' \<and> timers_ok b' t' \<and> inord t' = inord t
          \<and> inv (inord t) b' \<and> (\<forall>c\<in>set (inord t). get_timer b' c = get_timer b c)"
    and inv_timer: "inv as b \<Longrightarrow> a \<in> set as \<Longrightarrow> get_timer b a = Some tm \<Longrightarrow> oneshot tm \<and> tcb tm \<noteq> NULL"
    and inv_disarm: "inv as b \<Longrightarrow> get_timer b a = Some tm \<Longrightarrow> a \<in> set as \<Longrightarrow> del_timer b a = Some (OK, b') \<Longrightarrow>
      get_timer b' = (get_timer b)(a \<mapsto> disarmed tm) \<Longrightarrow> b' = b\<lparr>timers := timers b'\<rparr> \<Longrightarrow> inv as b'"
begin

lemma run_timers_loop_fire:
  assumes ok: "timers_ok b t" and inv: "inv (inord t) b" and t: "inord t = a # as"
    and due: "trig b a \<le> now"
  obtains b' t' where "timers_ok b' t'" "inv as b'" "inord t' = as"
    "run_timers_loop call now b = run_timers_loop call now b'"
    "\<forall>cs. fire_all call (a # cs) b = fire_all call cs b'"
    "\<forall>c\<in>set as. get_timer b' c = get_timer b c"
proof -
  have a: "a \<in> set (inord t)" and a0: "a \<noteq> NULL" using t timers_okD(6) [OF ok] by auto
  obtain tm where tm: "get_timer b a = Some tm" "active tm" "trig b a = trigger tm"
    by (rule timers_ok_timer [OF ok a])
  have ot: "oneshot tm" "tcb tm \<noteq> NULL" using inv_timer [OF inv a tm(1)] by auto
  obtain b1 t1 where b1: "del_timer b a = Some (OK, b1)" "timers_ok b1 t1"
    "inord t1 = remove1 a (inord t)" "get_timer b1 = (get_timer b)(a \<mapsto> disarmed tm)"
    "b1 = b\<lparr>timers := timers b1\<rparr>"
    by (rule del_timer_ok [OF ok a tm(1) leftmost_one_child [OF timers_okD(3) [OF ok] t]])
  have t1: "inord t1 = as" using b1(3) t by simp
  have g: "get_timer b1 a = Some (disarmed tm)" using b1(4) by simp
  have "inv (a # inord t1) b1" using inv_disarm [OF inv tm(1) a b1(1,4,5)] t t1 by simp
  then obtain b2 t2 where b2: "call (tcb tm) (tdata tm) b1 = Some b2" "timers_ok b2 t2" "inv as b2"
    "\<forall>c\<in>set as. get_timer b2 c = get_timer b1 c" "inord t2 = as"
    using call_ok [OF b1(2) _ g] t1 by auto
  have "run_timers_loop call now b = run_timers_loop call now b2"
    using leftmost_timer [OF ok] t tm due ot a0 b1(1) g b2(1)
    by (subst run_timers_loop.simps) (simp add: end_node_def active_def oneshot_def)
  moreover have "fire_all call (a # cs) b = fire_all call cs b2" for cs
    using b1(1) g b2(1) by simp
  moreover have "get_timer b2 c = get_timer b c" if "c \<in> set as" for c
    using that b2(4) b1(4) timers_okD(5) [OF ok] t by auto
  ultimately show thesis using that [OF b2(2,3,5)] by blast
qed

theorem run_timers_loop_fires:
  "timers_ok b t \<Longrightarrow> inv (inord t) b \<Longrightarrow>
     \<exists>b' t'. run_timers_loop call now b = Some b'
       \<and> fire_all call (takeWhile (\<lambda>a. trig b a \<le> now) (inord t)) b = Some b'
       \<and> timers_ok b' t' \<and> inord t' = dropWhile (\<lambda>a. trig b a \<le> now) (inord t) \<and> inv (inord t') b'"
proof (induction "inord t" arbitrary: b t)
  case Nil
  then show ?case using run_timers_loop_stop [OF Nil.prems(1)]
    by (intro exI [of _ b] exI [of _ t]) auto
next
  case (Cons a as)
  note t = Cons.hyps(2) [symmetric]
  show ?case
  proof (cases "trig b a \<le> now")
    case True
    obtain b2 t2 where b2: "timers_ok b2 t2" "inv as b2" "inord t2 = as"
      "run_timers_loop call now b = run_timers_loop call now b2"
      "\<forall>cs. fire_all call (a # cs) b = fire_all call cs b2"
      "\<forall>c\<in>set as. get_timer b2 c = get_timer b c"
      by (rule run_timers_loop_fire [OF Cons.prems t True])
    have key: "trig b2 c = trig b c" if "c \<in> set as" for c
      using b2(6) that by (simp add: tim.node_key_def val_def get_timer_def)
    then have tw: "takeWhile (\<lambda>a. trig b a \<le> now) (inord t) = a # takeWhile (\<lambda>a. trig b2 a \<le> now) as"
      "dropWhile (\<lambda>a. trig b a \<le> now) (inord t) = dropWhile (\<lambda>a. trig b2 a \<le> now) as"
      using True t by (simp_all cong: takeWhile_cong dropWhile_cong)
    show ?thesis using Cons.hyps(1) [of t2 b2] b2 tw by simp
  next
    case False
    then have "run_timers_loop call now b = Some b"
      using run_timers_loop_stop [OF Cons.prems(1)] t by simp
    moreover have "takeWhile (\<lambda>a. trig b a \<le> now) (inord t) = []"
      "dropWhile (\<lambda>a. trig b a \<le> now) (inord t) = inord t" using False t by auto
    ultimately show ?thesis using Cons.prems by auto
  qed
qed

end

section \<open>Properties\<close>

text \<open>A loop with three armed timers, at 5, 10 and 20 nanoseconds, and a fourth one not armed.\<close>

definition demo_timer :: "u64 \<Rightarrow> u32 \<Rightarrow> addr \<Rightarrow> timer" where
  "demo_timer at fl d = \<lparr>trigger = at, interval = 5000, tflags = fl, tcb = 9, tdata = d\<rparr>"

definition demo_base :: ebase where
  "demo_base = \<lparr>epollfd = 7,
     timers = \<lparr>troot = troot demo_rb, nodesz = TIMER_SIZE, tcmp = timer_cmp, nodes = nodes demo_rb,
       pay = [2 \<mapsto> demo_timer 10 3 2, 3 \<mapsto> demo_timer 5 3 3, 4 \<mapsto> demo_timer 20 3 4, 5 \<mapsto> demo_timer 0 2 5]\<rparr>,
     evs = Map.empty, interest = Map.empty, fds = {7}, clock = (\<lambda>n. Some (0, 30)), ticks = 0\<rparr>"

lemma demo_timers_ok: "timers_ok demo_base demo_tree"
proof -
  have h: "rep demo_rb demo_tree" "balanced demo_tree" using demo_holds by (simp_all add: holds_def)
  have "rep (timers demo_base) demo_tree"
    using h(1) by (auto simp: focus_def nil_ok_def demo_base_def demo_rb_def demo_tree_def sentinel_def)
  moreover have "pays (timers demo_base) (inord demo_tree)" by (simp add: pays_def demo_base_def demo_tree_def)
  moreover have "sorted (map (trig demo_base) (inord demo_tree))"
    by (simp add: demo_base_def demo_tree_def tim.node_key_def val_def demo_timer_def)
  moreover have "tcmp (timers demo_base) = timer_cmp" by (simp add: demo_base_def)
  ultimately have "tim.ordered (timers demo_base) demo_tree" using h(2)
    by (simp add: tim.ordered_def holds_def)
  moreover have "get_timer demo_base a = Some tm \<Longrightarrow>
      a \<noteq> RBNIL \<and> nodes (timers demo_base) a \<noteq> None \<and> (active tm \<longleftrightarrow> a \<in> set (inord demo_tree))" for a tm
    by (auto simp: get_timer_def demo_base_def demo_rb_def demo_tree_def demo_timer_def active_def
        has_flag_def TIMER_FLAG_ACTIVE_def split: if_splits)
  ultimately show ?thesis by (simp add: timers_ok_def)
qed

text \<open>C29. \<^verbatim>\<open>add_timer\<close> on a timer that is not armed succeeds: the timer's trigger is the current time
  plus its interval in milliseconds, in nanoseconds and modulo 2 to the 64, it is flagged active and
  stands in the tree where its trigger belongs; the other timers are untouched.  On an armed timer
  it is an error and changes nothing.\<close>

theorem add_timer_correct:
  assumes "timers_ok b t" "get_timer b a = Some tm"
  shows "if active tm then add_timer b a = Some (ERR, b)
    else \<exists>b' t'. add_timer b a = Some (OK, b') \<and> timers_ok b' t'
      \<and> inord t' = insort_key (trig b') a (inord t)
      \<and> get_timer b' = (get_timer b)(a \<mapsto> tm\<lparr>trigger := now_of b + ucast (interval tm) * 1000000,
                                             tflags := tflags tm OR TIMER_FLAG_ACTIVE\<rparr>)"
proof (cases "active tm")
  case True
  then show ?thesis using assms(2) by (simp add: add_timer_def active_def)
next
  case False
  show ?thesis using add_timer_ok [OF assms False] False by (simp add: armed_def) metis
qed

theorem add_timer_correct_witness:
  "\<exists>b' t'. add_timer demo_base 5 = Some (OK, b') \<and> timers_ok b' t' \<and> inord t' = [3, 2, 4, 5]"
proof -
  have g: "get_timer demo_base 5 = Some (demo_timer 0 2 5)" by (simp add: get_timer_def demo_base_def)
  have na: "\<not> active (demo_timer 0 2 5)"
    by (simp add: active_def demo_timer_def has_flag_def TIMER_FLAG_ACTIVE_def)
  obtain b' t' where r: "add_timer demo_base 5 = Some (OK, b')" "timers_ok b' t'"
    "inord t' = insort_key (trig b') 5 (inord demo_tree)"
    "get_timer b' = (get_timer demo_base)(5 \<mapsto> (demo_timer 0 2 5)\<lparr>trigger := now_of demo_base + ucast (interval (demo_timer 0 2 5)) * 1000000,
                                             tflags := tflags (demo_timer 0 2 5) OR TIMER_FLAG_ACTIVE\<rparr>)"
    using add_timer_correct [OF demo_timers_ok g] na by auto
  have "trig b' 5 = 5000000030" "trig b' 2 = 10" "trig b' 3 = 5" "trig b' 4 = 20"
    using r(4) by (auto simp: tim.node_key_def val_def get_timer_def fun_eq_iff demo_base_def demo_timer_def
        now_of_def time_of_def split: if_splits)
  then have "inord t' = [3, 2, 4, 5]" using r(3) by (simp add: demo_tree_def)
  then show ?thesis using r(1,2) by blast
qed

text \<open>C30. \<^verbatim>\<open>del_timer\<close> on an armed timer whose node has at most one child succeeds: the timer leaves the
  tree and is no longer active, the other timers keep their order and are untouched.  On a timer
  that is not armed it is an error and changes nothing.\<close>

theorem del_timer_correct:
  assumes "timers_ok b t" "get_timer b a = Some tm" "\<not> two_children (timers b) a"
  shows "if active tm
    then \<exists>b' t'. del_timer b a = Some (OK, b') \<and> timers_ok b' t' \<and> inord t' = remove1 a (inord t)
      \<and> get_timer b' = (get_timer b)(a \<mapsto> tm\<lparr>tflags := tflags tm AND NOT TIMER_FLAG_ACTIVE\<rparr>)
    else del_timer b a = Some (ERR, b)"
proof (cases "active tm")
  case True
  then have a: "a \<in> set (inord t)" using assms by (auto simp: timers_ok_def)
  show ?thesis using True del_timer_ok [OF assms(1) a assms(2,3)] by (simp add: disarmed_def) metis
next
  case False
  then show ?thesis using assms(2) by (simp add: del_timer_inactive)
qed

theorem del_timer_correct_witness:
  "\<exists>b' t'. del_timer demo_base 3 = Some (OK, b') \<and> timers_ok b' t' \<and> inord t' = [2, 4]"
proof -
  have g: "get_timer demo_base 3 = Some (demo_timer 5 3 3)" by (simp add: get_timer_def demo_base_def)
  have a: "active (demo_timer 5 3 3)"
    by (simp add: active_def demo_timer_def has_flag_def TIMER_FLAG_ACTIVE_def)
  have "\<not> two_children (timers demo_base) 3"
    by (simp add: two_children_def demo_base_def demo_rb_def get_left_def)
  then show ?thesis using del_timer_correct [OF demo_timers_ok g] a by (auto simp: demo_tree_def)
qed

text \<open>\<^verbatim>\<open>del_timer\<close> on an armed timer whose node has two children reports success, but the timer stays
  in the tree, flagged inactive and holding the callback data of the next timer \<open>y\<close>; that timer \<open>y\<close>
  is no longer in the tree although it is still flagged active, so it will never fire.\<close>

theorem del_timer_two_children:
  assumes "timers_ok b t" "get_timer b a = Some tm" "active tm" "two_children (timers b) a"
  shows "\<exists>b' t' y tmy. del_timer b a = Some (OK, b') \<and> holds (timers b') t' \<and> y \<noteq> a
     \<and> get_timer b y = Some tmy \<and> active tmy
     \<and> a \<in> set (inord t') \<and> get_timer b' a = Some (tmy\<lparr>tflags := tflags tmy AND NOT TIMER_FLAG_ACTIVE\<rparr>)
     \<and> y \<in> set (inord t) \<and> y \<notin> set (inord t') \<and> get_timer b' y = Some tmy"
proof -
  have a: "a \<in> set (inord t)" using assms by (auto simp: timers_ok_def)
  obtain b' t' xs ys where r: "del_timer b a = Some (OK, b')" "holds (timers b') t'"
    "inord t = xs @ a # ys" "ys \<noteq> []" "inord t' = xs @ a # tl ys"
    "get_timer b' = (get_timer b)(a \<mapsto> disarmed (val (timers b) (hd ys)))"
    by (rule del_timer_tree [OF assms(1) a assms(2)]) (use assms(4) in simp)
  let ?y = "hd ys"
  have y: "?y \<in> set (inord t)" "?y \<noteq> a" "?y \<notin> set (inord t')"
    using r(3-5) timers_okD(5) [OF assms(1)] by (cases ys; auto)+
  then obtain tmy where tmy: "get_timer b ?y = Some tmy" "active tmy"
    using timers_ok_timer [OF assms(1)] by metis
  then have "val (timers b) ?y = tmy" by (simp add: val_def get_timer_def)
  then have g: "get_timer b' = (get_timer b)(a \<mapsto> disarmed tmy)" using r(6) by simp
  show ?thesis
    by (rule exI [of _ b'], rule exI [of _ t'], rule exI [of _ ?y], rule exI [of _ tmy])
      (use r(1,2,5) y tmy g in \<open>simp add: disarmed_def\<close>)
qed

theorem del_timer_two_children_witness:
  "\<exists>b' t'. del_timer demo_base 2 = Some (OK, b') \<and> holds (timers b') t' \<and> 2 \<in> set (inord t')"
proof -
  have g: "get_timer demo_base 2 = Some (demo_timer 10 3 2)" by (simp add: get_timer_def demo_base_def)
  have a: "active (demo_timer 10 3 2)"
    by (simp add: active_def demo_timer_def has_flag_def TIMER_FLAG_ACTIVE_def)
  have "two_children (timers demo_base) 2"
    by (simp add: two_children_def demo_base_def demo_rb_def get_left_def get_right_def)
  then show ?thesis using del_timer_two_children [OF demo_timers_ok g a] by blast
qed

text \<open>
  A timer in the tree that is not active: the loop of \<^verbatim>\<open>run_timers\<close> calls \<^verbatim>\<open>del_timer\<close>, which refuses
  it, and starts over.
\<close>

definition stuck_at :: "u64 \<Rightarrow> 'a ebase_scheme \<Rightarrow> bool" where
  "stuck_at now b \<longleftrightarrow> (\<exists>a tm. rbtree_leftmost (timers b) (troot (timers b)) = Some a \<and> a \<noteq> NULL
     \<and> get_timer b a = Some tm \<and> \<not> active tm \<and> trigger tm \<le> now)"

lemma run_timers_loop_not_stuck:
  assumes "run_timers_loop call now b = Some b'"
  shows "\<not> stuck_at now b"
proof (rule run_timers_loop.raw_induct [where P = "\<lambda>call now b b'. \<not> stuck_at now b", OF _ assms])
  fix f call now b b'
  assume IH: "\<And>call now b b'. f call now b = Some b' \<Longrightarrow> \<not> stuck_at now b"
    and body: "do { t \<leftarrow> rbtree_leftmost (timers b) (troot (timers b));
          if t = NULL then Some b
          else do {
            tm \<leftarrow> get_timer b t;
            if now \<ge> trigger tm
            then if has_flag (tflags tm) TIMER_FLAG_ACTIVE
                 then do {
                   b \<leftarrow> (if has_flag (tflags tm) TIMER_FLAG_ONESHOT
                        then do { (_, b) \<leftarrow> del_timer b t; Some b }
                        else update_trigger b t);
                   tm \<leftarrow> get_timer b t;
                   if tcb tm = NULL then None
                   else do { b \<leftarrow> call (tcb tm) (tdata tm) b; f call now b } }
                 else do { (_, b) \<leftarrow> del_timer b t; f call now b }
            else Some b } } = Some b'"
  show "\<not> stuck_at now b"
  proof
    assume "stuck_at now b"
    then obtain a tm where st: "rbtree_leftmost (timers b) (troot (timers b)) = Some a" "a \<noteq> NULL"
      "get_timer b a = Some tm" "\<not> active tm" "trigger tm \<le> now" unfolding stuck_at_def by blast
    then have "f call now b = Some b'" using body by (simp add: active_def del_timer_inactive)
    then show False using IH \<open>stuck_at now b\<close> by blast
  qed
qed

text \<open>C34. When the first timer of the tree is due but not active, as \<^verbatim>\<open>del_timer\<close> can leave it,
  \<^verbatim>\<open>run_timers\<close> does not return, whatever the callbacks do.\<close>

theorem run_timers_never_returns:
  assumes "rep (timers b) t" "inord t \<noteq> []" "get_timer b (hd (inord t)) = Some tm" "\<not> active tm"
    "trigger tm \<le> now_of b"
  shows "run_timers call b = None"
proof -
  have "hd (inord t) \<noteq> NULL" using assms(1,2) by (cases "inord t") (auto simp: focus_def)
  then have "stuck_at (now_of b) (b\<lparr>ticks := Suc (ticks b)\<rparr>)"
    using assms leftmost_ok [OF assms(1)] by (auto simp: stuck_at_def end_node_def get_timer_def)
  then have "run_timers_loop call (now_of b) (b\<lparr>ticks := Suc (ticks b)\<rparr>) \<noteq> Some b'" for b'
    using run_timers_loop_not_stuck by blast
  then have "run_timers_loop call (now_of b) (b\<lparr>ticks := Suc (ticks b)\<rparr>) = None" by (metis not_None_eq)
  then show ?thesis by (simp add: run_timers_def get_time_def now_of_def)
qed

text \<open>The example after \<^verbatim>\<open>del_timer\<close> of the timer at 10 and then of the one at 5.\<close>

lemma demo_deletes:
  "case del_timer demo_base 2 of None \<Rightarrow> False | Some (r1, b1) \<Rightarrow>
     (case del_timer b1 3 of None \<Rightarrow> False | Some (r2, b2) \<Rightarrow>
       r1 = OK \<and> r2 = OK \<and> troot (timers b2) = 2 \<and> nodes (timers b2) NULL = None
       \<and> nodes (timers b2) RBNIL = Some (sentinel\<lparr>nparent := 2\<rparr>)
       \<and> nodes (timers b2) 2 = Some \<lparr>ncolor = RBBLK, nleft = RBNIL, nright = RBNIL, nparent = NULL\<rparr>
       \<and> pay (timers b2) 2 = Some (demo_timer 20 2 4) \<and> clock b2 (ticks b2) = Some (0, 30))"
  by code_simp

theorem run_timers_never_returns_witness:
  "case del_timer demo_base 2 of None \<Rightarrow> False | Some (r1, b1) \<Rightarrow>
     (case del_timer b1 3 of None \<Rightarrow> False | Some (r2, b2) \<Rightarrow>
       r1 = OK \<and> r2 = OK \<and> run_timers (\<lambda>_ _ b. Some b) b2 = None)"
proof -
  obtain b1 b2 where d: "del_timer demo_base 2 = Some (OK, b1)" "del_timer b1 3 = Some (OK, b2)"
    and b2: "troot (timers b2) = 2" "nodes (timers b2) NULL = None"
      "nodes (timers b2) RBNIL = Some (sentinel\<lparr>nparent := 2\<rparr>)"
      "nodes (timers b2) 2 = Some \<lparr>ncolor = RBBLK, nleft = RBNIL, nright = RBNIL, nparent = NULL\<rparr>"
      "pay (timers b2) 2 = Some (demo_timer 20 2 4)" "clock b2 (ticks b2) = Some (0, 30)"
    using demo_deletes by (auto split: option.splits)
  have "rep (timers b2) (N RBBLK E 2 E)" using b2 by (auto simp: focus_def nil_ok_def)
  moreover have "get_timer b2 2 = Some (demo_timer 20 2 4)" using b2 by (simp add: get_timer_def)
  moreover have "\<not> active (demo_timer 20 2 4)" "trigger (demo_timer 20 2 4) \<le> now_of b2"
    using b2(6) by (simp_all add: active_def demo_timer_def has_flag_def TIMER_FLAG_ACTIVE_def now_of_def time_of_def)
  ultimately have "run_timers (\<lambda>_ _ b. Some b) b2 = None"
    using run_timers_never_returns [of b2 "N RBBLK E 2 E"] by simp
  then show ?thesis using d by simp
qed

end
