(* ===== verification/Cask_List.thy ===== *)
theory Cask_List
  imports Cask_Prelude
begin

text \<open>
  \<^verbatim>\<open>src/list.h\<close>: the intrusive doubly linked ring of connections and workers.  The memory maps the
  address of a \<^verbatim>\<open>struct list\<close> to its two pointers; following a pointer to a node that is not there is
  \<^term>\<open>None\<close>.  \<open>ring h p xs\<close> says that the ring with head \<open>p\<close> holds the nodes \<open>xs\<close> in this order, and
  the operations of the header are the list operations of the same name on \<open>xs\<close>.
\<close>

section \<open>Operations\<close>

record list_node =
  prev :: addr
  nxt :: addr

type_synonym links = "addr \<rightharpoonup> list_node"

definition get_prev :: "links \<Rightarrow> addr \<Rightarrow> addr option" where
  "get_prev h a = map_option prev (h a)"

definition get_next :: "links \<Rightarrow> addr \<Rightarrow> addr option" where
  "get_next h a = map_option nxt (h a)"

definition set_prev :: "links \<Rightarrow> addr \<Rightarrow> addr \<Rightarrow> links option" where
  "set_prev h a v = map_option (\<lambda>n. h(a \<mapsto> n\<lparr>prev := v\<rparr>)) (h a)"

definition set_next :: "links \<Rightarrow> addr \<Rightarrow> addr \<Rightarrow> links option" where
  "set_next h a v = map_option (\<lambda>n. h(a \<mapsto> n\<lparr>nxt := v\<rparr>)) (h a)"

definition LIST_INIT_HEAD :: "links \<Rightarrow> addr \<Rightarrow> links" where
  "LIST_INIT_HEAD h p = h(p \<mapsto> \<lparr>prev = p, nxt = p\<rparr>)"

definition LIST_HEAD :: "links \<Rightarrow> addr \<Rightarrow> addr option" where
  "LIST_HEAD h p = do { n \<leftarrow> get_next h p; Some (if n = p then NULL else n) }"

definition LIST_TAIL :: "links \<Rightarrow> addr \<Rightarrow> addr option" where
  "LIST_TAIL h p = do { n \<leftarrow> get_prev h p; Some (if n = p then NULL else n) }"

definition list_add_between :: "links \<Rightarrow> addr \<Rightarrow> addr \<Rightarrow> addr \<Rightarrow> links option" where
  "list_add_between h n p q =
     do { h \<leftarrow> set_prev h q n; h \<leftarrow> set_next h n q; h \<leftarrow> set_prev h n p; set_next h p n }"

definition list_add :: "links \<Rightarrow> addr \<Rightarrow> addr \<Rightarrow> links option" where
  "list_add h p n = do { q \<leftarrow> get_next h p; list_add_between h n p q }"

definition list_add_tail :: "links \<Rightarrow> addr \<Rightarrow> addr \<Rightarrow> links option" where
  "list_add_tail h p n = do { q \<leftarrow> get_prev h p; list_add_between h n q p }"

definition list_del_between :: "links \<Rightarrow> addr \<Rightarrow> addr \<Rightarrow> links option" where
  "list_del_between h p q = do { h \<leftarrow> set_prev h q p; set_next h p q }"

definition list_del :: "links \<Rightarrow> addr \<Rightarrow> links option" where
  "list_del h n =
     do { p \<leftarrow> get_prev h n; q \<leftarrow> get_next h n; h \<leftarrow> list_del_between h p q;
          h \<leftarrow> set_next h n NULL; set_prev h n NULL }"

text \<open>\<^verbatim>\<open>list_for_each\<close>: the nodes the loop visits.\<close>

partial_function (option) list_walk :: "links \<Rightarrow> addr \<Rightarrow> addr \<Rightarrow> addr list option" where
  "list_walk h p a =
     (if a = p then Some []
      else do { n \<leftarrow> get_next h a; as \<leftarrow> list_walk h p n; Some (a # as) })"

declare list_walk.simps [code]

definition list_for_each :: "links \<Rightarrow> addr \<Rightarrow> addr list option" where
  "list_for_each h p = do { a \<leftarrow> get_next h p; list_walk h p a }"

section \<open>Rings\<close>

fun seg :: "links \<Rightarrow> addr \<Rightarrow> addr list \<Rightarrow> addr \<Rightarrow> bool" where
  "seg h a [] z \<longleftrightarrow> get_next h a = Some z \<and> get_prev h z = Some a"
| "seg h a (x # xs) z \<longleftrightarrow> get_next h a = Some x \<and> get_prev h x = Some a \<and> seg h x xs z"

definition ring :: "links \<Rightarrow> addr \<Rightarrow> addr list \<Rightarrow> bool" where
  "ring h p xs \<longleftrightarrow> seg h p xs p \<and> distinct (p # xs) \<and> NULL \<notin> set (p # xs)"

lemma seg_append: "seg h a (xs @ x # ys) z \<longleftrightarrow> seg h a xs x \<and> seg h x ys z"
  by (induction xs arbitrary: a) auto

lemma seg_last: "seg h a xs z \<Longrightarrow> get_prev h z = Some (last (a # xs))"
  by (induction xs arbitrary: a) auto

lemma seg_hd: "seg h a xs z \<Longrightarrow> get_next h a = Some (hd (xs @ [z]))"
  by (cases xs) auto

lemma get_upd:
  "get_next (h(a \<mapsto> n)) b = (if b = a then Some (nxt n) else get_next h b)"
  "get_prev (h(a \<mapsto> n)) b = (if b = a then Some (prev n) else get_prev h b)"
  by (auto simp: get_next_def get_prev_def)

lemma seg_cong:
  "(\<And>c. c \<in> set (a # xs) \<Longrightarrow> get_next h' c = get_next h c) \<Longrightarrow>
   (\<And>c. c \<in> set (xs @ [z]) \<Longrightarrow> get_prev h' c = get_prev h c) \<Longrightarrow> seg h' a xs z = seg h a xs z"
  by (induction xs arbitrary: a) auto

lemma seg_get:
  "seg h a xs z \<Longrightarrow> c \<in> set xs \<Longrightarrow> h c \<noteq> None" "seg h a xs z \<Longrightarrow> h a \<noteq> None" "seg h a xs z \<Longrightarrow> h z \<noteq> None"
  by (induction xs arbitrary: a) (auto simp: get_next_def get_prev_def)

text \<open>How the four stores of an insertion, and the two of a deletion, read afterwards.\<close>

lemma list_add_between_reads:
  assumes "h n \<noteq> None" "h p \<noteq> None" "h q \<noteq> None" "n \<noteq> p" "n \<noteq> q"
  obtains h' where "list_add_between h n p q = Some h'"
    "\<forall>c. get_next h' c = (if c = p then Some n else if c = n then Some q else get_next h c)"
    "\<forall>c. get_prev h' c = (if c = q then Some n else if c = n then Some p else get_prev h c)"
    "dom h' = dom h"
proof -
  have "\<exists>h'. list_add_between h n p q = Some h'
     \<and> (\<forall>c. get_next h' c = (if c = p then Some n else if c = n then Some q else get_next h c))
     \<and> (\<forall>c. get_prev h' c = (if c = q then Some n else if c = n then Some p else get_prev h c))
     \<and> dom h' = dom h"
    using assms by (cases "p = q") (auto simp: list_add_between_def set_prev_def set_next_def get_next_def get_prev_def)
  then show thesis using that by blast
qed

lemma list_del_between_reads:
  assumes "h p \<noteq> None" "h q \<noteq> None"
  obtains h' where "list_del_between h p q = Some h'"
    "\<forall>c. get_next h' c = (if c = p then Some q else get_next h c)"
    "\<forall>c. get_prev h' c = (if c = q then Some p else get_prev h c)"
    "dom h' = dom h"
proof -
  have "\<exists>h'. list_del_between h p q = Some h'
     \<and> (\<forall>c. get_next h' c = (if c = p then Some q else get_next h c))
     \<and> (\<forall>c. get_prev h' c = (if c = q then Some p else get_prev h c)) \<and> dom h' = dom h"
    using assms by (cases "p = q") (auto simp: list_del_between_def set_prev_def set_next_def get_next_def get_prev_def)
  then show thesis using that by blast
qed

lemma seg_front:
  "seg h a xs z \<longleftrightarrow>
     (if xs = [] then get_next h a = Some z \<and> get_prev h z = Some a
      else seg h a (butlast xs) (last xs) \<and> get_next h (last xs) = Some z \<and> get_prev h z = Some (last xs))"
  by (cases xs rule: rev_cases) (auto simp: seg_append)

text \<open>Changing what follows the last node, and what precedes the first.\<close>

lemma seg_end:
  assumes "seg h a xs z" "distinct (a # xs)" "z' \<notin> set xs" "z \<notin> set xs"
    "get_next h' (last (a # xs)) = Some z'" "get_prev h' z' = Some (last (a # xs))"
    "\<And>c. c \<in> set (a # xs) \<Longrightarrow> c \<noteq> last (a # xs) \<Longrightarrow> get_next h' c = get_next h c"
    "\<And>c. c \<in> set xs \<Longrightarrow> get_prev h' c = get_prev h c"
  shows "seg h' a xs z'"
  using assms
proof (induction xs arbitrary: a)
  case (Cons x xs)
  have "get_next h' a = get_next h a" using Cons.prems(2) Cons.prems(7) [of a] last_in_set [of "x # xs"] by auto
  moreover have "seg h' x xs z'"
  proof (rule Cons.IH)
    show "get_next h' c = get_next h c" if "c \<in> set (x # xs)" "c \<noteq> last (x # xs)" for c
      using Cons.prems(7) [of c] that by simp
    show "get_prev h' c = get_prev h c" if "c \<in> set xs" for c using Cons.prems(8) that by simp
  qed (use Cons.prems(1-6) in simp_all)
  moreover have "get_prev h' x = get_prev h x" using Cons.prems(8) by simp
  ultimately show ?case using Cons.prems(1) by simp
qed simp

lemma seg_start:
  assumes "seg h a xs z" "a \<notin> set xs" "a' \<notin> set xs"
    "get_next h' a' = Some (hd (xs @ [z]))" "get_prev h' (hd (xs @ [z])) = Some a'"
    "\<And>c. c \<in> set xs \<Longrightarrow> get_next h' c = get_next h c"
    "\<And>c. c \<in> set (xs @ [z]) \<Longrightarrow> c \<noteq> hd (xs @ [z]) \<Longrightarrow> get_prev h' c = get_prev h c"
    "distinct (xs @ [z])"
  shows "seg h' a' xs z"
proof (cases xs)
  case (Cons x ys)
  have "seg h' x ys z = seg h x ys z"
    by (rule seg_cong) (use assms Cons in auto)
  then show ?thesis using assms Cons by simp
qed (use assms in simp)

lemma seg_split:
  assumes "seg h a (xs @ ys) z"
  shows "seg h a xs (hd (ys @ [z]))" "seg h (last (a # xs)) ys z"
proof -
  show "seg h a xs (hd (ys @ [z]))" using assms
    by (induction xs arbitrary: a) (auto simp: seg_hd, (cases ys; auto)+)
  show "seg h (last (a # xs)) ys z" using assms by (induction xs arbitrary: a) auto
qed

lemma ring_add_between:
  assumes r: "ring h p (xs @ ys)" and n: "n \<notin> set (p # xs @ ys)" "n \<noteq> NULL" "h n \<noteq> None"
  obtains h' where "list_add_between h n (last (p # xs)) (hd (ys @ [p])) = Some h'"
    "ring h' p (xs @ n # ys)" "dom h' = dom h"
    "\<forall>c. c \<notin> set (n # p # xs @ ys) \<longrightarrow> get_next h' c = get_next h c \<and> get_prev h' c = get_prev h c"
proof -
  let ?u = "last (p # xs)" and ?v = "hd (ys @ [p])"
  have s: "seg h p (xs @ ys) p" and d: "distinct (p # xs @ ys)" using r by (auto simp: ring_def)
  note sp = seg_split [OF s]
  have uv: "?u \<in> set (p # xs)" "?v \<in> set (ys @ [p])"
    by (rule last_in_set, simp) (rule hd_in_set, simp)
  then have mem: "?u \<in> set (p # xs @ ys)" "?v \<in> set (p # xs @ ys)" by auto
  have ex: "h ?u \<noteq> None" "h ?v \<noteq> None" using seg_get(2) [OF sp(2)] seg_get(3) [OF sp(1)] by auto
  have ne: "n \<noteq> ?u" "n \<noteq> ?v" using n(1) mem by metis+
  obtain h' where h': "list_add_between h n ?u ?v = Some h'"
    and gn: "\<forall>c. get_next h' c = (if c = ?u then Some n else if c = n then Some ?v else get_next h c)"
    and gp: "\<forall>c. get_prev h' c = (if c = ?v then Some n else if c = n then Some ?u else get_prev h c)"
    and dom: "dom h' = dom h"
    by (rule list_add_between_reads [OF n(3) ex ne])
  have v: "?v \<notin> set xs" "?v = p \<or> ?v \<in> set ys" "?u \<notin> set ys" "?u = p \<or> ?u \<in> set xs"
    using d uv by (cases ys; auto)+
  have "seg h' p xs n"
    by (rule seg_end [OF sp(1)]) (use n(1) d v ne in \<open>auto simp: gn gp\<close>)
  moreover have "seg h' n ys p"
    by (rule seg_start [OF sp(2)]) (use n(1) d v ne in \<open>auto simp: gn gp\<close>)
  ultimately have "ring h' p (xs @ n # ys)" using r n by (auto simp: ring_def seg_append)
  moreover have "\<forall>c. c \<notin> set (n # p # xs @ ys) \<longrightarrow> get_next h' c = get_next h c \<and> get_prev h' c = get_prev h c"
    using mem by (auto simp: gn gp)
  ultimately show thesis using that h' dom by blast
qed

lemma ring_del_between:
  assumes r: "ring h p (xs @ n # ys)"
  obtains h' where "list_del_between h (last (p # xs)) (hd (ys @ [p])) = Some h'"
    "ring h' p (xs @ ys)" "dom h' = dom h"
    "\<forall>c. c \<notin> set (p # xs @ ys) \<longrightarrow> get_next h' c = get_next h c \<and> get_prev h' c = get_prev h c"
proof -
  let ?u = "last (p # xs)" and ?v = "hd (ys @ [p])"
  have s: "seg h p xs n" "seg h n ys p" and d: "distinct (p # xs @ n # ys)"
    using r by (auto simp: ring_def seg_append)
  have uv: "?u \<in> set (p # xs)" "?v \<in> set (ys @ [p])"
    by (rule last_in_set, simp) (rule hd_in_set, simp)
  then have mem: "?u \<in> set (p # xs @ ys)" "?v \<in> set (p # xs @ ys)" by auto
  have ex: "h ?u \<noteq> None" "h ?v \<noteq> None"
    using seg_get [OF s(1)] seg_get [OF s(2)] uv by (auto split: if_splits)
  obtain h' where h': "list_del_between h ?u ?v = Some h'"
    and gn: "\<forall>c. get_next h' c = (if c = ?u then Some ?v else get_next h c)"
    and gp: "\<forall>c. get_prev h' c = (if c = ?v then Some ?u else get_prev h c)"
    and dom: "dom h' = dom h"
    by (rule list_del_between_reads [OF ex])
  have v: "?v \<notin> set xs" "?v = p \<or> ?v \<in> set ys" "?u \<notin> set ys" "?u = p \<or> ?u \<in> set xs"
    using d uv by (cases ys; auto)+
  have "seg h' p xs ?v"
    by (rule seg_end [OF s(1)]) (use d v in \<open>auto simp: gn gp\<close>)
  moreover have "seg h' ?u ys p"
    by (rule seg_start [OF s(2)]) (use d v in \<open>auto simp: gn gp\<close>)
  ultimately have "seg h' p (xs @ ys) p" by (cases ys) (auto simp: seg_append)
  then have "ring h' p (xs @ ys)" using r by (auto simp: ring_def)
  moreover have "\<forall>c. c \<notin> set (p # xs @ ys) \<longrightarrow> get_next h' c = get_next h c \<and> get_prev h' c = get_prev h c"
    using mem by (auto simp: gn gp)
  ultimately show thesis using that h' dom by blast
qed

section \<open>The operations as list operations\<close>

lemma ring_init: "p \<noteq> NULL \<Longrightarrow> ring (LIST_INIT_HEAD h p) p []"
  by (simp add: ring_def LIST_INIT_HEAD_def get_next_def get_prev_def)

lemma ring_add:
  assumes "ring h p xs" "n \<notin> set (p # xs)" "n \<noteq> NULL" "h n \<noteq> None"
  obtains h' where "list_add h p n = Some h'" "ring h' p (n # xs)" "dom h' = dom h"
    "\<forall>c. c \<notin> set (n # p # xs) \<longrightarrow> get_next h' c = get_next h c \<and> get_prev h' c = get_prev h c"
proof -
  have "get_next h p = Some (hd (xs @ [p]))" using assms(1) seg_hd by (simp add: ring_def)
  then have eq: "list_add h p n = list_add_between h n (last [p]) (hd (xs @ [p]))"
    by (simp add: list_add_def)
  have r: "ring h p ([] @ xs)" and n: "n \<notin> set (p # [] @ xs)" using assms by simp_all
  show thesis by (rule ring_add_between [OF r n assms(3,4)], rule that) (simp_all add: eq)
qed

lemma ring_add_tail:
  assumes "ring h p xs" "n \<notin> set (p # xs)" "n \<noteq> NULL" "h n \<noteq> None"
  obtains h' where "list_add_tail h p n = Some h'" "ring h' p (xs @ [n])" "dom h' = dom h"
    "\<forall>c. c \<notin> set (n # p # xs) \<longrightarrow> get_next h' c = get_next h c \<and> get_prev h' c = get_prev h c"
proof -
  have "get_prev h p = Some (last (p # xs))" using assms(1) seg_last unfolding ring_def by blast
  then have eq: "list_add_tail h p n = list_add_between h n (last (p # xs)) (hd ([] @ [p]))"
    by (simp add: list_add_tail_def)
  have r: "ring h p (xs @ [])" and n: "n \<notin> set (p # xs @ [])" using assms by simp_all
  show thesis by (rule ring_add_between [OF r n assms(3,4)], rule that) (simp_all add: eq)
qed

lemma ring_del:
  assumes r: "ring h p xs" and n: "n \<in> set xs"
  obtains h' where "list_del h n = Some h'" "ring h' p (remove1 n xs)" "dom h' = dom h"
    "\<forall>c. c \<notin> set (p # xs) \<longrightarrow> get_next h' c = get_next h c \<and> get_prev h' c = get_prev h c"
proof -
  obtain as bs where xs: "xs = as @ n # bs" using n by (meson split_list)
  have s: "seg h p as n" "seg h n bs p" and d: "distinct (p # as @ n # bs)"
    using r xs by (auto simp: ring_def seg_append)
  have g: "get_prev h n = Some (last (p # as))" "get_next h n = Some (hd (bs @ [p]))"
    using seg_last [OF s(1)] seg_hd [OF s(2)] by auto
  obtain h1 where h1: "list_del_between h (last (p # as)) (hd (bs @ [p])) = Some h1"
    "ring h1 p (as @ bs)" "dom h1 = dom h"
    "\<forall>c. c \<notin> set (p # as @ bs) \<longrightarrow> get_next h1 c = get_next h c \<and> get_prev h1 c = get_prev h c"
    by (rule ring_del_between [OF r [unfolded xs]])
  have "h n \<noteq> None" using g(1) by (auto simp: get_prev_def)
  then obtain m where m: "h1 n = Some m" using h1(3) by auto
  let ?h = "h1(n \<mapsto> \<lparr>prev = NULL, nxt = NULL\<rparr>)"
  have eq: "list_del h n = Some ?h"
    using g h1(1) m by (cases m) (simp add: list_del_def set_next_def set_prev_def)
  have "seg ?h p (as @ bs) p = seg h1 p (as @ bs) p"
    by (rule seg_cong) (use d in \<open>auto simp: get_upd\<close>)
  then have "ring ?h p (remove1 n xs)" using h1(2) d xs by (simp add: ring_def remove1_append)
  moreover have "dom ?h = dom h" using h1(3) m by auto
  ultimately show thesis using that eq h1(4) xs by (simp add: get_upd)
qed

lemma list_walk_seg:
  "seg h a xs p \<Longrightarrow> distinct xs \<Longrightarrow> p \<notin> set xs \<Longrightarrow> list_walk h p (hd (xs @ [p])) = Some xs"
proof (induction xs arbitrary: a)
  case Nil
  then show ?case by (simp add: list_walk.simps)
next
  case (Cons x xs)
  then have "get_next h x = Some (hd (xs @ [p]))" using seg_hd by simp
  moreover have "list_walk h p (hd (xs @ [p])) = Some xs" using Cons by simp blast
  ultimately show ?case using Cons.prems by (subst list_walk.simps) simp
qed

lemma ring_for_each: "ring h p xs \<Longrightarrow> list_for_each h p = Some xs"
  using list_walk_seg [of h p xs p] seg_hd [of h p xs p] by (auto simp: ring_def list_for_each_def)

lemma ring_ends:
  assumes "ring h p xs"
  shows "LIST_HEAD h p = Some (if xs = [] then NULL else hd xs)"
    "LIST_TAIL h p = Some (if xs = [] then NULL else last xs)"
proof -
  have s: "seg h p xs p" and p: "p \<notin> set xs" using assms by (auto simp: ring_def)
  have "hd xs \<noteq> p" "last xs \<noteq> p" if "xs \<noteq> []" using that p by (metis hd_in_set, metis last_in_set)
  then show "LIST_HEAD h p = Some (if xs = [] then NULL else hd xs)"
    "LIST_TAIL h p = Some (if xs = [] then NULL else last xs)"
    using seg_hd [OF s] seg_last [OF s] by (auto simp: LIST_HEAD_def LIST_TAIL_def)
qed

lemma ring_frame:
  assumes "ring h p xs" "\<forall>c\<in>set (p # xs). get_next h' c = get_next h c \<and> get_prev h' c = get_prev h c"
  shows "ring h' p xs"
  using assms seg_cong [of p xs h' h p] by (auto simp: ring_def)

section \<open>Histories of insertions and deletions\<close>

datatype reg_op = Enlist addr | Enlist_front addr | Delist addr

text \<open>
  The contract the workers and the connections rely on: objects are enlisted at the end
  or at the front and delisted in any order.  \<open>can s e\<close> says that \<open>e\<close> is an object that may be enlisted.
\<close>

locale registry =
  fixes holds_list :: "'s \<Rightarrow> addr list \<Rightarrow> bool"
    and enlist :: "'s \<Rightarrow> addr \<Rightarrow> 's option"
    and enlist_front :: "'s \<Rightarrow> addr \<Rightarrow> 's option"
    and delist :: "'s \<Rightarrow> addr \<Rightarrow> 's option"
    and can :: "'s \<Rightarrow> addr \<Rightarrow> bool"
  assumes enlist_ok: "holds_list s xs \<Longrightarrow> can s e \<Longrightarrow> e \<notin> set xs \<Longrightarrow>
      \<exists>s'. enlist s e = Some s' \<and> holds_list s' (xs @ [e]) \<and> can s' = can s"
    and enlist_front_ok: "holds_list s xs \<Longrightarrow> can s e \<Longrightarrow> e \<notin> set xs \<Longrightarrow>
      \<exists>s'. enlist_front s e = Some s' \<and> holds_list s' (e # xs) \<and> can s' = can s"
    and delist_ok: "holds_list s xs \<Longrightarrow> e \<in> set xs \<Longrightarrow>
      \<exists>s'. delist s e = Some s' \<and> holds_list s' (remove1 e xs) \<and> can s' = can s"
begin

fun reg_run :: "'s \<Rightarrow> reg_op list \<Rightarrow> 's option" where
  "reg_run s [] = Some s"
| "reg_run s (Enlist e # ops) = do { s \<leftarrow> enlist s e; reg_run s ops }"
| "reg_run s (Enlist_front e # ops) = do { s \<leftarrow> enlist_front s e; reg_run s ops }"
| "reg_run s (Delist e # ops) = do { s \<leftarrow> delist s e; reg_run s ops }"

end

fun reg_valid :: "(addr \<Rightarrow> bool) \<Rightarrow> addr list \<Rightarrow> reg_op list \<Rightarrow> bool" where
  "reg_valid c xs [] = True"
| "reg_valid c xs (Enlist e # ops) = (c e \<and> e \<notin> set xs \<and> reg_valid c (xs @ [e]) ops)"
| "reg_valid c xs (Enlist_front e # ops) = (c e \<and> e \<notin> set xs \<and> reg_valid c (e # xs) ops)"
| "reg_valid c xs (Delist e # ops) = (e \<in> set xs \<and> reg_valid c (remove1 e xs) ops)"

fun reg_spec :: "addr list \<Rightarrow> reg_op list \<Rightarrow> addr list" where
  "reg_spec xs [] = xs"
| "reg_spec xs (Enlist e # ops) = reg_spec (xs @ [e]) ops"
| "reg_spec xs (Enlist_front e # ops) = reg_spec (e # xs) ops"
| "reg_spec xs (Delist e # ops) = reg_spec (remove1 e xs) ops"

context registry begin

theorem reg_run_refines:
  "holds_list s xs \<Longrightarrow> reg_valid (can s) xs ops \<Longrightarrow>
     \<exists>s'. reg_run s ops = Some s' \<and> holds_list s' (reg_spec xs ops)"
proof (induction "can s" xs ops arbitrary: s rule: reg_valid.induct)
  case (2 xs e ops)
  then obtain s' where "enlist s e = Some s'" "holds_list s' (xs @ [e])" "can s' = can s"
    using enlist_ok [of s xs e] by auto
  then show ?case using 2 by auto
next
  case (3 xs e ops)
  then obtain s' where "enlist_front s e = Some s'" "holds_list s' (e # xs)" "can s' = can s"
    using enlist_front_ok [of s xs e] by auto
  then show ?case using 3 by auto
next
  case (4 xs e ops)
  then obtain s' where "delist s e = Some s'" "holds_list s' (remove1 e xs)" "can s' = can s"
    using delist_ok [of s xs e] by auto
  then show ?case using 4 by auto
qed simp

end

definition may_link :: "addr \<Rightarrow> links \<Rightarrow> addr \<Rightarrow> bool" where
  "may_link p h n \<longleftrightarrow> h n \<noteq> None \<and> n \<noteq> NULL \<and> n \<noteq> p"

lemma may_link_dom: "dom h' = dom h \<Longrightarrow> may_link p h' = may_link p h"
  by (auto simp: may_link_def fun_eq_iff dom_def set_eq_iff)

interpretation lst: registry "\<lambda>h. ring h p" "\<lambda>h. list_add_tail h p" "\<lambda>h. list_add h p" list_del "may_link p" for p
proof
  fix h xs n
  assume r: "ring h p xs"
  show "\<exists>h'. list_add_tail h p n = Some h' \<and> ring h' p (xs @ [n]) \<and> may_link p h' = may_link p h"
    if "may_link p h n" "n \<notin> set xs"
  proof -
    have n: "n \<notin> set (p # xs)" "n \<noteq> NULL" "h n \<noteq> None" using that by (auto simp: may_link_def)
    show ?thesis by (rule ring_add_tail [OF r n]) (use may_link_dom in blast)
  qed
  show "\<exists>h'. list_add h p n = Some h' \<and> ring h' p (n # xs) \<and> may_link p h' = may_link p h"
    if "may_link p h n" "n \<notin> set xs"
  proof -
    have n: "n \<notin> set (p # xs)" "n \<noteq> NULL" "h n \<noteq> None" using that by (auto simp: may_link_def)
    show ?thesis by (rule ring_add [OF r n]) (use may_link_dom in blast)
  qed
  show "\<exists>h'. list_del h n = Some h' \<and> ring h' p (remove1 n xs) \<and> may_link p h' = may_link p h"
    if "n \<in> set xs"
    by (rule ring_del [OF r that]) (use may_link_dom in blast)
qed

text \<open>C24. Any sequence of \<^verbatim>\<open>list_add_tail\<close> and \<^verbatim>\<open>list_add\<close> of objects not in the ring and \<^verbatim>\<open>list_del\<close> of objects in it
  runs without following a bad pointer and leaves a well-linked ring with exactly the objects, in
  the order, that a plain list would have; \<^verbatim>\<open>list_for_each\<close> visits these, and
  \<^verbatim>\<open>LIST_HEAD\<close> and \<^verbatim>\<open>LIST_TAIL\<close> are its ends.\<close>

theorem list_history:
  assumes "ring h p xs" "reg_valid (may_link p h) xs ops"
  shows "\<exists>h'. lst.reg_run p h ops = Some h' \<and> ring h' p (reg_spec xs ops)
     \<and> list_for_each h' p = Some (reg_spec xs ops)
     \<and> LIST_HEAD h' p = Some (if reg_spec xs ops = [] then NULL else hd (reg_spec xs ops))
     \<and> LIST_TAIL h' p = Some (if reg_spec xs ops = [] then NULL else last (reg_spec xs ops))"
  using lst.reg_run_refines [OF assms] ring_for_each ring_ends by blast

definition demo_links :: links where
  "demo_links = LIST_INIT_HEAD (\<lambda>a. if a \<in> {1, 2, 3} then Some \<lparr>prev = NULL, nxt = NULL\<rparr> else None) 9"

theorem list_history_witness:
  "\<exists>h'. lst.reg_run 9 demo_links [Enlist 1, Enlist 2, Enlist_front 3, Delist 2] = Some h'
     \<and> list_for_each h' 9 = Some [3, 1] \<and> LIST_TAIL h' 9 = Some 1"
proof -
  have r: "ring demo_links 9 []" unfolding demo_links_def by (rule ring_init) simp
  have "reg_valid (may_link 9 demo_links) [] [Enlist 1, Enlist 2, Enlist_front 3, Delist 2]"
    by (simp add: may_link_def demo_links_def LIST_INIT_HEAD_def)
  from list_history [OF r this] show ?thesis by auto
qed

end
