(* ===== verification/Cask_Libc.thy ===== *)
theory Cask_Libc
  imports Cask_Prelude
begin

text \<open>
  The part of the C library the sources call, over byte lists.  A pointer into an object is
  the list of bytes from that position to the end of the object, so a read past the end is
  \<^term>\<open>None\<close>.  The allocator is a parameter: which requests fail, and what fresh memory holds.
\<close>

section \<open>Reading memory\<close>

definition rd :: "bytes \<Rightarrow> int \<Rightarrow> byte option" where
  "rd s i = (if 0 \<le> i \<and> nat i < length s then Some (s ! nat i) else None)"

lemma rd_nat [simp]: "n < length s \<Longrightarrow> rd s (int n) = Some (s ! n)"
  by (simp add: rd_def)

lemma rd_SomeD: "rd s i = Some c \<Longrightarrow> 0 \<le> i \<and> nat i < length s \<and> c = s ! nat i"
  by (auto simp: rd_def split: if_splits)

section \<open>strncmp\<close>

text \<open>
  \<open>strncmp_eq a b n\<close> is \<^verbatim>\<open>strncmp(a, b, n) == 0\<close>: at most \<open>n\<close> characters are compared, and
  nothing is read behind a common null character.  A string literal \<open>s\<close> is the object
  \<open>cstr s\<close>.
\<close>

fun strncmp_eq :: "bytes \<Rightarrow> bytes \<Rightarrow> nat \<Rightarrow> bool option" where
  "strncmp_eq a b 0 = Some True"
| "strncmp_eq (x # xs) (y # ys) (Suc n) =
     (if x \<noteq> y then Some False else if x = NUL then Some True else strncmp_eq xs ys n)"
| "strncmp_eq a b (Suc n) = None"

definition cstr :: "string \<Rightarrow> bytes" where
  "cstr s = s @ [NUL]"

lemma strncmp_eq_literal:
  assumes "NUL \<notin> set s" and "length s \<le> length b"
  shows "strncmp_eq (cstr s) b (length s) = Some (take (length s) b = s)"
  using assms
proof (induction s arbitrary: b)
  case Nil
  then show ?case by simp
next
  case (Cons c s)
  then obtain d b' where b: "b = d # b'" by (cases b) auto
  with Cons show ?case by (auto simp: cstr_def)
qed

text \<open>The same comparison with the literal as second argument.\<close>

lemma strncmp_eq_sym: "strncmp_eq a b n = strncmp_eq b a n"
proof (induction n arbitrary: a b)
  case 0
  then show ?case by simp
next
  case (Suc n)
  then show ?case by (cases a; cases b) auto
qed

text \<open>Whatever it is compared with, a mismatch inside the literal decides the comparison.\<close>

lemma strncmp_eq_prefix:
  assumes "NUL \<notin> set s" and "strncmp_eq (cstr s) b (length s) = Some True"
  shows "length s \<le> length b \<and> take (length s) b = s"
  using assms
proof (induction s arbitrary: b)
  case Nil
  then show ?case by simp
next
  case (Cons c s)
  then show ?case by (cases b) (auto simp: cstr_def split: if_splits)
qed

section \<open>Decimal numbers\<close>

definition isdigit :: "byte \<Rightarrow> bool" where
  "isdigit c = (48 \<le> (of_char c :: nat) \<and> (of_char c :: nat) \<le> 57)"

definition isspace :: "byte \<Rightarrow> bool" where
  "isspace c = (c = SP \<or> (9 \<le> (of_char c :: nat) \<and> (of_char c :: nat) \<le> 13))"

definition digit_val :: "byte \<Rightarrow> nat" where
  "digit_val c = of_char c - 48"

definition digit_char :: "nat \<Rightarrow> byte" where
  "digit_char d = char_of (48 + d)"

definition num_val :: "bytes \<Rightarrow> nat" where
  "num_val ds = foldl (\<lambda>n c. 10 * n + digit_val c) 0 ds"

text \<open>
  \<open>scan_num\<close> is what \<^verbatim>\<open>strtol\<close> and \<^verbatim>\<open>strtoull\<close> read in base 10: white space, an optional
  sign, then the longest run of digits.  It is \<^term>\<open>None\<close> when the object ends before a
  character that stops the scan.  No digit at all reads as 0.
\<close>

definition scan_num :: "bytes \<Rightarrow> (bool \<times> nat) option" where
  "scan_num bs =
     (case dropWhile isspace bs of
        [] \<Rightarrow> None
      | c # cs \<Rightarrow>
          (let ds = (if c = CHR ''-'' \<or> c = CHR ''+'' then cs else c # cs) in
           if dropWhile isdigit ds = [] then None
           else Some (c = CHR ''-'', num_val (takeWhile isdigit ds))))"

definition strtoull :: "bytes \<Rightarrow> u64 option" where
  "strtoull bs = map_option (\<lambda>(neg, n).
     if 2 ^ 64 \<le> n then - 1 else if neg then - of_nat n else of_nat n) (scan_num bs)"

definition strtol :: "bytes \<Rightarrow> int option" where
  "strtol bs = map_option (\<lambda>(neg, n).
     if neg then max (- int n) (- (2 ^ 63)) else min (int n) (2 ^ 63 - 1)) (scan_num bs)"

lemma scan_num_total:
  assumes "NUL \<in> set bs"
  shows "\<exists>r. scan_num bs = Some r"
proof -
  have n: "\<not> isspace NUL" "\<not> isdigit NUL" by (simp_all add: isspace_def isdigit_def)
  then have "NUL \<in> set (dropWhile isspace bs)"
    using assms by (induction bs) (auto simp: isspace_def)
  then obtain c cs where c: "dropWhile isspace bs = c # cs" "NUL \<in> set (c # cs)"
    by (cases "dropWhile isspace bs") auto
  let ?ds = "if c = CHR ''-'' \<or> c = CHR ''+'' then cs else c # cs"
  have "NUL \<in> set ?ds" using c(2) by auto
  then have "dropWhile isdigit ?ds \<noteq> []" using n(2) by (metis dropWhile_eq_Nil_conv)
  then show ?thesis using c(1) by (simp add: scan_num_def Let_def)
qed

fun print_nat :: "nat \<Rightarrow> bytes" where
  "print_nat n = (if n < 10 then [digit_char n] else print_nat (n div 10) @ [digit_char (n mod 10)])"

declare print_nat.simps [simp del]

lemma of_char_digit_char: "d < 10 \<Longrightarrow> of_char (digit_char d) = 48 + d"
  by (simp add: digit_char_def)

lemma digit_val_digit_char [simp]: "d < 10 \<Longrightarrow> digit_val (digit_char d) = d"
  by (simp add: digit_val_def of_char_digit_char)

lemma isdigit_digit_char [simp]: "d < 10 \<Longrightarrow> isdigit (digit_char d)"
  by (simp add: isdigit_def of_char_digit_char)

lemma isdigit_not_isspace: "isdigit c \<Longrightarrow> \<not> isspace c"
  by (auto simp: isdigit_def isspace_def)

lemma isdigit_not_sign: "isdigit c \<Longrightarrow> c \<noteq> CHR ''-'' \<and> c \<noteq> CHR ''+''"
  by (auto simp: isdigit_def)

lemma num_val_snoc: "num_val (ds @ [c]) = 10 * num_val ds + digit_val c"
  by (simp add: num_val_def)

lemma isdigit_print_nat: "c \<in> set (print_nat n) \<Longrightarrow> isdigit c"
proof (induction n arbitrary: c rule: print_nat.induct)
  case (1 n)
  then show ?case
    by (subst (asm) (2) print_nat.simps) (auto split: if_splits)
qed

lemma print_nat_nonempty [simp]: "print_nat n \<noteq> []"
  by (subst print_nat.simps) simp

lemma num_val_print_nat [simp]: "num_val (print_nat n) = n"
proof (induction n rule: print_nat.induct)
  case (1 n)
  show ?case
  proof (cases "n < 10")
    case True
    then show ?thesis by (subst print_nat.simps) (simp add: num_val_def)
  next
    case False
    with "1.IH" show ?thesis by (subst print_nat.simps) (simp add: num_val_snoc)
  qed
qed

lemma length_print_nat_le: "n < 10 ^ k \<Longrightarrow> 0 < k \<Longrightarrow> length (print_nat n) \<le> k"
proof (induction n arbitrary: k rule: print_nat.induct)
  case (1 n)
  show ?case
  proof (cases "n < 10")
    case True
    with "1.prems" show ?thesis by (subst print_nat.simps) simp
  next
    case False
    obtain j where j: "k = Suc j" using "1.prems"(2) by (cases k) auto
    with False "1.prems"(1) have "n div 10 < 10 ^ j" "0 < j"
      by (auto simp: less_mult_imp_div_less mult.commute intro!: gr0I)
    then have "length (print_nat (n div 10)) \<le> j" using "1.IH" False by simp
    with False j show ?thesis by (subst print_nat.simps) simp
  qed
qed

text \<open>A printed number, followed by anything that is not a digit, is read back.\<close>

lemma dropWhile_print_nat:
  "\<not> isdigit c \<Longrightarrow> dropWhile isdigit (print_nat n @ c # rest) = c # rest"
  "\<not> isdigit c \<Longrightarrow> takeWhile isdigit (print_nat n @ c # rest) = print_nat n"
  using isdigit_print_nat [of _ n] by (simp_all add: dropWhile_append2 takeWhile_append2)

lemma scan_num_print_nat:
  assumes "\<not> isdigit c"
  shows "scan_num (print_nat n @ c # rest) = Some (False, n)"
proof -
  obtain d ds where p: "print_nat n = d # ds" by (cases "print_nat n") auto
  then have "isdigit d" using isdigit_print_nat [of d n] by simp
  then have "\<not> isspace d" "d \<noteq> CHR ''-''" "d \<noteq> CHR ''+''"
    using isdigit_not_isspace isdigit_not_sign by auto
  then show ?thesis
    using dropWhile_print_nat [OF assms, of n rest] num_val_print_nat [of n]
    using assms by (simp add: scan_num_def p)
qed

lemma strtoull_print_nat:
  "\<not> isdigit c \<Longrightarrow> strtoull (print_nat (unat w) @ c # rest) = Some w"
  using unsigned_less [of w, where ?'a = nat] by (simp add: strtoull_def scan_num_print_nat)

lemma strtol_print_nat:
  "\<not> isdigit c \<Longrightarrow> n < 2 ^ 63 \<Longrightarrow> strtol (print_nat n @ c # rest) = Some (int n)"
  by (simp add: strtol_def scan_num_print_nat)

text \<open>The same for a signed decimal.\<close>

definition print_int :: "int \<Rightarrow> bytes" where
  "print_int z = (if z < 0 then CHR ''-'' # print_nat (nat (- z)) else print_nat (nat z))"

lemma print_int_nonempty [simp]: "print_int z \<noteq> []"
  by (simp add: print_int_def)

lemma strtol_print_int:
  assumes "\<not> isdigit c" and "- (2 ^ 63) \<le> z" and "z < 2 ^ 63"
  shows "strtol (print_int z @ c # rest) = Some z"
proof (cases "z < 0")
  case True
  have "\<not> isspace (CHR ''-'')" by (simp add: isspace_def)
  then have "scan_num (CHR ''-'' # print_nat (nat (- z)) @ c # rest) = Some (True, nat (- z))"
    using dropWhile_print_nat [OF assms(1), of "nat (- z)" rest] assms(1) by (simp add: scan_num_def)
  then show ?thesis using True assms(2) by (simp add: print_int_def strtol_def)
next
  case False
  then show ?thesis using strtol_print_nat [OF assms(1), of "nat z" rest] assms(3) by (simp add: print_int_def)
qed

section \<open>snprintf and the allocator\<close>

text \<open>
  \<^verbatim>\<open>snprintf(tmp, n, ...)\<close> of a text: the full length is returned, and the array holds the
  first \<open>n - 1\<close> characters and a null character.
\<close>

definition snprintf :: "nat \<Rightarrow> bytes \<Rightarrow> int \<times> bytes" where
  "snprintf n s = (int (length s), take (n - 1) s @ [NUL])"

record alloc =
  alloc_fails :: "nat \<Rightarrow> bool"
  junk :: "nat \<Rightarrow> byte"

definition alloc_ok :: "'a alloc_scheme \<Rightarrow> bool" where
  "alloc_ok A = (\<forall>n. \<not> alloc_fails A n)"

text \<open>\<^verbatim>\<open>realloc\<close> keeps the old bytes up to the new size; the rest is indeterminate.\<close>

definition realloc :: "'a alloc_scheme \<Rightarrow> bytes \<Rightarrow> nat \<Rightarrow> bytes option" where
  "realloc A old n =
     (if alloc_fails A n then None
      else Some (take n old @ map (junk A) [length old ..< n]))"

lemma realloc_length: "realloc A old n = Some new \<Longrightarrow> length new = n"
  by (auto simp: realloc_def split: if_splits)

lemma realloc_take:
  "realloc A old n = Some new \<Longrightarrow> k \<le> length old \<Longrightarrow> k \<le> n \<Longrightarrow> take k new = take k old"
  by (auto simp: realloc_def min_def split: if_splits)

lemma realloc_ok: "alloc_ok A \<Longrightarrow> \<exists>new. realloc A old n = Some new"
  by (simp add: realloc_def alloc_ok_def)

text \<open>\<^verbatim>\<open>memcpy(dst + off, src, n)\<close> inside one destination object.\<close>

definition memcpy :: "bytes \<Rightarrow> nat \<Rightarrow> bytes \<Rightarrow> nat \<Rightarrow> bytes option" where
  "memcpy dst off src n =
     (if off + n \<le> length dst \<and> n \<le> length src
      then Some (take off dst @ take n src @ drop (off + n) dst) else None)"

lemma memcpy_ok:
  "off + n \<le> length dst \<Longrightarrow> n \<le> length src \<Longrightarrow>
   memcpy dst off src n = Some (take off dst @ take n src @ drop (off + n) dst)"
  by (simp add: memcpy_def)

end
