(* ===== verification/Cask_Array.thy ===== *)
theory Cask_Array
  imports Cask_Libc
begin

text \<open>
  \<^verbatim>\<open>src/array.h\<close>: the array that grows by doubling, with its header in front of the elements.  A null
  array is \<^term>\<open>None\<close>; the elements of an allocation whose contents are indeterminate are \<^term>\<open>None\<close> in
  \<open>amem\<close>.  \<open>A\<close> decides which allocations fail and \<open>es\<close> is the size of an element in bytes.  The function
  \<^verbatim>\<open>next_pot64\<close>, which \<^verbatim>\<open>array_push_back_n\<close> calls and no source defines, is the argument \<open>next_pot64\<close>.
\<close>

section \<open>Operations\<close>

record 'a arr =
  asz :: nat
  acap :: nat
  amem :: "'a option list"

definition HEADER_SIZE :: nat where "HEADER_SIZE = 16"

definition array_size :: "'a arr option \<Rightarrow> nat" where
  "array_size a = (case a of None \<Rightarrow> 0 | Some r \<Rightarrow> asz r)"

definition array_cap :: "'a arr option \<Rightarrow> nat" where
  "array_cap a = (case a of None \<Rightarrow> 0 | Some r \<Rightarrow> acap r)"

definition array_full :: "'a arr option \<Rightarrow> bool" where
  "array_full a \<longleftrightarrow> array_size a = array_cap a"

text \<open>
  The elements an allocation of \<^verbatim>\<open>sizeof *header + sz*elmsz\<close> bytes has room for, the sum and the
  product being computed modulo 2 to the 64.
\<close>

definition room :: "nat \<Rightarrow> nat \<Rightarrow> nat" where
  "room es n = ((HEADER_SIZE + n * es) mod 2 ^ 64 - HEADER_SIZE) div es"

definition array_resize :: "'b alloc_scheme \<Rightarrow> nat \<Rightarrow> 'a arr option \<Rightarrow> nat \<Rightarrow> 'a arr option option" where
  "array_resize A es a n =
     (let n = (if n = 0 then 1 else n);
          bytes = (HEADER_SIZE + n * es) mod 2 ^ 64 in
      if alloc_fails A bytes \<or> bytes < HEADER_SIZE then None
      else case a of
             None \<Rightarrow> Some (Some \<lparr>asz = 0, acap = n, amem = replicate (room es n) None\<rparr>)
           | Some r \<Rightarrow> Some (Some \<lparr>asz = asz r, acap = n,
               amem = take (room es n) (amem r) @ replicate (room es n - length (amem r)) None\<rparr>))"

definition array_get :: "'a arr option \<Rightarrow> nat \<Rightarrow> 'a option" where
  "array_get a i = do { r \<leftarrow> a; if i < length (amem r) then amem r ! i else None }"

definition array_push_back :: "'b alloc_scheme \<Rightarrow> nat \<Rightarrow> 'a arr option \<Rightarrow> 'a \<Rightarrow> 'a arr option option" where
  "array_push_back A es a x =
     do { a \<leftarrow> (if array_full a then array_resize A es a ((array_size a * 2) mod 2 ^ 64) else Some a);
          r \<leftarrow> a;
          if asz r < length (amem r)
          then Some (Some (r\<lparr>amem := (amem r)[asz r := Some x], asz := Suc (asz r)\<rparr>)) else None }"

text \<open>The size of the copy is a \<^verbatim>\<open>size_t\<close> product; \<open>items\<close> are the elements behind the pointer.\<close>

definition array_push_back_n ::
  "(nat \<Rightarrow> nat) \<Rightarrow> 'b alloc_scheme \<Rightarrow> nat \<Rightarrow> 'a arr option \<Rightarrow> 'a list \<Rightarrow> nat \<Rightarrow> 'a arr option option" where
  "array_push_back_n next_pot64 A es a items n =
     do { a \<leftarrow> (if size_add (array_size a) n > array_cap a
               then array_resize A es a (next_pot64 (size_add (array_size a) n)) else Some a);
          r \<leftarrow> a;
          let m = (es * n) mod 2 ^ 64 div es;
          if m \<le> length items \<and> asz r + m \<le> length (amem r)
          then Some (Some (r\<lparr>amem := take (asz r) (amem r) @ map Some (take m items) @ drop (asz r + m) (amem r),
                            asz := size_add (asz r) n\<rparr>))
          else None }"

definition array_insert :: "'b alloc_scheme \<Rightarrow> nat \<Rightarrow> 'a arr option \<Rightarrow> 'a \<Rightarrow> nat \<Rightarrow> 'a arr option option" where
  "array_insert A es a x i =
     do { a \<leftarrow> (if array_full a then array_resize A es a ((array_size a * 2) mod 2 ^ 64) else Some a);
          r \<leftarrow> a;
          r \<leftarrow> (if asz r \<noteq> 0
               then if i \<le> asz r \<and> asz r < length (amem r)
                    then Some (r\<lparr>amem := take (Suc i) (amem r) @ take (asz r - i) (drop i (amem r))
                                        @ drop (Suc (asz r)) (amem r)\<rparr>)
                    else None
               else Some r);
          if i < length (amem r)
          then Some (Some (r\<lparr>amem := (amem r)[i := Some x], asz := Suc (asz r)\<rparr>)) else None }"

definition array_pop_back :: "'a arr option \<Rightarrow> 'a arr option" where
  "array_pop_back a = (if array_size a \<noteq> 0 then map_option (\<lambda>r. r\<lparr>asz := asz r - 1\<rparr>) a else a)"

text \<open>\<^verbatim>\<open>assert\<close> is defined to nothing in \<^verbatim>\<open>src/common.h\<close>: with an empty array \<^verbatim>\<open>array_size(a)-1\<close> wraps and the
  \<^verbatim>\<open>memmove\<close> leaves the object.\<close>

definition array_remove :: "'a arr option \<Rightarrow> nat \<Rightarrow> 'a arr option option" where
  "array_remove a i =
     do { r \<leftarrow> a;
          if asz r = 0 then None
          else if i < asz r - 1
          then if asz r \<le> length (amem r)
               then Some (Some (r\<lparr>amem := take i (amem r) @ take (asz r - i - 1) (drop (Suc i) (amem r))
                                         @ drop (asz r - 1) (amem r), asz := asz r - 1\<rparr>))
               else None
          else Some (Some (r\<lparr>asz := asz r - 1\<rparr>)) }"

text \<open>\<^verbatim>\<open>array_free\<close> on a memory of arrays: a null array is left alone, a block that is not allocated is not
  freed.\<close>

definition array_free :: "(addr \<rightharpoonup> 'a arr) \<Rightarrow> addr \<Rightarrow> (addr \<rightharpoonup> 'a arr) option" where
  "array_free h a =
     (if a = NULL then Some h else do { _ \<leftarrow> h a; Some (h(a := None)) })"

definition array_clear :: "'a arr option \<Rightarrow> 'a arr option" where
  "array_clear a = map_option (\<lambda>r. r\<lparr>asz := 0\<rparr>) a"

definition array_shrink :: "'b alloc_scheme \<Rightarrow> nat \<Rightarrow> 'a arr option \<Rightarrow> 'a arr option option" where
  "array_shrink A es a =
     (if array_cap a > array_size a then array_resize A es a (array_size a) else Some a)"

definition array_ensure :: "'b alloc_scheme \<Rightarrow> nat \<Rightarrow> 'a arr option \<Rightarrow> nat \<Rightarrow> 'a arr option option" where
  "array_ensure A es a n = (if array_size a < n then array_resize A es a n else Some a)"

section \<open>Arrays as lists\<close>

text \<open>\<open>arr_ok es a xs\<close>: the array holds the elements \<open>xs\<close>, and has room for its capacity.\<close>

definition arr_ok :: "nat \<Rightarrow> 'a arr option \<Rightarrow> 'a list \<Rightarrow> bool" where
  "arr_ok es a xs \<longleftrightarrow>
     (case a of None \<Rightarrow> xs = []
      | Some r \<Rightarrow> asz r = length xs \<and> length xs \<le> acap r \<and> length (amem r) = acap r
          \<and> take (length xs) (amem r) = map Some xs)"

definition fits :: "nat \<Rightarrow> nat \<Rightarrow> bool" where
  "fits es n \<longleftrightarrow> 0 < es \<and> HEADER_SIZE + n * es < 2 ^ 64"

lemma room_fits: "fits es n \<Longrightarrow> room es n = n"
  by (simp add: room_def fits_def)

lemma fits_mono: "fits es n \<Longrightarrow> m \<le> n \<Longrightarrow> fits es m"
  unfolding fits_def using mult_le_mono1 [of m n es] by linarith

lemma fits_less: "fits es n \<Longrightarrow> n < 2 ^ 64"
proof -
  assume "fits es n"
  then have "n * 1 \<le> n * es" "n * es < 2 ^ 64" by (auto simp: fits_def)
  then show ?thesis by linarith
qed

lemma arr_ok_size: "arr_ok es a xs \<Longrightarrow> array_size a = length xs"
  by (auto simp: arr_ok_def array_size_def split: option.splits)

lemma arr_ok_get: "arr_ok es a xs \<Longrightarrow> i < length xs \<Longrightarrow> array_get a i = Some (xs ! i)"
proof -
  assume ok: "arr_ok es a xs" and i: "i < length xs"
  then obtain r where r: "a = Some r" "length xs \<le> length (amem r)" "take (length xs) (amem r) = map Some xs"
    by (auto simp: arr_ok_def split: option.splits)
  have "amem r ! i = take (length xs) (amem r) ! i" using i by simp
  then show ?thesis using r i by (simp add: array_get_def)
qed

lemma array_resize_ok:
  assumes ok: "arr_ok es a xs" and n: "length xs \<le> n" "fits es (max n 1)" and A: "alloc_ok A"
  obtains r where "array_resize A es a n = Some (Some r)" "arr_ok es (Some r) xs" "acap r = max n 1"
proof -
  let ?n = "if n = 0 then 1 else n"
  have m: "?n = max n 1" by (cases n) auto
  then have f: "fits es ?n" using n(2) by metis
  have nf: "\<not> alloc_fails A b" for b using A by (simp add: alloc_ok_def)
  have b: "\<not> (HEADER_SIZE + ?n * es) mod 2 ^ 64 < HEADER_SIZE" using f by (simp add: fits_def)
  show thesis
  proof (cases a)
    case None
    then show thesis
      using that [of "\<lparr>asz = 0, acap = ?n, amem = replicate ?n None\<rparr>"] ok b nf room_fits [OF f] m
      by (auto simp: array_resize_def arr_ok_def Let_def)
  next
    case (Some r)
    let ?r = "\<lparr>asz = asz r, acap = ?n, amem = take ?n (amem r) @ replicate (?n - length (amem r)) None\<rparr>"
    have "arr_ok es (Some ?r) xs"
      using ok Some n(1) by (auto simp: arr_ok_def min_def split: if_splits)
    moreover have "array_resize A es a n = Some (Some ?r)"
      using Some b nf room_fits [OF f] by (simp add: array_resize_def Let_def)
    ultimately show thesis using that m by simp
  qed
qed

lemma arr_ok_write:
  assumes "arr_ok es (Some r) xs" "length xs < acap r"
  shows "arr_ok es (Some (r\<lparr>amem := (amem r)[asz r := Some x], asz := Suc (asz r)\<rparr>)) (xs @ [x])"
proof -
  have l: "length (amem r) = acap r" "asz r = length xs" "take (length xs) (amem r) = map Some xs"
    using assms(1) by (auto simp: arr_ok_def)
  have "take (Suc (length xs)) ((amem r)[length xs := Some x]) = map Some (xs @ [x])"
    using l assms(2) by (subst take_Suc_conv_app_nth) (simp_all add: take_update_cancel)
  then show ?thesis using l assms(2) by (simp add: arr_ok_def)
qed

text \<open>The first half of \<^verbatim>\<open>array_push_back\<close> and of \<^verbatim>\<open>array_insert\<close>: room for one more element.\<close>

lemma array_room:
  assumes ok: "arr_ok es a xs" and f: "fits es (2 * length xs)" "fits es 1" and A: "alloc_ok A"
  obtains r where "(if array_full a then array_resize A es a ((array_size a * 2) mod 2 ^ 64) else Some a) = Some (Some r)"
    "arr_ok es (Some r) xs" "length xs < acap r"
proof (cases "array_full a")
  case True
  have "array_size a = length xs" using arr_ok_size [OF ok] .
  then have n: "(array_size a * 2) mod 2 ^ 64 = 2 * length xs" using fits_less [OF f(1)] by simp
  have "fits es (max (2 * length xs) 1)" using f by (simp add: max_def)
  then obtain r where "array_resize A es a (2 * length xs) = Some (Some r)" "arr_ok es (Some r) xs"
    "acap r = max (2 * length xs) 1"
    using array_resize_ok [OF ok _ _ A, of "2 * length xs"] by auto
  then show thesis using that [of r] True n by auto
next
  case False
  then obtain r where "a = Some r" "asz r \<noteq> acap r"
    by (cases a) (auto simp: array_full_def array_size_def array_cap_def)
  then show thesis using that [of r] ok False by (auto simp: arr_ok_def)
qed

lemma array_push_back_ok:
  assumes ok: "arr_ok es a xs" and f: "fits es (2 * length xs)" "fits es 1" and A: "alloc_ok A"
  obtains a' where "array_push_back A es a x = Some a'" "arr_ok es a' (xs @ [x])"
proof -
  obtain r where r: "(if array_full a then array_resize A es a ((array_size a * 2) mod 2 ^ 64) else Some a) = Some (Some r)"
    "arr_ok es (Some r) xs" "length xs < acap r"
    by (rule array_room [OF ok f A])
  have "asz r < length (amem r)" using r(2,3) by (auto simp: arr_ok_def)
  then show thesis
    by (intro that [of "Some (r\<lparr>amem := (amem r)[asz r := Some x], asz := Suc (asz r)\<rparr>)"]
          arr_ok_write r) (use r(1) in \<open>simp add: array_push_back_def\<close>)
qed

text \<open>What the name of \<^verbatim>\<open>next_pot64\<close> promises: a power of two is at least its argument and less than twice it.\<close>

definition pot_ok :: "(nat \<Rightarrow> nat) \<Rightarrow> bool" where
  "pot_ok next_pot64 \<longleftrightarrow> (\<forall>n > 0. n \<le> next_pot64 n \<and> next_pot64 n < 2 * n)"

lemma arr_ok_append:
  assumes "arr_ok es (Some r) xs" "length xs + length ys \<le> acap r" "length xs + length ys < 2 ^ 64"
  shows "arr_ok es (Some (r\<lparr>amem := take (asz r) (amem r) @ map Some ys @ drop (asz r + length ys) (amem r),
    asz := size_add (asz r) (length ys)\<rparr>)) (xs @ ys)"
  using assms by (auto simp: arr_ok_def)

lemma array_push_back_n_ok:
  assumes ok: "arr_ok es a xs" and ys: "ys \<noteq> []" and f: "fits es (2 * (length xs + length ys))"
    and A: "alloc_ok A" and pot: "pot_ok np"
  obtains a' where "array_push_back_n np A es a ys (length ys) = Some a'" "arr_ok es a' (xs @ ys)"
proof -
  let ?m = "length xs + length ys"
  have m: "size_add (array_size a) (length ys) = ?m" "?m < 2 ^ 64" "0 < ?m"
    using arr_ok_size [OF ok] fits_less [OF f] ys by auto
  obtain r where r: "(if size_add (array_size a) (length ys) > array_cap a
      then array_resize A es a (np (size_add (array_size a) (length ys))) else Some a) = Some (Some r)"
    "arr_ok es (Some r) xs" "?m \<le> acap r"
  proof (cases "?m > array_cap a")
    case True
    note p' = pot [unfolded pot_ok_def, rule_format, OF m(3)]
    have p: "?m \<le> np ?m" "np ?m \<le> 2 * ?m" using p' by simp_all
    have x: "length xs \<le> np ?m" "max (np ?m) 1 = np ?m" using p(1) m(3) by (linarith, intro max_absorb1, linarith)
    have fp: "fits es (np ?m)" by (rule fits_mono [OF f p(2)])
    obtain r where "array_resize A es a (np ?m) = Some (Some r)" "arr_ok es (Some r) xs" "acap r = np ?m"
      using array_resize_ok [OF ok x(1) _ A] fp x(2) by metis
    then show thesis using that [of r] True p m(1) by simp
  next
    case False
    then obtain r where "a = Some r" using m(3) by (cases a) (auto simp: array_cap_def)
    then show thesis using that [of r] False ok m(1) by (simp add: array_cap_def)
  qed
  have l: "length (amem r) = acap r" "asz r = length xs" using r(2) by (auto simp: arr_ok_def)
  have "fits es (length ys)" by (rule fits_mono [OF f]) simp
  then have es: "0 < es" "length ys * es < 2 ^ 64" by (simp_all add: fits_def)
  then have n: "(es * length ys) mod 2 ^ 64 div es = length ys" by (simp add: mult.commute)
  let ?r = "r\<lparr>amem := take (asz r) (amem r) @ map Some ys @ drop (asz r + length ys) (amem r), asz := size_add (asz r) (length ys)\<rparr>"
  have "array_push_back_n np A es a ys (length ys) = Some (Some ?r)"
    using r(1,3) l n by (simp add: array_push_back_n_def Let_def)
  then show thesis using that arr_ok_append [OF r(2,3) m(2)] by blast
qed

lemma array_insert_ok:
  assumes ok: "arr_ok es a xs" and i: "i \<le> length xs" and f: "fits es (2 * length xs)" "fits es 1" and A: "alloc_ok A"
  obtains a' where "array_insert A es a x i = Some a'" "arr_ok es a' (take i xs @ x # drop i xs)"
proof -
  obtain r where r: "(if array_full a then array_resize A es a ((array_size a * 2) mod 2 ^ 64) else Some a) = Some (Some r)"
    "arr_ok es (Some r) xs" "length xs < acap r"
    by (rule array_room [OF ok f A])
  have l: "length (amem r) = acap r" "asz r = length xs" "take (length xs) (amem r) = map Some xs"
    using r(2) by (auto simp: arr_ok_def)
  let ?m = "take (Suc i) (amem r) @ take (length xs - i) (drop i (amem r)) @ drop (Suc (length xs)) (amem r)"
  have "take i (amem r) = map Some (take i xs)"
    using l(3) i by (metis take_map take_take min.absorb1)
  moreover have "take (length xs - i) (drop i (amem r)) = map Some (drop i xs)"
    using l(3) by (metis drop_map drop_take)
  moreover have im: "i < length (amem r)" using i r(3) l(1) by simp
  ultimately have m: "?m[i := Some x] = map Some (take i xs @ x # drop i xs) @ drop (Suc (length xs)) (amem r)"
    using i l by (simp add: take_Suc_conv_app_nth list_update_append)
  define ys where "ys = take i xs @ x # drop i xs"
  have "length ys = Suc (length xs)" using i by (simp add: ys_def)
  then have ok': "arr_ok es (Some (r\<lparr>amem := ?m[i := Some x], asz := Suc (asz r)\<rparr>)) ys"
    using l r(3) unfolding m ys_def [symmetric] by (simp add: arr_ok_def)
  have "xs = [] \<Longrightarrow> (amem r)[i := Some x] = ?m[i := Some x]"
    using i im by (simp add: append_take_drop_id flip: drop_Suc)
  then have "array_insert A es a x i = Some (Some (r\<lparr>amem := ?m[i := Some x], asz := Suc (asz r)\<rparr>))"
    using r(1,3) i im l unfolding array_insert_def by (cases "xs = []") auto
  then show thesis using that ok' by (simp add: ys_def)
qed

lemma array_pop_back_ok:
  assumes "arr_ok es a xs"
  shows "arr_ok es (array_pop_back a) (butlast xs)"
proof (cases "xs = []")
  case False
  then obtain r where r: "a = Some r" "asz r = length xs" "length xs \<le> acap r" "length (amem r) = acap r"
    "take (length xs) (amem r) = map Some xs"
    using assms by (auto simp: arr_ok_def split: option.splits)
  have "take (length xs - 1) (amem r) = map Some (butlast xs)"
    using r(5) by (metis butlast_conv_take length_map map_butlast take_take min.absorb1 diff_le_self)
  then show ?thesis using r False by (simp add: arr_ok_def array_pop_back_def array_size_def)
qed (use assms in \<open>auto simp: arr_ok_def array_pop_back_def array_size_def split: option.splits\<close>)

lemma array_clear_ok: "arr_ok es a xs \<Longrightarrow> arr_ok es (array_clear a) []"
  by (auto simp: arr_ok_def array_clear_def split: option.splits)

lemma array_remove_ok:
  assumes "arr_ok es a xs" "i < length xs"
  obtains a' where "array_remove a i = Some a'" "arr_ok es a' (take i xs @ drop (Suc i) xs)"
proof -
  obtain r where r: "a = Some r" "asz r = length xs" "length xs \<le> acap r" "length (amem r) = acap r"
    "take (length xs) (amem r) = map Some xs"
    using assms by (auto simp: arr_ok_def split: option.splits)
  show thesis
  proof (cases "i < length xs - 1")
    case False
    then have i: "i = length xs - 1" using assms(2) by simp
    have "take (length xs - 1) (amem r) = map Some (butlast xs)"
      using r(3-5) by (metis butlast_conv_take length_map map_butlast take_take min.absorb1 diff_le_self)
    then have "arr_ok es (Some (r\<lparr>asz := asz r - 1\<rparr>)) (take i xs @ drop (Suc i) xs)"
      using r i assms(2) by (simp add: arr_ok_def butlast_conv_take)
    moreover have "xs \<noteq> []" using assms(2) by auto
    then have "array_remove a i = Some (Some (r\<lparr>asz := asz r - 1\<rparr>))"
      using r i by (simp add: array_remove_def)
    ultimately show thesis using that by blast
  next
    case True
    let ?m = "take i (amem r) @ take (length xs - i - 1) (drop (Suc i) (amem r)) @ drop (length xs - 1) (amem r)"
    have "take i (amem r) = map Some (take i xs)"
      using r(5) assms(2) by (metis take_map take_take min.absorb1 less_imp_le)
    moreover have "take (length xs - i - 1) (drop (Suc i) (amem r)) = map Some (drop (Suc i) xs)"
      using r(5) by (metis Suc_eq_plus1_left diff_diff_left drop_map drop_take add.commute)
    ultimately have "take (length xs - 1) ?m = map Some (take i xs @ drop (Suc i) xs)"
      using True r(3,4) by simp
    then have "arr_ok es (Some (r\<lparr>amem := ?m, asz := asz r - 1\<rparr>)) (take i xs @ drop (Suc i) xs)"
      using True r by (simp add: arr_ok_def)
    moreover have "array_remove a i = Some (Some (r\<lparr>amem := ?m, asz := asz r - 1\<rparr>))"
      using True r by (auto simp: array_remove_def)
    ultimately show thesis using that by blast
  qed
qed

section \<open>The contract of a growing table\<close>

text \<open>
  What the route table relies on: after a push the old entries are where they were and the new
  one is last.  \<open>cap\<close> is the number of entries the table can hold.
\<close>

locale growing_table =
  fixes len :: "'t \<Rightarrow> nat" and entry :: "'t \<Rightarrow> nat \<Rightarrow> 'e option" and push :: "'t \<Rightarrow> 'e \<Rightarrow> 't option"
    and valid :: "'t \<Rightarrow> bool" and cap :: nat
  assumes push_ok: "valid t \<Longrightarrow> len t < cap \<Longrightarrow> \<exists>t'. push t e = Some t' \<and> valid t'
      \<and> len t' = Suc (len t) \<and> entry t' (len t) = Some e \<and> (\<forall>i < len t. entry t' i = entry t i)"
begin

fun push_all :: "'t \<Rightarrow> 'e list \<Rightarrow> 't option" where
  "push_all t [] = Some t"
| "push_all t (e # es) = do { t \<leftarrow> push t e; push_all t es }"

lemma push_all_entries:
  "valid t \<Longrightarrow> len t + length es \<le> cap \<Longrightarrow> \<exists>t'. push_all t es = Some t' \<and> valid t'
     \<and> len t' = len t + length es \<and> (\<forall>i < length es. entry t' (len t + i) = Some (es ! i))
     \<and> (\<forall>i < len t. entry t' i = entry t i)"
proof (induction es arbitrary: t)
  case (Cons e es)
  obtain t1 where t1: "push t e = Some t1" "valid t1" "len t1 = Suc (len t)" "entry t1 (len t) = Some e"
    "\<forall>i < len t. entry t1 i = entry t i"
    using push_ok [of t e] Cons.prems by auto
  obtain t' where t': "push_all t1 es = Some t'" "valid t'" "len t' = len t1 + length es"
    "\<forall>i < length es. entry t' (len t1 + i) = Some (es ! i)" "\<forall>i < len t1. entry t' i = entry t1 i"
    using Cons.IH [of t1] Cons.prems t1 by auto
  have "entry t' (len t + i) = Some ((e # es) ! i)" if "i < length (e # es)" for i
    using that t1 t' by (cases i) auto
  then show ?case using t1 t' by auto
qed simp

end

definition routes_cap :: "nat \<Rightarrow> nat" where
  "routes_cap es = (2 ^ 64 - 1 - HEADER_SIZE) div (2 * es)"

lemma routes_cap_fits2:
  assumes "0 < es" "n \<le> routes_cap es"
  shows "fits es (2 * n)"
proof -
  have "n * (2 * es) \<le> routes_cap es * (2 * es)" using assms(2) by (intro mult_le_mono1) simp
  also have "\<dots> \<le> 2 ^ 64 - 1 - HEADER_SIZE" unfolding routes_cap_def by (rule div_times_less_eq_dividend)
  finally have "n * (2 * es) \<le> 2 ^ 64 - 1 - HEADER_SIZE" .
  then show ?thesis using assms(1) unfolding fits_def HEADER_SIZE_def by (simp add: mult.commute mult.left_commute)
qed

lemma routes_cap_fits:
  assumes "0 < es" "n < routes_cap es"
  shows "fits es (2 * n)" "fits es 1"
  using routes_cap_fits2 [OF assms(1), of n] fits_mono [OF routes_cap_fits2 [OF assms(1), of "Suc n"], of 1] assms(2)
  by simp_all

interpretation arr: growing_table array_size array_get "array_push_back A es"
  "\<lambda>a. 0 < es \<and> alloc_ok A \<and> (\<exists>xs. arr_ok es a xs)" "routes_cap es" for A es
proof
  fix a :: "'x arr option" and x
  assume v: "0 < es \<and> alloc_ok A \<and> (\<exists>xs. arr_ok es a xs)" and l: "array_size a < routes_cap es"
  then obtain xs where xs: "arr_ok es a xs" by blast
  have n: "array_size a = length xs" using arr_ok_size [OF xs] .
  note f = routes_cap_fits [of es "length xs"]
  obtain a' where a': "array_push_back A es a x = Some a'" "arr_ok es a' (xs @ [x])"
    by (rule array_push_back_ok [OF xs, of A x]) (use v l n f in auto)
  have "array_get a' i = array_get a i" if "i < length xs" for i
    using arr_ok_get [OF a'(2), of i] arr_ok_get [OF xs, of i] that by (simp add: nth_append)
  then show "\<exists>a'. array_push_back A es a x = Some a'
      \<and> (0 < es \<and> alloc_ok A \<and> (\<exists>xs. arr_ok es a' xs)) \<and> array_size a' = Suc (array_size a)
      \<and> array_get a' (array_size a) = Some x \<and> (\<forall>i < array_size a. array_get a' i = array_get a i)"
    using a' v n arr_ok_size [OF a'(2)] arr_ok_get [OF a'(2), of "length xs"] by auto
qed


section \<open>Histories\<close>

datatype 'a arr_call =
    Arr_push 'a | Arr_push_n "'a list" | Arr_insert 'a nat | Arr_pop | Arr_remove nat | Arr_clear | Arr_shrink | Arr_ensure nat

fun array_op ::
  "(nat \<Rightarrow> nat) \<Rightarrow> 'b alloc_scheme \<Rightarrow> nat \<Rightarrow> 'a arr_call \<Rightarrow> 'a arr option \<Rightarrow> 'a arr option option" where
  "array_op np A es (Arr_push x) a = array_push_back A es a x"
| "array_op np A es (Arr_push_n ys) a = array_push_back_n np A es a ys (length ys)"
| "array_op np A es (Arr_insert x i) a = array_insert A es a x i"
| "array_op np A es Arr_pop a = Some (array_pop_back a)"
| "array_op np A es (Arr_remove i) a = array_remove a i"
| "array_op np A es Arr_clear a = Some (array_clear a)"
| "array_op np A es Arr_shrink a = array_shrink A es a"
| "array_op np A es (Arr_ensure n) a = array_ensure A es a n"

text \<open>The same on lists; an operation outside the bounds has no result, nor has pushing no elements, which
  reads the header of an array that may be null.\<close>

fun list_op :: "'a arr_call \<Rightarrow> 'a list \<Rightarrow> 'a list option" where
  "list_op (Arr_push x) xs = Some (xs @ [x])"
| "list_op (Arr_push_n ys) xs = (if ys = [] then None else Some (xs @ ys))"
| "list_op (Arr_insert x i) xs = (if i \<le> length xs then Some (take i xs @ x # drop i xs) else None)"
| "list_op Arr_pop xs = Some (butlast xs)"
| "list_op (Arr_remove i) xs = (if i < length xs then Some (take i xs @ drop (Suc i) xs) else None)"
| "list_op Arr_clear xs = Some []"
| "list_op Arr_shrink xs = Some xs"
| "list_op (Arr_ensure n) xs = Some xs"

text \<open>The number of elements an operation may ask room for.\<close>

fun growth :: "'a arr_call \<Rightarrow> nat" where
  "growth (Arr_push_n ys) = length ys"
| "growth (Arr_ensure n) = n"
| "growth p = 1"

fun run_ops :: "('p \<Rightarrow> 's \<Rightarrow> 's option) \<Rightarrow> 'p list \<Rightarrow> 's \<Rightarrow> 's option" where
  "run_ops f [] s = Some s"
| "run_ops f (p # ps) s = do { s \<leftarrow> f p s; run_ops f ps s }"

lemma array_shrink_ok:
  assumes "arr_ok es a xs" "fits es (max (length xs) 1)" "alloc_ok A"
  obtains a' where "array_shrink A es a = Some a'" "arr_ok es a' xs"
proof (cases "array_cap a > array_size a")
  case True
  then show thesis
    using that array_resize_ok [OF assms(1) order.refl assms(2,3)] arr_ok_size [OF assms(1)]
    unfolding array_shrink_def by metis
qed (use that assms(1) in \<open>simp add: array_shrink_def\<close>)

lemma array_ensure_ok:
  assumes "arr_ok es a xs" "fits es n" "alloc_ok A"
  obtains a' where "array_ensure A es a n = Some a'" "arr_ok es a' xs"
proof (cases "array_size a < n")
  case True
  then have n: "length xs \<le> n" "max n 1 = n" using arr_ok_size [OF assms(1)] by auto
  obtain r where "array_resize A es a n = Some (Some r)" "arr_ok es (Some r) xs"
    using array_resize_ok [OF assms(1) n(1) _ assms(3)] assms(2) n(2) by metis
  then show thesis using that True unfolding array_ensure_def by simp
qed (use that assms(1) in \<open>simp add: array_ensure_def\<close>)

lemma array_op_ok:
  assumes ok: "arr_ok es a xs" and A: "alloc_ok A" "0 < es" "pot_ok np"
    and l: "length xs + growth p \<le> routes_cap es" and p: "list_op p xs = Some ys"
  obtains a' where "array_op np A es p a = Some a'" "arr_ok es a' ys"
proof -
  note F = routes_cap_fits [OF A(2)] routes_cap_fits2 [OF A(2)]
  have f1: "fits es (2 * length xs)" "fits es 1" if "growth p = 1" using F [of "length xs"] l that by auto
  show thesis
  proof (cases p)
    case (Arr_push x)
    then show thesis using that array_push_back_ok [OF ok f1 A(1), of x] p by auto
  next
    case (Arr_push_n zs)
    then have "fits es (2 * (length xs + length zs))" using F(3) [of "length xs + length zs"] l by simp
    then show thesis using that array_push_back_n_ok [OF ok _ _ A(1,3), of zs] p Arr_push_n by (auto split: if_splits)
  next
    case (Arr_insert x i)
    then show thesis using that array_insert_ok [OF ok _ f1 A(1), of i x] p by (auto split: if_splits)
  next
    case (Arr_remove i)
    then show thesis using that array_remove_ok [OF ok, of i] p by (auto split: if_splits)
  next
    case Arr_shrink
    then have "fits es (max (length xs) 1)" using f1 fits_mono [of es "2 * length xs" "length xs"] by (simp add: max_def)
    then show thesis using that array_shrink_ok [OF ok _ A(1)] p Arr_shrink by auto
  next
    case (Arr_ensure n)
    then have "n \<le> routes_cap es" using l by simp
    then have "fits es n" using fits_mono [OF F(3), of n n] by simp
    then show thesis using that array_ensure_ok [OF ok _ A(1)] p Arr_ensure by auto
  qed (use that p array_pop_back_ok [OF ok] array_clear_ok [OF ok] in auto)
qed

lemma length_list_op: "list_op p xs = Some ys \<Longrightarrow> length ys \<le> length xs + growth p"
  by (cases p) (auto split: if_splits)

lemma run_array_ok:
  assumes A: "alloc_ok A" "0 < es" "pot_ok np"
  shows "arr_ok es a xs \<Longrightarrow> length xs + sum_list (map growth ps) \<le> routes_cap es \<Longrightarrow> run_ops list_op ps xs = Some ys \<Longrightarrow>
    \<exists>a'. run_ops (array_op np A es) ps a = Some a' \<and> arr_ok es a' ys"
proof (induction ps arbitrary: a xs)
  case (Cons p ps)
  obtain zs where z: "list_op p xs = Some zs" "run_ops list_op ps zs = Some ys"
    using Cons.prems(3) by (auto simp: bind_eq_Some_conv)
  obtain a1 where a1: "array_op np A es p a = Some a1" "arr_ok es a1 zs"
    by (rule array_op_ok [OF Cons.prems(1) A _ z(1)]) (use Cons.prems(2) in simp)
  have "length zs + sum_list (map growth ps) \<le> routes_cap es" using length_list_op [OF z(1)] Cons.prems(2) by simp
  then show ?case using Cons.IH [OF a1(2) _ z(2)] a1(1) by auto
qed simp

text \<open>C25. The growing array is equivalent to a list: any sequence of its operations that is within the bounds of
  the list (pushing one or several elements, inserting, popping, removing, clearing, shrinking and
  reserving room), from the null array on, gives an array with exactly the size and the elements of
  the list.\<close>

theorem array_history:
  assumes "alloc_ok A" "0 < es" "pot_ok np" "sum_list (map growth ps) \<le> routes_cap es" "run_ops list_op ps [] = Some xs"
  shows "\<exists>a. run_ops (array_op np A es) ps None = Some a \<and> array_size a = length xs
    \<and> (\<forall>i < length xs. array_get a i = Some (xs ! i))"
proof -
  have "arr_ok es None []" by (simp add: arr_ok_def)
  then obtain a where "run_ops (array_op np A es) ps None = Some a" "arr_ok es a xs"
    using run_array_ok [OF assms(1-3), of None "[]" ps xs] assms(4,5) by auto
  then show ?thesis using arr_ok_size arr_ok_get by blast
qed

text \<open>A function that gives the next power of two.\<close>

primrec pot :: "nat \<Rightarrow> nat" where
  "pot 0 = 1"
| "pot (Suc n) = (if pot n \<ge> Suc n then pot n else 2 * pot n)"

lemma pot_ok_pot: "pot_ok pot"
proof -
  have "n \<le> pot n \<and> pot n < 2 * n" if "0 < n" for n
    using that
  proof (induction n)
    case (Suc n)
    then show ?case by (cases "n = 0") (auto simp: not_less_eq_eq)
  qed simp
  then show ?thesis by (simp add: pot_ok_def)
qed

theorem array_history_witness:
  "\<exists>a. run_ops (array_op pot \<lparr>alloc_fails = \<lambda>_. False, junk = \<lambda>_. NUL\<rparr> 8)
      [Arr_push ''a'', Arr_push ''b'', Arr_insert ''c'' 1, Arr_remove 0, Arr_shrink, Arr_push_n [''d'', ''e''], Arr_pop] None = Some a
    \<and> array_size a = 3 \<and> array_get a 0 = Some ''c'' \<and> array_get a 1 = Some ''b'' \<and> array_get a 2 = Some ''d''"
proof -
  let ?A = "\<lparr>alloc_fails = \<lambda>_. False, junk = \<lambda>_. NUL\<rparr>"
  let ?ps = "[Arr_push ''a'', Arr_push ''b'', Arr_insert ''c'' 1, Arr_remove 0, Arr_shrink, Arr_push_n [''d'', ''e''], Arr_pop]"
  have "run_ops list_op ?ps [] = Some [''c'', ''b'', ''d'']" by simp
  moreover have "sum_list (map growth ?ps) \<le> routes_cap 8" by (simp add: routes_cap_def HEADER_SIZE_def)
  ultimately show ?thesis
    using array_history [of ?A 8 pot ?ps "[''c'', ''b'', ''d'']"] pot_ok_pot
    by (fastforce simp: alloc_ok_def)
qed

end
