(* ===== verification/Cask_Http.thy ===== *)
theory Cask_Http
  imports Cask_Libc
begin

text \<open>
  \<^verbatim>\<open>src/http.h\<close> and \<^verbatim>\<open>src/http.c\<close>: the HTTP enumerations and the tables of their names, and the
  table search of \<^verbatim>\<open>src/request.c\<close>.  The locale \<open>name_table\<close> states what makes such a table
  usable; it is interpreted on the tables of methods and versions.
\<close>

section \<open>Data\<close>

record kv_t =
  kv_s :: string
  kv_len :: int

definition make_kv :: "string \<Rightarrow> int \<Rightarrow> kv_t" where
  "make_kv s len = \<lparr>kv_s = s, kv_len = len\<rparr>"

record string_t =
  off :: int
  len :: int

datatype http_method =
    HTTP_METHOD_GET
  | HTTP_METHOD_HEAD
  | HTTP_METHOD_POST
  | HTTP_METHOD_PUT
  | HTTP_METHOD_DELETE
  | HTTP_METHOD_CONNECT
  | HTTP_METHOD_OPTIONS
  | HTTP_METHOD_TRACE
  | HTTP_METHOD_PATCH
  | HTTP_METHOD_UNKNOWN

datatype http_version =
    HTTP_VERSION_10
  | HTTP_VERSION_11
  | HTTP_VERSION_20
  | HTTP_VERSION_UNKNOWN

datatype http_status =
    HTTP_STATUS_200
  | HTTP_STATUS_400
  | HTTP_STATUS_404
  | HTTP_STATUS_500
  | HTTP_STATUS_UNKNOWN

record http_header =
  hkey :: string_t
  hval :: string_t

datatype http_hkey =
    HTTP_HKEY_CONTENT_LENGTH
  | HTTP_HKEY_CONNECTION
  | HTTP_HKEY_KEEP_ALIVE
  | HTTP_HKEY_UNKNOWN

text \<open>The value of an enumerator, and the conversion of an index back to the enumeration.\<close>

definition methods :: "http_method list" where
  "methods = [HTTP_METHOD_GET, HTTP_METHOD_HEAD, HTTP_METHOD_POST, HTTP_METHOD_PUT,
     HTTP_METHOD_DELETE, HTTP_METHOD_CONNECT, HTTP_METHOD_OPTIONS, HTTP_METHOD_TRACE,
     HTTP_METHOD_PATCH]"

definition versions :: "http_version list" where
  "versions = [HTTP_VERSION_10, HTTP_VERSION_11, HTTP_VERSION_20]"

definition method_of :: "nat \<Rightarrow> http_method" where
  "method_of i = (if i < length methods then methods ! i else HTTP_METHOD_UNKNOWN)"

definition version_of :: "nat \<Rightarrow> http_version" where
  "version_of i = (if i < length versions then versions ! i else HTTP_VERSION_UNKNOWN)"

fun version_index :: "http_version \<Rightarrow> nat" where
  "version_index HTTP_VERSION_10 = 0"
| "version_index HTTP_VERSION_11 = 1"
| "version_index HTTP_VERSION_20 = 2"
| "version_index HTTP_VERSION_UNKNOWN = 3"

fun method_index :: "http_method \<Rightarrow> nat" where
  "method_index HTTP_METHOD_GET = 0"
| "method_index HTTP_METHOD_HEAD = 1"
| "method_index HTTP_METHOD_POST = 2"
| "method_index HTTP_METHOD_PUT = 3"
| "method_index HTTP_METHOD_DELETE = 4"
| "method_index HTTP_METHOD_CONNECT = 5"
| "method_index HTTP_METHOD_OPTIONS = 6"
| "method_index HTTP_METHOD_TRACE = 7"
| "method_index HTTP_METHOD_PATCH = 8"
| "method_index HTTP_METHOD_UNKNOWN = 9"

fun status_index :: "http_status \<Rightarrow> nat" where
  "status_index HTTP_STATUS_200 = 0"
| "status_index HTTP_STATUS_400 = 1"
| "status_index HTTP_STATUS_404 = 2"
| "status_index HTTP_STATUS_500 = 3"
| "status_index HTTP_STATUS_UNKNOWN = 4"

fun hkey_index :: "http_hkey \<Rightarrow> nat" where
  "hkey_index HTTP_HKEY_CONTENT_LENGTH = 0"
| "hkey_index HTTP_HKEY_CONNECTION = 1"
| "hkey_index HTTP_HKEY_KEEP_ALIVE = 2"
| "hkey_index HTTP_HKEY_UNKNOWN = 3"

section \<open>Tables\<close>

definition g_http_methods :: "kv_t list" where
  "g_http_methods =
     [make_kv ''GET'' 3, make_kv ''HEAD'' 4, make_kv ''POST'' 4, make_kv ''PUT'' 3,
      make_kv ''DELETE'' 6, make_kv ''CONNECT'' 7, make_kv ''OPTIONS'' 7, make_kv ''TRACE'' 5,
      make_kv ''PATCH'' 5]"

definition g_http_versions :: "kv_t list" where
  "g_http_versions =
     [make_kv ''HTTP/1.0'' 8, make_kv ''HTTP/1.1'' 8, make_kv ''HTTP/2.0'' 8]"

definition g_http_statuses :: "kv_t list" where
  "g_http_statuses =
     [make_kv ''200 OK'' 6, make_kv ''400 Bad Request'' 15, make_kv ''404 Not Found'' 13,
      make_kv ''500 Internal Server Error'' 25]"

definition g_http_hkeys :: "kv_t list" where
  "g_http_hkeys =
     [make_kv ''Content-Length'' 14, make_kv ''Connection'' 10, make_kv ''Keep-Alive'' 10]"

text \<open>
  The search loop of \<^verbatim>\<open>parse_status_line\<close>: the first entry of the stated length that compares
  equal to the token at \<open>p\<close>.
\<close>

fun lookup_kv :: "kv_t list \<Rightarrow> nat \<Rightarrow> bytes \<Rightarrow> int \<Rightarrow> nat option option" where
  "lookup_kv [] i p l = Some None"
| "lookup_kv (kv # kvs) i p l =
     (if kv_len kv = l
      then do { eq \<leftarrow> strncmp_eq (cstr (kv_s kv)) p (nat l);
                if eq then Some (Some i) else lookup_kv kvs (Suc i) p l }
      else lookup_kv kvs (Suc i) p l)"

section \<open>Interface: a table of names\<close>

locale name_table =
  fixes tbl :: "kv_t list"
  assumes entry_len: "kv \<in> set tbl \<Longrightarrow> kv_len kv = int (length (kv_s kv)) \<and> NUL \<notin> set (kv_s kv)"
    and names_distinct: "distinct (map kv_s tbl)"
begin

text \<open>Entries that are not the token are passed over.\<close>

lemma lookup_skip:
  assumes "set xs \<subseteq> set tbl" and "n \<notin> kv_s ` set xs" and "take (length n) p = n"
  shows "lookup_kv (xs @ ys) k p (int (length n)) = lookup_kv ys (k + length xs) p (int (length n))"
  using assms(1,2)
proof (induction xs arbitrary: k)
  case Nil
  then show ?case by simp
next
  case (Cons kv xs)
  have len: "length n \<le> length p" using assms(3) by (metis length_take min.cobounded1)
  have "lookup_kv (kv # xs @ ys) k p (int (length n)) = lookup_kv (xs @ ys) (Suc k) p (int (length n))"
  proof (cases "kv_len kv = int (length n)")
    case True
    then have "strncmp_eq (cstr (kv_s kv)) p (length n) = Some False"
      using entry_len [of kv] strncmp_eq_literal [of "kv_s kv" p] len assms(3) Cons.prems by auto
    then show ?thesis using True by simp
  next
    case False
    then show ?thesis by simp
  qed
  then show ?case using Cons by simp
qed

text \<open>The search returns the index of the entry that is the token, and finds nothing else.\<close>

lemma lookup_finds:
  assumes "i < length tbl" and "kv_s (tbl ! i) = n" and "take (length n) p = n"
  shows "lookup_kv tbl 0 p (int (length n)) = Some (Some i)"
proof -
  have split: "tbl = take i tbl @ tbl ! i # drop (Suc i) tbl"
    using assms(1) by (rule id_take_nth_drop)
  have "distinct (map kv_s (take i tbl) @ kv_s (tbl ! i) # map kv_s (drop (Suc i) tbl))"
    using names_distinct split by (metis list.simps(9) map_append)
  then have "n \<notin> kv_s ` set (take i tbl)" using assms(2) by auto
  then have "lookup_kv (take i tbl @ tbl ! i # drop (Suc i) tbl) 0 p (int (length n)) =
      lookup_kv (tbl ! i # drop (Suc i) tbl) (0 + length (take i tbl)) p (int (length n))"
    using assms(3) by (intro lookup_skip) (auto dest: in_set_takeD)
  moreover have "strncmp_eq (cstr n) p (length n) = Some True"
    using strncmp_eq_literal [of n p] entry_len [of "tbl ! i"] assms
    by (metis length_take min.cobounded1 nth_mem)
  moreover have "kv_len (tbl ! i) = int (length n)"
    using entry_len [of "tbl ! i"] assms by simp
  ultimately show ?thesis using assms split by simp
qed

lemma lookup_total:
  assumes "set kvs \<subseteq> set tbl" and "nat l \<le> length p"
  shows "\<exists>r. lookup_kv kvs i p l = Some r"
  using assms(1)
proof (induction kvs arbitrary: i)
  case Nil
  then show ?case by simp
next
  case (Cons kv kvs)
  then have IH: "\<exists>r. lookup_kv kvs (Suc i) p l = Some r" by simp
  show ?case
  proof (cases "kv_len kv = l")
    case True
    then have "nat l = length (kv_s kv)" "NUL \<notin> set (kv_s kv)" using entry_len [of kv] Cons.prems by auto
    then have "strncmp_eq (cstr (kv_s kv)) p (nat l) = Some (take (nat l) p = kv_s kv)"
      using strncmp_eq_literal [of "kv_s kv" p] assms(2) by simp
    then show ?thesis using True IH by simp
  next
    case False
    then show ?thesis using IH by simp
  qed
qed

lemma lookup_misses:
  assumes "n \<notin> kv_s ` set tbl" and "take (length n) p = n"
  shows "lookup_kv tbl 0 p (int (length n)) = Some None"
  using assms lookup_skip [of tbl n p "[]" 0] by simp

end

interpretation method_names: name_table g_http_methods
  by unfold_locales (auto simp: g_http_methods_def make_kv_def)

interpretation version_names: name_table g_http_versions
  by unfold_locales (auto simp: g_http_versions_def make_kv_def)

interpretation status_names: name_table g_http_statuses
  by unfold_locales (auto simp: g_http_statuses_def make_kv_def)

interpretation hkey_names: name_table g_http_hkeys
  by unfold_locales (auto simp: g_http_hkeys_def make_kv_def)

definition method_name :: "http_method \<Rightarrow> string" where
  "method_name m = kv_s (g_http_methods ! method_index m)"

definition version_name :: "http_version \<Rightarrow> string" where
  "version_name v = kv_s (g_http_versions ! version_index v)"

lemmas table_defs = method_name_def version_name_def g_http_methods_def g_http_versions_def
  make_kv_def method_of_def version_of_def methods_def versions_def

lemma method_of_index [simp]: "method_of (method_index m) = m"
  by (cases m) (simp_all add: table_defs)

lemma version_of_index [simp]: "version_of (version_index v) = v"
  by (cases v) (simp_all add: table_defs)

lemma method_index_less: "m \<noteq> HTTP_METHOD_UNKNOWN \<Longrightarrow> method_index m < length g_http_methods"
  by (cases m) (simp_all add: table_defs)

lemma version_index_less: "v \<noteq> HTTP_VERSION_UNKNOWN \<Longrightarrow> version_index v < length g_http_versions"
  by (cases v) (simp_all add: table_defs)

lemma lookup_method:
  assumes "m \<noteq> HTTP_METHOD_UNKNOWN" and "take (length (method_name m)) p = method_name m"
  shows "lookup_kv g_http_methods 0 p (int (length (method_name m))) = Some (Some (method_index m))"
  using assms by (intro method_names.lookup_finds) (auto simp: method_index_less method_name_def)

lemma lookup_version:
  assumes "v \<noteq> HTTP_VERSION_UNKNOWN" and "take (length (version_name v)) p = version_name v"
  shows "lookup_kv g_http_versions 0 p (int (length (version_name v))) = Some (Some (version_index v))"
  using assms by (intro version_names.lookup_finds) (auto simp: version_index_less version_name_def)

end
