(* ===== verification/Cask_Route.thy ===== *)
theory Cask_Route
  imports Cask_Array Cask_Http
begin

text \<open>
  \<^verbatim>\<open>src/route.h\<close> and \<^verbatim>\<open>src/route.c\<close>: the table of routes, an array of \<^verbatim>\<open>array.h\<close>, and the choice of the
  route for a request.  A URI is the memory behind the pointer: for a route a C string, for a
  request the bytes of the buffer from the URI on, which are not terminated.  \<open>'c\<close> is a callback with
  its data pointer.
\<close>

section \<open>Data and operations\<close>

datatype route_match = ROUTE_MATCH_EXACT | ROUTE_MATCH_PREFIX

record 'c route =
  rtmethod :: http_method
  rtmatch :: route_match
  rturi :: bytes
  rtlen :: nat
  rtcb :: 'c

type_synonym 'c routes = "'c route arr option"

definition ROUTE_SIZE :: nat where "ROUTE_SIZE = 40"

definition strlen :: "bytes \<Rightarrow> nat option" where
  "strlen bs = (if NUL \<in> set bs then Some (length (takeWhile (\<lambda>c. c \<noteq> NUL) bs)) else None)"

definition add_route ::
  "'b alloc_scheme \<Rightarrow> 'c routes \<Rightarrow> http_method \<Rightarrow> route_match \<Rightarrow> bytes \<Rightarrow> 'c \<Rightarrow> 'c routes option" where
  "add_route A rs m mt uri cb =
     do { l \<leftarrow> strlen uri;
          array_push_back A ROUTE_SIZE rs
            \<lparr>rtmethod = m, rtmatch = mt, rturi = uri, rtlen = l, rtcb = cb\<rparr> }"

text \<open>The loop of \<^verbatim>\<open>match_route\<close> from index \<open>i\<close>, with \<open>k\<close> routes left.\<close>

fun match_loop ::
  "'c routes \<Rightarrow> http_method \<Rightarrow> bytes \<Rightarrow> nat \<Rightarrow> nat \<Rightarrow> nat \<Rightarrow> 'c route option \<Rightarrow> nat \<Rightarrow> 'c route option option" where
  "match_loop rs m uri l i 0 best longest = Some best"
| "match_loop rs m uri l i (Suc k) best longest =
     do { r \<leftarrow> array_get rs i;
          if rtmethod r \<noteq> m then match_loop rs m uri l (Suc i) k best longest
          else if rtmatch r = ROUTE_MATCH_EXACT
          then if rtlen r = l
               then do { eq \<leftarrow> strncmp_eq (rturi r) uri (rtlen r);
                         if eq then Some (Some r) else match_loop rs m uri l (Suc i) k best longest }
               else match_loop rs m uri l (Suc i) k best longest
          else do { eq \<leftarrow> strncmp_eq (rturi r) uri (rtlen r);
                    if eq \<and> rtlen r > longest
                    then match_loop rs m uri l (Suc i) k (Some r) (rtlen r)
                    else match_loop rs m uri l (Suc i) k best longest } }"

definition match_route :: "'c routes \<Rightarrow> http_method \<Rightarrow> bytes \<Rightarrow> nat \<Rightarrow> 'c route option option" where
  "match_route rs m uri l = match_loop rs m uri l 0 (array_size rs) None 0"

section \<open>What is matched\<close>

text \<open>\<open>rt_text\<close> is the URI of a route without its terminator.\<close>

definition rt_text :: "'c route \<Rightarrow> bytes" where
  "rt_text r = take (rtlen r) (rturi r)"

definition route_ok :: "bytes \<Rightarrow> 'c route \<Rightarrow> bool" where
  "route_ok uri r \<longleftrightarrow> NUL \<notin> set (rt_text r) \<and> rturi r = cstr (rt_text r) \<and> rtlen r \<le> length uri"

definition exact_hit :: "http_method \<Rightarrow> bytes \<Rightarrow> nat \<Rightarrow> 'c route \<Rightarrow> bool" where
  "exact_hit m uri l r \<longleftrightarrow>
     rtmethod r = m \<and> rtmatch r = ROUTE_MATCH_EXACT \<and> rtlen r = l \<and> take l uri = rt_text r"

definition prefix_hit :: "http_method \<Rightarrow> bytes \<Rightarrow> 'c route \<Rightarrow> bool" where
  "prefix_hit m uri r \<longleftrightarrow>
     rtmethod r = m \<and> rtmatch r = ROUTE_MATCH_PREFIX \<and> take (rtlen r) uri = rt_text r"

lemma route_strncmp:
  assumes "route_ok uri r"
  shows "strncmp_eq (rturi r) uri (rtlen r) = Some (take (rtlen r) uri = rt_text r)"
proof -
  have "length (rt_text r) = rtlen r"
  proof -
    have "length (rturi r) = Suc (length (rt_text r))" using assms by (metis route_ok_def cstr_def length_append_singleton)
    then show ?thesis by (auto simp: rt_text_def min_def)
  qed
  then show ?thesis using strncmp_eq_literal [of "rt_text r" uri] assms by (simp add: route_ok_def)
qed

text \<open>The route chosen: the first exact match, else the first of the longest non-empty prefixes.\<close>

definition better :: "'c route option \<Rightarrow> 'c route \<Rightarrow> 'c route option" where
  "better best r = (if rtlen r > (case best of None \<Rightarrow> 0 | Some b \<Rightarrow> rtlen b) then Some r else best)"

definition chosen :: "http_method \<Rightarrow> bytes \<Rightarrow> nat \<Rightarrow> 'c route option \<Rightarrow> 'c route list \<Rightarrow> 'c route option" where
  "chosen m uri l best rs =
     (case find (exact_hit m uri l) rs of
        Some r \<Rightarrow> Some r
      | None \<Rightarrow> foldl better best (filter (prefix_hit m uri) rs))"

lemma chosen_simps:
  "chosen m uri l best [] = best"
  "chosen m uri l best (r # rs) =
     (if exact_hit m uri l r then Some r
      else chosen m uri l (if prefix_hit m uri r then better best r else best) rs)"
  by (auto simp: chosen_def split: option.splits)

lemma match_loop_chosen:
  assumes a: "arr_ok es a rs" and ok: "\<forall>r\<in>set rs. route_ok uri r"
  shows "i + k = length rs \<Longrightarrow> longest = (case best of None \<Rightarrow> 0 | Some b \<Rightarrow> rtlen b) \<Longrightarrow>
    match_loop a m uri l i k best longest = Some (chosen m uri l best (drop i rs))"
proof (induction k arbitrary: i best longest)
  case 0
  then show ?case by (simp add: chosen_simps)
next
  case (Suc k)
  let ?r = "rs ! i"
  have i: "i < length rs" using Suc.prems by simp
  have g: "array_get a i = Some ?r" by (rule arr_ok_get [OF a i])
  have s: "strncmp_eq (rturi ?r) uri (rtlen ?r) = Some (take (rtlen ?r) uri = rt_text ?r)"
    by (rule route_strncmp) (use ok i in simp)
  have d: "drop i rs = ?r # drop (Suc i) rs" using i by (simp add: Cons_nth_drop_Suc)
  have IH: "match_loop a m uri l (Suc i) k best longest = Some (chosen m uri l best (drop (Suc i) rs))"
    using Suc by simp
  have IH2: "match_loop a m uri l (Suc i) k (Some ?r) (rtlen ?r) = Some (chosen m uri l (Some ?r) (drop (Suc i) rs))"
    by (rule Suc.IH) (use Suc.prems in simp_all)
  show ?case unfolding d chosen_simps
    using g s IH IH2 Suc.prems(2)
    by (cases "rtmatch ?r") (auto simp: exact_hit_def prefix_hit_def better_def)
qed

lemma foldl_better:
  "case foldl better best rs of
     None \<Rightarrow> best = None \<and> (\<forall>r\<in>set rs. rtlen r = 0)
   | Some r \<Rightarrow> (r \<in> set rs \<or> best = Some r) \<and> (\<forall>r'\<in>set rs. rtlen r' \<le> rtlen r)
       \<and> (\<forall>b. best = Some b \<longrightarrow> rtlen b \<le> rtlen r)"
proof (induction rs arbitrary: best)
  case Nil
  then show ?case by (auto split: option.split)
next
  case (Cons r rs)
  show ?case using Cons.IH [of "better best r"]
    by (auto simp: better_def split: option.splits if_splits)
qed

lemma match_route_chosen:
  assumes "arr_ok es a rs" "\<forall>r\<in>set rs. route_ok uri r"
  shows "match_route a m uri l = Some (chosen m uri l None rs)"
  using match_loop_chosen [OF assms, of 0 "length rs" 0 None m l] arr_ok_size [OF assms(1)]
  by (simp add: match_route_def)

lemma strlen_cstr: "NUL \<notin> set s \<Longrightarrow> strlen (cstr s) = Some (length s)"
proof -
  assume "NUL \<notin> set s"
  then have "takeWhile (\<lambda>c. c \<noteq> NUL) (s @ [NUL]) = s" by (subst takeWhile_append2) auto
  then show ?thesis by (simp add: strlen_def cstr_def)
qed

text \<open>The route of \<^verbatim>\<open>add_route\<close> for a literal.\<close>

definition literal_route :: "http_method \<Rightarrow> route_match \<Rightarrow> string \<Rightarrow> 'c \<Rightarrow> 'c route" where
  "literal_route m mt s cb = \<lparr>rtmethod = m, rtmatch = mt, rturi = cstr s, rtlen = length s, rtcb = cb\<rparr>"

lemma literal_route_ok: "NUL \<notin> set s \<Longrightarrow> length s \<le> length uri \<Longrightarrow> route_ok uri (literal_route m mt s cb)"
  by (simp add: route_ok_def literal_route_def rt_text_def cstr_def)

lemma rt_text_literal [simp]: "rt_text (literal_route m mt s cb) = s"
  by (simp add: rt_text_def literal_route_def cstr_def)

lemma add_route_literal:
  "NUL \<notin> set s \<Longrightarrow>
     add_route A rs m mt (cstr s) cb = array_push_back A ROUTE_SIZE rs (literal_route m mt s cb)"
  by (simp add: add_route_def strlen_cstr literal_route_def)

text \<open>C26. \<^verbatim>\<open>match_route\<close> on a table of routes for C strings, with at least as many bytes behind the request
  pointer as any route has, returns: a route of the request's method whose URI is exactly the one
  of the request, if there is one that asks for an exact match; otherwise a prefix route of that
  method with the longest URI among those the request starts with; and a null pointer only if there
  is neither.  The comparison of a prefix route is not limited to the length of the request's URI.\<close>

theorem match_route_correct:
  assumes "arr_ok ROUTE_SIZE a rs" "\<forall>r\<in>set rs. route_ok uri r"
  shows "\<exists>res. match_route a m uri l = Some res \<and>
    (case res of
       None \<Rightarrow> (\<forall>r\<in>set rs. \<not> exact_hit m uri l r \<and> (prefix_hit m uri r \<longrightarrow> rtlen r = 0))
     | Some r \<Rightarrow> r \<in> set rs \<and>
         (exact_hit m uri l r \<or>
          (\<forall>r'\<in>set rs. \<not> exact_hit m uri l r') \<and> prefix_hit m uri r
          \<and> (\<forall>r'\<in>set rs. prefix_hit m uri r' \<longrightarrow> rtlen r' \<le> rtlen r)))"
proof -
  have "case chosen m uri l None rs of
       None \<Rightarrow> (\<forall>r\<in>set rs. \<not> exact_hit m uri l r \<and> (prefix_hit m uri r \<longrightarrow> rtlen r = 0))
     | Some r \<Rightarrow> r \<in> set rs \<and>
         (exact_hit m uri l r \<or>
          (\<forall>r'\<in>set rs. \<not> exact_hit m uri l r') \<and> prefix_hit m uri r
          \<and> (\<forall>r'\<in>set rs. prefix_hit m uri r' \<longrightarrow> rtlen r' \<le> rtlen r))"
  proof (cases "find (exact_hit m uri l) rs")
    case (Some r)
    then have "r \<in> set rs" "exact_hit m uri l r" by (auto simp: find_Some_iff)
    then show ?thesis using Some by (simp add: chosen_def)
  next
    case None
    then have "\<forall>r\<in>set rs. \<not> exact_hit m uri l r" by (simp add: find_None_iff)
    then show ?thesis using None foldl_better [of None "filter (prefix_hit m uri) rs"]
      by (auto simp: chosen_def split: option.splits)
  qed
  then show ?thesis using match_route_chosen [OF assms] by simp
qed

definition demo_routes :: "nat route list" where
  "demo_routes = [literal_route HTTP_METHOD_GET ROUTE_MATCH_EXACT ''/'' 1,
     literal_route HTTP_METHOD_GET ROUTE_MATCH_PREFIX ''/'' 2,
     literal_route HTTP_METHOD_GET ROUTE_MATCH_PREFIX ''/doc'' 3]"

theorem match_route_correct_witness:
  "match_route (Some \<lparr>asz = 3, acap = 3, amem = map Some demo_routes\<rparr>) HTTP_METHOD_GET ''/doc/1 HTTP/1.1'' 6
     = Some (Some (literal_route HTTP_METHOD_GET ROUTE_MATCH_PREFIX ''/doc'' 3))"
proof -
  let ?a = "Some \<lparr>asz = 3, acap = 3, amem = map Some demo_routes\<rparr>"
  let ?u = "''/doc/1 HTTP/1.1''"
  have ok: "arr_ok ROUTE_SIZE ?a demo_routes" by (simp add: arr_ok_def demo_routes_def)
  have rs: "\<forall>r\<in>set demo_routes. route_ok ?u r" by (simp add: demo_routes_def literal_route_ok)
  obtain res where res: "match_route ?a HTTP_METHOD_GET ?u 6 = Some res"
    "case res of
       None \<Rightarrow> (\<forall>r\<in>set demo_routes. \<not> exact_hit HTTP_METHOD_GET ?u 6 r \<and> (prefix_hit HTTP_METHOD_GET ?u r \<longrightarrow> rtlen r = 0))
     | Some r \<Rightarrow> r \<in> set demo_routes \<and>
         (exact_hit HTTP_METHOD_GET ?u 6 r \<or>
          (\<forall>r'\<in>set demo_routes. \<not> exact_hit HTTP_METHOD_GET ?u 6 r') \<and> prefix_hit HTTP_METHOD_GET ?u r
          \<and> (\<forall>r'\<in>set demo_routes. prefix_hit HTTP_METHOD_GET ?u r' \<longrightarrow> rtlen r' \<le> rtlen r))"
    using match_route_correct [OF ok rs, of HTTP_METHOD_GET 6] by blast
  have "prefix_hit HTTP_METHOD_GET ?u (literal_route HTTP_METHOD_GET ROUTE_MATCH_PREFIX ''/doc'' (3::nat))"
    by (simp add: prefix_hit_def) (simp add: literal_route_def)
  then have "res = Some (literal_route HTTP_METHOD_GET ROUTE_MATCH_PREFIX ''/doc'' 3)"
    using res(2) by (auto simp: demo_routes_def exact_hit_def literal_route_def split: option.splits)
  then show ?thesis using res(1) by simp
qed

end
