(* ===== verification/Cask_Buffer.thy ===== *)
theory Cask_Buffer
  imports Cask_Libc
begin

text \<open>
  \<^verbatim>\<open>src/buffer.h\<close> and \<^verbatim>\<open>src/buffer.c\<close>: the growable byte buffer of a connection.  The object
  behind \<^verbatim>\<open>data\<close> is a byte list as long as the allocation; \<^term>\<open>None\<close> is the null pointer.
  The theory also states the contract of a byte sink, the interface \<^verbatim>\<open>send_response\<close> relies on,
  and interprets it on \<^verbatim>\<open>push_buffer\<close>.
\<close>

record buffer_t =
  bsize :: nat
  bcap :: nat
  bdata :: "bytes option"

definition create_buffer :: "'a alloc_scheme \<Rightarrow> buffer_t option" where
  "create_buffer A =
     (if alloc_fails A 24 then None else Some \<lparr>bsize = 0, bcap = 0, bdata = None\<rparr>)"

definition clear_buffer :: "buffer_t \<Rightarrow> buffer_t" where
  "clear_buffer buf = buf\<lparr>bsize := 0\<rparr>"

definition mem_of :: "bytes option \<Rightarrow> bytes" where
  "mem_of d = (case d of None \<Rightarrow> [] | Some bs \<Rightarrow> bs)"

definition resize_buffer :: "'a alloc_scheme \<Rightarrow> buffer_t \<Rightarrow> nat \<Rightarrow> int \<times> buffer_t" where
  "resize_buffer A buf n =
     (if n = 0 then (OK, buf\<lparr>bsize := 0, bdata := None\<rparr>)
      else case realloc A (mem_of (bdata buf)) n of
             None \<Rightarrow> (ERR, buf)
           | Some tmp \<Rightarrow>
               (OK, buf\<lparr>bsize := (if bsize buf > n then n else bsize buf),
                        bcap := n, bdata := Some tmp\<rparr>))"

definition push_bytes :: "buffer_t \<Rightarrow> bytes \<Rightarrow> nat \<Rightarrow> (int \<times> buffer_t) option" where
  "push_bytes buf data n =
     do { d \<leftarrow> bdata buf;
          d' \<leftarrow> memcpy d (bsize buf) data n;
          Some (OK, buf\<lparr>bdata := Some d', bsize := size_add (bsize buf) n\<rparr>) }"

definition push_buffer ::
  "'a alloc_scheme \<Rightarrow> buffer_t \<Rightarrow> bytes \<Rightarrow> nat \<Rightarrow> (int \<times> buffer_t) option" where
  "push_buffer A buf data n =
     (if size_add (bsize buf) n > bcap buf
      then (let (ret, buf') = resize_buffer A buf (size_add (bsize buf) n)
            in if ret \<noteq> OK then Some (ERR, buf') else push_bytes buf' data n)
      else push_bytes buf data n)"

section \<open>The buffer invariant\<close>

definition buffer_ok :: "buffer_t \<Rightarrow> bool" where
  "buffer_ok b = (case bdata b of None \<Rightarrow> bcap b = 0 \<and> bsize b = 0
     | Some d \<Rightarrow> length d = bcap b \<and> bsize b \<le> bcap b \<and> bcap b < 2 ^ 64)"

definition contents :: "buffer_t \<Rightarrow> bytes" where
  "contents b = take (bsize b) (mem_of (bdata b))"

lemma mem_of_simps [simp]: "mem_of None = []" "mem_of (Some d) = d"
  by (simp_all add: mem_of_def)

lemma buffer_ok_size: "buffer_ok b \<Longrightarrow> bsize b \<le> bcap b \<and> length (mem_of (bdata b)) = bcap b"
  by (auto simp: buffer_ok_def split: option.splits)

lemma length_contents [simp]: "buffer_ok b \<Longrightarrow> length (contents b) = bsize b"
  by (auto dest: buffer_ok_size simp: contents_def)

lemma contents_clear [simp]: "contents (clear_buffer b) = []"
  by (simp add: contents_def clear_buffer_def)

lemma buffer_ok_clear [simp]: "buffer_ok b \<Longrightarrow> buffer_ok (clear_buffer b)"
  by (auto simp: buffer_ok_def clear_buffer_def split: option.splits)

lemma resize_buffer_ok:
  assumes "resize_buffer A b n = (ret, b')" and "buffer_ok b" and "0 < n" and "n < 2 ^ 64"
  shows "buffer_ok b' \<and> (ret = ERR \<and> b' = b \<or>
           ret = OK \<and> bcap b' = n \<and> contents b' = take n (contents b))"
proof (cases "realloc A (mem_of (bdata b)) n")
  case None
  then show ?thesis using assms by (auto simp: resize_buffer_def)
next
  case (Some tmp)
  note size = buffer_ok_size [OF assms(2)]
  have "take (min n (bsize b)) tmp = take (min n (bsize b)) (mem_of (bdata b))"
    by (rule realloc_take [OF Some]) (use size in auto)
  then show ?thesis
    using assms Some realloc_length [OF Some]
    by (auto simp: resize_buffer_def buffer_ok_def contents_def min_def)
qed

lemma push_bytes_ok:
  assumes "buffer_ok b" and "bsize b + n \<le> bcap b" and "n \<le> length data" and "bdata b \<noteq> None"
  shows "\<exists>b'. push_bytes b data n = Some (OK, b') \<and> buffer_ok b' \<and>
           contents b' = contents b @ take n data \<and> bcap b' = bcap b"
proof -
  obtain d where d: "bdata b = Some d" using assms(4) by auto
  with assms have len: "length d = bcap b" "bcap b < 2 ^ 64" by (auto simp: buffer_ok_def)
  then show ?thesis
    using assms d by (simp add: push_bytes_def memcpy_ok buffer_ok_def contents_def)
qed

text \<open>Pushing a non-empty chunk either appends it or, when the allocator refuses, changes nothing.\<close>

lemma push_buffer_spec:
  assumes ok: "buffer_ok b" and room: "bsize b + n < 2 ^ 64" and n: "0 < n" "n \<le> length data"
  shows "\<exists>ret b'. push_buffer A b data n = Some (ret, b') \<and> buffer_ok b' \<and>
           (ret = OK \<and> contents b' = contents b @ take n data \<or> ret = ERR \<and> b' = b)"
proof (cases "bsize b + n > bcap b")
  case True
  obtain ret b1 where r: "resize_buffer A b (bsize b + n) = (ret, b1)" by fastforce
  note rok = resize_buffer_ok [OF r ok]
  show ?thesis
  proof (cases "ret = OK")
    case False
    then show ?thesis using True r rok room n by (auto simp: push_buffer_def)
  next
    case ret: True
    then have b1: "buffer_ok b1" "bcap b1 = bsize b + n" "contents b1 = contents b"
      using rok room n ok by auto
    then have "bsize b1 = bsize b" "bdata b1 \<noteq> None"
      using ok n length_contents [OF b1(1)] length_contents [OF ok]
      by (auto simp: buffer_ok_def split: option.splits)
    then obtain b' where "push_bytes b1 data n = Some (OK, b')" "buffer_ok b'"
        "contents b' = contents b @ take n data"
      using push_bytes_ok [of b1 n data] b1 n by auto
    then show ?thesis using True r ret room by (auto simp: push_buffer_def)
  qed
next
  case False
  then have "bdata b \<noteq> None" using ok n by (auto simp: buffer_ok_def split: option.splits)
  then show ?thesis
    using push_bytes_ok [OF ok _ n(2)] False room by (fastforce simp: push_buffer_def)
qed

lemma push_buffer_succeeds:
  assumes "alloc_ok A" and "buffer_ok b" and "bsize b + n < 2 ^ 64" and "0 < n" "n \<le> length data"
  shows "\<exists>b'. push_buffer A b data n = Some (OK, b') \<and> buffer_ok b' \<and>
           contents b' = contents b @ take n data"
proof (cases "bsize b + n > bcap b")
  case True
  then have "fst (resize_buffer A b (bsize b + n)) = OK"
    using assms realloc_ok [of A "mem_of (bdata b)" "bsize b + n"] by (auto simp: resize_buffer_def)
  then have "push_buffer A b data n \<noteq> Some (ERR, b')" for b'
    using True assms(3)
    by (auto simp: push_buffer_def push_bytes_def Let_def split: prod.splits option.splits
             simp: bind_eq_Some_conv)
  then show ?thesis using push_buffer_spec [OF assms(2-5), of A] by auto
next
  case False
  then have "push_buffer A b data n \<noteq> Some (ERR, b')" for b'
    using assms(3) by (auto simp: push_buffer_def push_bytes_def bind_eq_Some_conv)
  then show ?thesis using push_buffer_spec [OF assms(2-5), of A] by auto
qed

section \<open>Interface: a byte sink\<close>

text \<open>
  What \<^verbatim>\<open>send_response\<close> needs of its buffer: pushing chunks one after the other stores their
  concatenation.  \<open>push e s c\<close> pushes the whole chunk \<open>c\<close> in the environment \<open>e\<close>.
\<close>

fun push_all :: "('s \<Rightarrow> bytes \<Rightarrow> 's option) \<Rightarrow> 's \<Rightarrow> bytes list \<Rightarrow> 's option" where
  "push_all f s [] = Some s"
| "push_all f s (c # cs) = (case f s c of None \<Rightarrow> None | Some s' \<Rightarrow> push_all f s' cs)"

locale byte_sink =
  fixes push :: "'e \<Rightarrow> 's \<Rightarrow> bytes \<Rightarrow> 's option"
    and stored :: "'s \<Rightarrow> bytes"
    and inv :: "'e \<Rightarrow> 's \<Rightarrow> bool"
    and room :: nat
  assumes push_stores: "inv e s \<Longrightarrow> c \<noteq> [] \<Longrightarrow> length (stored s) + length c < room \<Longrightarrow>
    \<exists>s'. push e s c = Some s' \<and> inv e s' \<and> stored s' = stored s @ c"
begin

lemma push_all_stores:
  assumes "inv e s" and "[] \<notin> set cs" and "length (stored s) + length (concat cs) < room"
  shows "\<exists>s'. push_all (push e) s cs = Some s' \<and> inv e s' \<and> stored s' = stored s @ concat cs"
  using assms
proof (induction cs arbitrary: s)
  case Nil
  then show ?case by simp
next
  case (Cons c cs)
  then obtain s1 where "push e s c = Some s1" "inv e s1" "stored s1 = stored s @ c"
    using push_stores [of e s c] by auto
  with Cons show ?case by fastforce
qed

end

definition push_chunk :: "'a alloc_scheme \<Rightarrow> buffer_t \<Rightarrow> bytes \<Rightarrow> buffer_t option" where
  "push_chunk A b c = (case push_buffer A b c (length c) of
     Some (ret, b') \<Rightarrow> if ret = OK then Some b' else None | None \<Rightarrow> None)"

interpretation buf: byte_sink push_chunk contents "\<lambda>A b. alloc_ok A \<and> buffer_ok b" "2 ^ 64"
proof unfold_locales
  fix A :: "'a alloc_scheme" and b :: buffer_t and c :: bytes
  assume inv: "alloc_ok A \<and> buffer_ok b" and "c \<noteq> []" and "length (contents b) + length c < 2 ^ 64"
  then have "bsize b + length c < 2 ^ 64" "0 < length c" by auto
  then show "\<exists>b'. push_chunk A b c = Some b' \<and> (alloc_ok A \<and> buffer_ok b') \<and> contents b' = contents b @ c"
    using push_buffer_succeeds [of A b "length c" c] inv by (auto simp: push_chunk_def)
qed

section \<open>Histories\<close>

datatype buf_call = Buf_push bytes | Buf_clear | Buf_resize nat

fun buf_op :: "'a alloc_scheme \<Rightarrow> buf_call \<Rightarrow> buffer_t \<Rightarrow> (int \<times> buffer_t) option" where
  "buf_op A (Buf_push bs) b = push_buffer A b bs (length bs)"
| "buf_op A Buf_clear b = Some (OK, clear_buffer b)"
| "buf_op A (Buf_resize n) b = Some (resize_buffer A b n)"

text \<open>The calls with the allocator of the moment; the result has what each call returned.\<close>

fun run_buf :: "('a alloc_scheme \<times> buf_call) list \<Rightarrow> buffer_t \<Rightarrow> (int list \<times> buffer_t) option" where
  "run_buf [] b = Some ([], b)"
| "run_buf ((A, p) # ps) b =
     do { (ret, b) \<leftarrow> buf_op A p b; (rets, b) \<leftarrow> run_buf ps b; Some (ret # rets, b) }"

text \<open>The same on byte strings: a call that fails has no effect.\<close>

fun bytes_op :: "buf_call \<Rightarrow> int \<Rightarrow> bytes \<Rightarrow> bytes" where
  "bytes_op (Buf_push bs) ret xs = (if ret = OK then xs @ bs else xs)"
| "bytes_op Buf_clear ret xs = []"
| "bytes_op (Buf_resize n) ret xs = (if ret = OK then take n xs else xs)"

fun run_bytes :: "buf_call list \<Rightarrow> int list \<Rightarrow> bytes \<Rightarrow> bytes" where
  "run_bytes (p # ps) (r # rs) xs = run_bytes ps rs (bytes_op p r xs)"
| "run_bytes _ _ xs = xs"

fun call_ok :: "buf_call \<Rightarrow> bool" where
  "call_ok (Buf_push bs) = (bs \<noteq> [])"
| "call_ok Buf_clear = True"
| "call_ok (Buf_resize n) = (0 < n \<and> n < 2 ^ 64)"

fun pushed :: "buf_call \<Rightarrow> nat" where
  "pushed (Buf_push bs) = length bs"
| "pushed _ = 0"

lemma buf_op_ok:
  assumes b: "buffer_ok b" and p: "call_ok p" "length (contents b) + pushed p < 2 ^ 64"
  obtains ret b' where "buf_op A p b = Some (ret, b')" "buffer_ok b'" "contents b' = bytes_op p ret (contents b)" "ret \<in> {OK, ERR}"
proof (cases p)
  case (Buf_push bs)
  then show thesis using that push_buffer_spec [OF b, of "length bs" bs A] p b by auto
next
  case (Buf_resize n)
  obtain ret b' where r: "resize_buffer A b n = (ret, b')" by fastforce
  then show thesis using that resize_buffer_ok [OF r b] p Buf_resize by auto
qed (use that b in auto)

lemma length_bytes_op: "length (bytes_op p r xs) \<le> length xs + pushed p"
  by (cases p) auto

lemma run_buf_ok:
  "buffer_ok b \<Longrightarrow> \<forall>x\<in>set ps. call_ok (snd x) \<Longrightarrow> length (contents b) + (\<Sum>x\<leftarrow>ps. pushed (snd x)) < 2 ^ 64 \<Longrightarrow>
    \<exists>rets b'. run_buf ps b = Some (rets, b') \<and> length rets = length ps \<and> set rets \<subseteq> {OK, ERR} \<and> buffer_ok b'
      \<and> contents b' = run_bytes (map snd ps) rets (contents b)"
proof (induction ps arbitrary: b)
  case (Cons x ps)
  obtain A p where x: "x = (A, p)" by fastforce
  obtain ret b1 where b1: "buf_op A p b = Some (ret, b1)" "buffer_ok b1" "contents b1 = bytes_op p ret (contents b)" "ret \<in> {OK, ERR}"
    by (rule buf_op_ok [OF Cons.prems(1), of p A]) (use Cons.prems(2,3) x in auto)
  have "length (contents b1) + (\<Sum>x\<leftarrow>ps. pushed (snd x)) < 2 ^ 64"
    using Cons.prems(3) length_bytes_op [of p ret "contents b"] x unfolding b1(3) by simp
  then obtain rets b' where "run_buf ps b1 = Some (rets, b')" "length rets = length ps" "set rets \<subseteq> {OK, ERR}" "buffer_ok b'"
    "contents b' = run_bytes (map snd ps) rets (contents b1)"
    using Cons.IH [OF b1(2)] Cons.prems(2) by auto
  then show ?case using x b1 by auto
qed simp

section \<open>Properties\<close>



text \<open>Resizing to nothing frees the bytes and keeps the capacity: the next push goes through a null pointer.\<close>

theorem resize_buffer_zero:
  assumes "resize_buffer A b 0 = (ret, b')" "n \<le> bcap b" "bcap b < 2 ^ 64"
  shows "bcap b' = bcap b \<and> push_buffer A b' data n = None"
  using assms by (auto simp: resize_buffer_def push_buffer_def push_bytes_def)

end
