(* ===== verification/Cask_Request.thy ===== *)
theory Cask_Request
  imports Cask_Buffer Cask_Http
begin

unbundle bit_operations_syntax

text \<open>
  \<^verbatim>\<open>src/request.h\<close> and the parser of \<^verbatim>\<open>src/request.c\<close>.  The part of \<^verbatim>\<open>struct connection\<close> that
  \<^verbatim>\<open>get_connection\<close> gives the parser access to is the record \<open>conn\<close>, which the connection
  theory extends.  Every read of the buffer goes through \<^const>\<open>rd\<close>, so a parse that returns has
  read only inside the allocation.
\<close>

section \<open>Data\<close>

datatype request_state =
    REQUEST_STATE_INIT
  | REQUEST_STATE_HEADERS
  | REQUEST_STATE_BODY
  | REQUEST_STATE_READ_COMPLETE

text \<open>The states are ordered as the enumeration is: parsing moves forwards only.\<close>

fun state_index :: "request_state \<Rightarrow> nat" where
  "state_index REQUEST_STATE_INIT = 0"
| "state_index REQUEST_STATE_HEADERS = 1"
| "state_index REQUEST_STATE_BODY = 2"
| "state_index REQUEST_STATE_READ_COMPLETE = 3"

lemma state_index_inject: "state_index a = state_index b \<Longrightarrow> a = b"
  by (cases a; cases b) auto

instantiation request_state :: linorder
begin

definition less_eq_request_state :: "request_state \<Rightarrow> request_state \<Rightarrow> bool" where
  "less_eq_request_state a b = (state_index a \<le> state_index b)"

definition less_request_state :: "request_state \<Rightarrow> request_state \<Rightarrow> bool" where
  "less_request_state a b = (state_index a < state_index b)"

instance
  by standard (auto simp: less_eq_request_state_def less_request_state_def intro: state_index_inject)

end

lemma state_le_simps [simp]:
  "REQUEST_STATE_INIT \<le> s" "s \<le> REQUEST_STATE_READ_COMPLETE"
  "REQUEST_STATE_HEADERS \<le> REQUEST_STATE_BODY"
  by (cases s; simp add: less_eq_request_state_def)+

definition MAX_HEADERS :: nat where "MAX_HEADERS = 32"
definition MAX_BODY :: int where "MAX_BODY = 128 * 1024"

abbreviation (input) REQ_ERR :: int where "REQ_ERR \<equiv> -1"
abbreviation (input) REQ_OK :: int where "REQ_OK \<equiv> 0"
abbreviation (input) REQ_UF :: int where "REQ_UF \<equiv> 1"

record request =
  rstate :: request_state
  read_bytes :: nat
  rmethod :: http_method
  rversion :: http_version
  ruri :: string_t
  num_headers :: nat
  headers :: "http_header list"
  rbody :: string_t

definition string0 :: string_t where "string0 = \<lparr>off = 0, len = 0\<rparr>"

text \<open>The request after \<^verbatim>\<open>zero_struct(c->req)\<close>.\<close>

definition request0 :: request where
  "request0 = \<lparr>rstate = REQUEST_STATE_INIT, read_bytes = 0, rmethod = HTTP_METHOD_GET,
     rversion = HTTP_VERSION_10, ruri = string0, num_headers = 0,
     headers = replicate MAX_HEADERS \<lparr>hkey = string0, hval = string0\<rparr>, rbody = string0\<rparr>"

record conn =
  cbuffer :: buffer_t
  cflags :: u32
  req :: request

abbreviation (input) CONNECTION_FLAG_KEEPALIVE :: u32 where "CONNECTION_FLAG_KEEPALIVE \<equiv> 1"

section \<open>Scanning\<close>

function span_loop :: "bytes \<Rightarrow> byte \<Rightarrow> int \<Rightarrow> int \<Rightarrow> int \<Rightarrow> int option" where
  "span_loop s c l k i =
     (if k < l
      then do { b \<leftarrow> rd s k;
                if b = c then Some (i + 1) else span_loop s c l (k + 1) (i + 1) }
      else Some (-1))"
  by pat_completeness auto
termination
  by (relation "measure (\<lambda>(s, c, l, k, i). nat (l - k))") auto

declare span_loop.simps [simp del]

definition span :: "bytes \<Rightarrow> byte \<Rightarrow> int \<Rightarrow> int \<Rightarrow> int option" where
  "span s c l k = span_loop s c l k 0"

text \<open>
  \<open>split\<close> returns the tokens it has written, in order; the length of the list is the value
  the C function returns.
\<close>

function split_loop ::
  "bytes \<Rightarrow> int \<Rightarrow> int \<Rightarrow> byte \<Rightarrow> int \<Rightarrow> int \<Rightarrow> int \<Rightarrow> string_t list \<Rightarrow> string_t list option" where
  "split_loop s l k delim n start stop toks =
     (if stop < l \<and> int (length toks) < n - 1
      then do { b \<leftarrow> rd s stop;
                if b = delim
                then split_loop s l k delim n (stop + 1) (stop + 1)
                       (toks @ [\<lparr>off = start + k, len = stop - start\<rparr>])
                else split_loop s l k delim n start (stop + 1) toks }
      else Some (toks @ [\<lparr>off = start + k, len = l - start\<rparr>]))"
  by pat_completeness auto
termination
  by (relation "measure (\<lambda>(s, l, k, delim, n, start, stop, toks). nat (l - stop))") auto

declare split_loop.simps [simp del]

definition split :: "bytes \<Rightarrow> int \<Rightarrow> int \<Rightarrow> byte \<Rightarrow> int \<Rightarrow> string_t list option" where
  "split s l k delim n =
     (if n = 0 then Some []
      else if n = 1 then Some [\<lparr>off = k, len = l\<rparr>]
      else split_loop s l k delim n 0 0 [])"

definition is_ws :: "byte \<Rightarrow> bool" where
  "is_ws c = (c = SP \<or> c = HT \<or> c = CR \<or> c = LF)"

function trim_fwd :: "bytes \<Rightarrow> int \<Rightarrow> int \<Rightarrow> int \<Rightarrow> string_t \<Rightarrow> string_t option" where
  "trim_fwd data c i l s =
     (if i < l
      then do { b \<leftarrow> rd data c;
                if is_ws b then trim_fwd data (c + 1) (i + 1) l (s\<lparr>off := off s + 1, len := len s - 1\<rparr>)
                else Some s }
      else Some s)"
  by pat_completeness auto
termination
  by (relation "measure (\<lambda>(data, c, i, l, s). nat (l - i))") auto

function trim_bwd :: "bytes \<Rightarrow> int \<Rightarrow> int \<Rightarrow> string_t \<Rightarrow> string_t option" where
  "trim_bwd data c i s =
     (if i > 0
      then do { b \<leftarrow> rd data c;
                if is_ws b then trim_bwd data (c - 1) (i - 1) (s\<lparr>len := len s - 1\<rparr>)
                else Some s }
      else Some s)"
  by pat_completeness auto
termination
  by (relation "measure (\<lambda>(data, c, i, s). nat i)") auto

declare trim_fwd.simps [simp del] trim_bwd.simps [simp del]

definition trim :: "bytes \<Rightarrow> string_t \<Rightarrow> string_t option" where
  "trim data s =
     do { s1 \<leftarrow> trim_fwd data (off s) 0 (len s) s;
          trim_bwd data (off s1 + len s1 - 1) (len s1) s1 }"

section \<open>The parser\<close>

text \<open>A pointer \<^verbatim>\<open>data + k\<close>; a pointer before the object is no pointer.\<close>

definition ptr :: "bytes \<Rightarrow> int \<Rightarrow> bytes option" where
  "ptr data k = (if 0 \<le> k \<and> nat k \<le> length data then Some (drop (nat k) data) else None)"

definition parse_status_line :: "request \<Rightarrow> buffer_t \<Rightarrow> (int \<times> request) option" where
  "parse_status_line r buf =
     (let data = mem_of (bdata buf) in
      do { line_len \<leftarrow> span data LF (to_i32 (int (bsize buf))) 0;
           if line_len < 0 then Some (REQ_UF, r)
           else do {
             tokens \<leftarrow> split data line_len 0 SP 3;
             if length tokens \<noteq> 3 then Some (REQ_ERR, r)
             else do {
               p0 \<leftarrow> ptr data (off (tokens ! 0));
               mi \<leftarrow> lookup_kv g_http_methods 0 p0 (len (tokens ! 0));
               (case mi of
                  None \<Rightarrow> Some (REQ_ERR, r)
                | Some m \<Rightarrow> do {
                    tok2 \<leftarrow> trim data (tokens ! 2);
                    p2 \<leftarrow> ptr data (off tok2);
                    vi \<leftarrow> lookup_kv g_http_versions 0 p2 (len tok2);
                    (case vi of
                       None \<Rightarrow> Some (REQ_ERR, r)
                     | Some v \<Rightarrow>
                         Some (REQ_OK, r\<lparr>rmethod := method_of m, rversion := version_of v,
                                          ruri := tokens ! 1, read_bytes := nat line_len\<rparr>)) }) } } })"

function parse_headers :: "request \<Rightarrow> buffer_t \<Rightarrow> (int \<times> request) option" where
  "parse_headers r buf =
     (let data = mem_of (bdata buf) in
      if num_headers r < MAX_HEADERS
      then do {
        b0 \<leftarrow> rd data (int (read_bytes r));
        blank \<leftarrow> (if b0 = CR
                 then do { b1 \<leftarrow> rd data (int (read_bytes r) + 1); Some (b1 = LF) }
                 else Some False);
        if blank then Some (REQ_OK, r\<lparr>read_bytes := read_bytes r + 2\<rparr>)
        else do {
          line_len \<leftarrow> span data LF (to_i32 (int (bsize buf))) (to_i32 (int (read_bytes r)));
          if line_len < 0 then Some (REQ_UF, r)
          else do {
            p \<leftarrow> ptr data (int (read_bytes r));
            tokens \<leftarrow> split p line_len (to_i32 (int (read_bytes r))) (CHR '':'') 2;
            if length tokens \<noteq> 2 then Some (REQ_ERR, r)
            else do {
              k \<leftarrow> trim data (tokens ! 0);
              v \<leftarrow> trim data (tokens ! 1);
              parse_headers
                (r\<lparr>headers := (headers r)[num_headers r := \<lparr>hkey = k, hval = v\<rparr>],
                   read_bytes := read_bytes r + nat line_len,
                   num_headers := num_headers r + 1\<rparr>) buf } } } }
      else Some (REQ_OK, r))"
  by pat_completeness auto
termination
  by (relation "measure (\<lambda>(r, buf). MAX_HEADERS - num_headers r)") auto

declare parse_headers.simps [simp del]

fun find_header :: "http_header list \<Rightarrow> string \<Rightarrow> bytes \<Rightarrow> http_header option option" where
  "find_header [] key data = Some None"
| "find_header (h # hs) key data =
     (if len (hkey h) = int (length key)
      then do { p \<leftarrow> ptr data (off (hkey h));
                eq \<leftarrow> strncmp_eq p (cstr key) (length key);
                if eq then Some (Some h) else find_header hs key data }
      else find_header hs key data)"

text \<open>The two later cases of the switch in \<^verbatim>\<open>parse_request\<close>; each falls through to the next.\<close>

definition parse_complete :: "'a conn_scheme \<Rightarrow> int \<times> 'a conn_scheme" where
  "parse_complete c =
     (REQ_OK, if rversion (req c) = HTTP_VERSION_11
              then c\<lparr>cflags := cflags c OR CONNECTION_FLAG_KEEPALIVE\<rparr> else c)"

definition parse_body :: "'a conn_scheme \<Rightarrow> int \<times> 'a conn_scheme" where
  "parse_body c =
     (let r = req c in
      if len (rbody r) = 0
      then parse_complete (c\<lparr>req := r\<lparr>rstate := REQUEST_STATE_READ_COMPLETE\<rparr>\<rparr>)
      else let r' = r\<lparr>read_bytes := bsize (cbuffer c)\<rparr> in
           if to_i32 (int (read_bytes r')) - off (rbody r') < len (rbody r')
           then (REQ_UF, c\<lparr>req := r'\<rparr>)
           else parse_complete (c\<lparr>req := r'\<lparr>rstate := REQUEST_STATE_READ_COMPLETE\<rparr>\<rparr>))"

definition parse_header_state :: "'a conn_scheme \<Rightarrow> (int \<times> 'a conn_scheme) option" where
  "parse_header_state c =
     do { (ret, r) \<leftarrow> parse_headers (req c) (cbuffer c);
          if ret = REQ_ERR \<or> ret = REQ_UF then Some (ret, c\<lparr>req := r\<rparr>)
          else do {
            cl \<leftarrow> find_header (take (num_headers r) (headers r)) ''Content-Length''
                   (mem_of (bdata (cbuffer c)));
            (case cl of
               None \<Rightarrow> Some (parse_body (c\<lparr>req := r\<lparr>rstate := REQUEST_STATE_BODY\<rparr>\<rparr>))
             | Some h \<Rightarrow> do {
                 p \<leftarrow> ptr (mem_of (bdata (cbuffer c))) (off (hval h));
                 n \<leftarrow> strtol p;
                 if to_i32 n > MAX_BODY then Some (REQ_ERR, c\<lparr>req := r\<rparr>)
                 else Some (parse_body
                        (c\<lparr>req := r\<lparr>rbody := \<lparr>off = to_i32 (int (read_bytes r)), len = to_i32 n\<rparr>,
                                    rstate := REQUEST_STATE_BODY\<rparr>\<rparr>)) }) } }"

definition parse_request :: "'a conn_scheme \<Rightarrow> (int \<times> 'a conn_scheme) option" where
  "parse_request c =
     (case rstate (req c) of
        REQUEST_STATE_INIT \<Rightarrow>
          do { (ret, r) \<leftarrow> parse_status_line (req c) (cbuffer c);
               if ret = REQ_ERR \<or> ret = REQ_UF then Some (ret, c\<lparr>req := r\<rparr>)
               else parse_header_state (c\<lparr>req := r\<lparr>rstate := REQUEST_STATE_HEADERS\<rparr>\<rparr>) }
      | REQUEST_STATE_HEADERS \<Rightarrow> parse_header_state c
      | REQUEST_STATE_BODY \<Rightarrow> Some (parse_body c)
      | REQUEST_STATE_READ_COMPLETE \<Rightarrow> Some (parse_complete c))"

definition get_uri :: "'a conn_scheme \<Rightarrow> (bytes \<times> int) option" where
  "get_uri c = do { p \<leftarrow> ptr (mem_of (bdata (cbuffer c))) (off (ruri (req c)));
                    Some (p, len (ruri (req c))) }"

definition get_body :: "'a conn_scheme \<Rightarrow> (bytes \<times> int) option" where
  "get_body c = do { p \<leftarrow> ptr (mem_of (bdata (cbuffer c))) (off (rbody (req c)));
                     Some (p, len (rbody (req c))) }"

end
