(* ===== verification/Cask_Connection.thy ===== *)
theory Cask_Connection
  imports Cask_Timers Cask_List Cask_Route Cask_Request
begin

text \<open>
  \<^verbatim>\<open>src/connection.h\<close>, \<^verbatim>\<open>src/connection.c\<close>, \<^verbatim>\<open>send_response\<close> of \<^verbatim>\<open>src/request.c\<close>, \<^verbatim>\<open>route_404\<close> of
  \<^verbatim>\<open>src/route.c\<close>, and \<^verbatim>\<open>struct worker\<close> of \<^verbatim>\<open>src/worker.h\<close> with \<^verbatim>\<open>on_accept\<close> of \<^verbatim>\<open>src/worker.c\<close>.

  A worker is the event loop of \<^verbatim>\<open>event.c\<close> with the ring of its connections.  A \<^verbatim>\<open>struct connection\<close>
  embeds a list node, an event and a timer; all of them are addressed by the address of the
  connection, so that \<^verbatim>\<open>free(c)\<close> takes the four entries out of their memories.  What the kernel
  answers to the \<open>n\<close>-th system call, and what \<^verbatim>\<open>calloc\<close> returns, is the environment \<open>env\<close>; \<open>outbox\<close>
  collects the bytes the kernel has taken for a descriptor.
\<close>

section \<open>Data\<close>

datatype connection_state =
    CONNECTION_STATE_IN
  | CONNECTION_STATE_OUT
  | CONNECTION_STATE_CLOSED
  | CONNECTION_STATE_ERROR

record connection = conn +
  cfd :: int
  cstate :: connection_state
  write_bytes :: nat

datatype recv_res = Recv bytes | Recv_again | Recv_error
datatype send_res = Sent nat | Send_again | Send_error

record env = alloc +
  os_recv :: "nat \<Rightarrow> recv_res"
  os_send :: "nat \<Rightarrow> nat \<Rightarrow> send_res"
  os_ctl :: "nat \<Rightarrow> int"
  os_accept :: "nat \<Rightarrow> int"
  os_fcntl :: "nat \<Rightarrow> int"
  os_calloc :: "nat \<Rightarrow> addr"

record worker = ebase +
  wlinks :: links
  conns :: addr
  cmem :: "addr \<rightharpoonup> connection"
  num_conns :: u64
  sock :: int
  running :: bool
  wid :: u64
  outbox :: "int \<Rightarrow> bytes"
  calls :: nat

definition TIMEOUT :: u32 where "TIMEOUT = 5000"
definition READ_CHUNK :: nat where "READ_CHUNK = 4096"
definition WRITE_CHUNK :: nat where "WRITE_CHUNK = 4096"

definition EPOLLIN :: u32 where "EPOLLIN = 1"
definition EPOLLOUT :: u32 where "EPOLLOUT = 4"
definition EPOLLET :: u32 where "EPOLLET = 2147483648"

text \<open>The addresses of the callbacks.\<close>

definition timeout_cb :: addr where "timeout_cb = 1"
definition io_cb :: addr where "io_cb = 2"
definition accept_cb :: addr where "accept_cb = 3"

definition set_conn :: "'a worker_scheme \<Rightarrow> addr \<Rightarrow> connection \<Rightarrow> 'a worker_scheme" where
  "set_conn w c cn = w\<lparr>cmem := (cmem w)(c \<mapsto> cn)\<rparr>"

definition sys_call :: "'a worker_scheme \<Rightarrow> 'a worker_scheme" where
  "sys_call w = w\<lparr>calls := Suc (calls w)\<rparr>"

text \<open>\<^verbatim>\<open>close\<close> gives the descriptor back and takes it out of the interest list.\<close>

definition close_fd :: "'a worker_scheme \<Rightarrow> int \<Rightarrow> 'a worker_scheme" where
  "close_fd w fd = w\<lparr>fds := fds w - {fd}, interest := (interest w)(fd := None)\<rparr>"

definition free_conn :: "'a worker_scheme \<Rightarrow> addr \<Rightarrow> 'a worker_scheme" where
  "free_conn w c =
     w\<lparr>cmem := (cmem w)(c := None), evs := (evs w)(c := None), wlinks := (wlinks w)(c := None),
       timers := timers w\<lparr>nodes := (nodes (timers w))(c := None), pay := (pay (timers w))(c := None)\<rparr>\<rparr>"

section \<open>Closing and resetting a connection\<close>

definition close_connection :: "env \<Rightarrow> 'a worker_scheme \<Rightarrow> addr \<Rightarrow> 'a worker_scheme option" where
  "close_connection os w c =
     do { cn \<leftarrow> cmem w c;
          let w = w\<lparr>num_conns := num_conns w - 1\<rparr>;
          (_, w) \<leftarrow> del_event (os_ctl os (calls w)) w c;
          let w = sys_call w;
          (_, w) \<leftarrow> del_timer w c;
          let w = close_fd w (cfd cn);
          l \<leftarrow> list_del (wlinks w) c;
          Some (free_conn (w\<lparr>wlinks := l\<rparr>) c) }"

definition timeout_callback :: "env \<Rightarrow> addr \<Rightarrow> 'a worker_scheme \<Rightarrow> 'a worker_scheme option" where
  "timeout_callback os data w = close_connection os w data"

text \<open>The assignment of a whole \<^verbatim>\<open>struct timer\<close> also clears its tree node.\<close>

definition assign_timer :: "'a worker_scheme \<Rightarrow> addr \<Rightarrow> timer \<Rightarrow> 'a worker_scheme" where
  "assign_timer w c tm =
     w\<lparr>timers := timers w\<lparr>
         nodes := (nodes (timers w))(c \<mapsto> \<lparr>ncolor = RBBLK, nleft = NULL, nright = NULL, nparent = NULL\<rparr>),
         pay := (pay (timers w))(c \<mapsto> tm)\<rparr>\<rparr>"

definition reset_connection :: "env \<Rightarrow> 'a worker_scheme \<Rightarrow> addr \<Rightarrow> (int \<times> 'a worker_scheme) option" where
  "reset_connection os w c =
     do { cn \<leftarrow> cmem w c;
          let w = set_conn w c (cn\<lparr>req := request0, write_bytes := 0\<rparr>);
          tm \<leftarrow> get_timer w c;
          w \<leftarrow> (if has_flag (tflags tm) TIMER_FLAG_ACTIVE
               then do { (_, w) \<leftarrow> del_timer w c; Some w } else Some w);
          let w = assign_timer w c (make_timer TIMEOUT TIMER_FLAG_ONESHOT timeout_cb c);
          (ret, w) \<leftarrow> add_timer w c;
          if ret \<noteq> OK then Some (ERR, w)
          else do {
            ev \<leftarrow> evs w c;
            w \<leftarrow> (if has_flag (eflags ev) EVENT_FLAG_ACTIVE
                 then do { (_, w) \<leftarrow> del_event (os_ctl os (calls w)) w c; Some (sys_call w) }
                 else Some w);
            Some (OK, w) } }"

definition begin_read :: "env \<Rightarrow> 'a worker_scheme \<Rightarrow> addr \<Rightarrow> 'a worker_scheme option" where
  "begin_read os w c =
     do { (ret, w) \<leftarrow> reset_connection os w c;
          if ret \<noteq> OK then close_connection os w c
          else do {
            cn \<leftarrow> cmem w c;
            let w = set_conn w c (cn\<lparr>cbuffer := clear_buffer (cbuffer cn), cstate := CONNECTION_STATE_IN\<rparr>);
            let w = w\<lparr>evs := (evs w)(c \<mapsto> make_event (cfd cn) (EPOLLIN OR EPOLLET) io_cb c)\<rparr>;
            (ret, w) \<leftarrow> add_event (os_ctl os (calls w)) w c;
            let w = sys_call w;
            if ret \<noteq> OK then close_connection os w c else Some w } }"

section \<open>Sending\<close>

text \<open>
  The loop of \<^verbatim>\<open>send_data\<close>: the remaining length is a \<^verbatim>\<open>size_t\<close> difference, and the kernel reads
  the chunk out of the buffer's object.
\<close>

partial_function (option) send_data :: "env \<Rightarrow> 'a worker_scheme \<Rightarrow> addr \<Rightarrow> 'a worker_scheme option" where
  "send_data os w c =
     do { cn \<leftarrow> cmem w c;
          let buf = cbuffer cn;
          let rem = nat ((int (bsize buf) - int (write_bytes cn)) mod 2 ^ 64);
          let l = (if rem < WRITE_CHUNK then rem else WRITE_CHUNK);
          chunk \<leftarrow> (if write_bytes cn + l \<le> length (mem_of (bdata buf))
                   then Some (take l (drop (write_bytes cn) (mem_of (bdata buf)))) else None);
          (case os_send os (calls w) l of
             Send_again \<Rightarrow> Some (sys_call w)
           | Send_error \<Rightarrow> close_connection os (sys_call w) c
           | Sent n \<Rightarrow>
               (let cn = cn\<lparr>write_bytes := size_add (write_bytes cn) n\<rparr>;
                    w = set_conn (sys_call w) c cn;
                    w = w\<lparr>outbox := (outbox w)(cfd cn := outbox w (cfd cn) @ take n chunk)\<rparr> in
                if write_bytes cn = bsize buf
                then if has_flag (cflags cn) CONNECTION_FLAG_KEEPALIVE
                     then begin_read os w c else close_connection os w c
                else send_data os w c)) }"

declare send_data.simps [code]

definition begin_send :: "env \<Rightarrow> 'a worker_scheme \<Rightarrow> addr \<Rightarrow> 'a worker_scheme option" where
  "begin_send os w c =
     do { (ret, w) \<leftarrow> reset_connection os w c;
          if ret \<noteq> OK then close_connection os w c
          else do {
            cn \<leftarrow> cmem w c;
            let w = set_conn w c (cn\<lparr>cstate := CONNECTION_STATE_OUT\<rparr>);
            let w = w\<lparr>evs := (evs w)(c \<mapsto> make_event (cfd cn) (EPOLLOUT OR EPOLLET) io_cb c)\<rparr>;
            (ret, w) \<leftarrow> add_event (os_ctl os (calls w)) w c;
            let w = sys_call w;
            if ret \<noteq> OK then close_connection os w c else send_data os w c } }"

section \<open>Responses\<close>

text \<open>
  The string of a table entry; outside the table there is none.
\<close>

definition table_str :: "kv_t list \<Rightarrow> nat \<Rightarrow> string option" where
  "table_str t i = (if i < length t then Some (kv_s (t ! i)) else None)"

text \<open>
  One \<^verbatim>\<open>n = snprintf(tmp, 128, ...); push_buffer(buf, tmp, n)\<close>; the result of \<^verbatim>\<open>push_buffer\<close> is not
  looked at.
\<close>

definition push_line :: "'b alloc_scheme \<Rightarrow> bytes \<Rightarrow> buffer_t \<Rightarrow> buffer_t option" where
  "push_line A s buf =
     (let (n, tmp) = snprintf 128 s in do { (_, buf) \<leftarrow> push_buffer A buf tmp (nat n); Some buf })"

definition CRLF :: bytes where "CRLF = [CR, LF]"

definition response_buffer ::
  "'b alloc_scheme \<Rightarrow> 'a conn_scheme \<Rightarrow> http_status \<Rightarrow> bytes option \<Rightarrow> nat \<Rightarrow> buffer_t option" where
  "response_buffer A cn status body l =
     do { let buf = clear_buffer (cbuffer cn);
          v \<leftarrow> table_str g_http_versions (version_index (rversion (req cn)));
          st \<leftarrow> table_str g_http_statuses (status_index status);
          buf \<leftarrow> push_line A (v @ [SP] @ st @ CRLF) buf;
          buf \<leftarrow> (if has_flag (cflags cn) CONNECTION_FLAG_KEEPALIVE
                 then do {
                   k \<leftarrow> table_str g_http_hkeys (hkey_index HTTP_HKEY_CONNECTION);
                   buf \<leftarrow> push_line A (k @ '': keep-alive'' @ CRLF) buf;
                   k \<leftarrow> table_str g_http_hkeys (hkey_index HTTP_HKEY_KEEP_ALIVE);
                   push_line A (k @ '': timeout=5'' @ CRLF) buf }
                 else Some buf);
          k \<leftarrow> table_str g_http_hkeys (hkey_index HTTP_HKEY_CONTENT_LENGTH);
          buf \<leftarrow> push_line A (k @ '': '' @ print_nat l @ CRLF @ CRLF) buf;
          if l \<noteq> 0
          then do { b \<leftarrow> body; (_, buf) \<leftarrow> push_buffer A buf b l; Some buf }
          else Some buf }"

definition send_response ::
  "env \<Rightarrow> 'a worker_scheme \<Rightarrow> addr \<Rightarrow> http_status \<Rightarrow> bytes option \<Rightarrow> nat \<Rightarrow> 'a worker_scheme option" where
  "send_response os w c status body l =
     do { cn \<leftarrow> cmem w c;
          buf \<leftarrow> response_buffer os cn status body l;
          begin_send os (set_conn w c (cn\<lparr>cbuffer := buf\<rparr>)) c }"

definition route_404 :: "env \<Rightarrow> 'a worker_scheme \<Rightarrow> addr \<Rightarrow> 'a worker_scheme option" where
  "route_404 os w c = send_response os w c HTTP_STATUS_404 None 0"

section \<open>Receiving\<close>

text \<open>
  What \<^verbatim>\<open>read_data\<close> does with a complete request: \<open>call cb c\<close> is the call of a route callback.
\<close>

definition dispatch ::
  "env \<Rightarrow> 'c routes \<Rightarrow> ('c \<Rightarrow> addr \<Rightarrow> 'a worker_scheme \<Rightarrow> 'a worker_scheme option)
     \<Rightarrow> 'a worker_scheme \<Rightarrow> addr \<Rightarrow> 'a worker_scheme option" where
  "dispatch os rts call w c =
     do { cn \<leftarrow> cmem w c;
          uri \<leftarrow> ptr (mem_of (bdata (cbuffer cn))) (off (ruri (req cn)));
          r \<leftarrow> match_route rts (rmethod (req cn)) uri (nat (len (ruri (req cn)) mod 2 ^ 64));
          (case r of Some r \<Rightarrow> call (rtcb r) c w | None \<Rightarrow> route_404 os w c) }"

definition set_cstate :: "'a worker_scheme \<Rightarrow> addr \<Rightarrow> connection_state \<Rightarrow> 'a worker_scheme option" where
  "set_cstate w c st = do { cn \<leftarrow> cmem w c; Some (set_conn w c (cn\<lparr>cstate := st\<rparr>)) }"

partial_function (option) read_data ::
  "env \<Rightarrow> 'c routes \<Rightarrow> ('c \<Rightarrow> addr \<Rightarrow> 'a worker_scheme \<Rightarrow> 'a worker_scheme option)
     \<Rightarrow> 'a worker_scheme \<Rightarrow> addr \<Rightarrow> 'a worker_scheme option" where
  "read_data os rts call w c =
     do { cn \<leftarrow> cmem w c;
          let n = size_add (bsize (cbuffer cn)) READ_CHUNK;
          let (ret, buf) = (if n > bcap (cbuffer cn) then resize_buffer os (cbuffer cn) n else (OK, cbuffer cn));
          if ret \<noteq> OK
          then do { w \<leftarrow> set_cstate w c CONNECTION_STATE_ERROR; close_connection os w c }
          else do {
            let w = set_conn w c (cn\<lparr>cbuffer := buf\<rparr>);
            (case os_recv os (calls w) of
               Recv_again \<Rightarrow>
                 do { cn \<leftarrow> cmem w c;
                      (ret, cn) \<leftarrow> parse_request cn;
                      let w = set_conn (sys_call w) c cn;
                      if ret = REQ_OK then dispatch os rts call w c
                      else if ret = REQ_ERR then close_connection os w c
                      else read_data os rts call w c }
             | Recv_error \<Rightarrow>
                 do { w \<leftarrow> set_cstate (sys_call w) c CONNECTION_STATE_ERROR; close_connection os w c }
             | Recv bs \<Rightarrow>
                 if bs = []
                 then do { w \<leftarrow> set_cstate (sys_call w) c CONNECTION_STATE_CLOSED; close_connection os w c }
                 else do {
                   d \<leftarrow> memcpy (mem_of (bdata buf)) (bsize buf) bs (length bs);
                   read_data os rts call
                     (set_conn (sys_call w) c
                        (cn\<lparr>cbuffer := buf\<lparr>bdata := Some d, bsize := size_add (bsize buf) (length bs)\<rparr>\<rparr>)) c }) } }"

declare read_data.simps [code]

section \<open>Callbacks of the event loop\<close>

definition io_callback ::
  "env \<Rightarrow> 'c routes \<Rightarrow> ('c \<Rightarrow> addr \<Rightarrow> 'a worker_scheme \<Rightarrow> 'a worker_scheme option)
     \<Rightarrow> u32 \<Rightarrow> addr \<Rightarrow> 'a worker_scheme \<Rightarrow> 'a worker_scheme option" where
  "io_callback os rts call ev c w =
     do { cn \<leftarrow> cmem w c;
          (case cstate cn of
             CONNECTION_STATE_IN \<Rightarrow>
               if has_flag ev EPOLLIN then read_data os rts call w c else close_connection os w c
           | CONNECTION_STATE_OUT \<Rightarrow>
               if has_flag ev EPOLLOUT then send_data os w c else close_connection os w c
           | CONNECTION_STATE_CLOSED \<Rightarrow> close_connection os w c
           | CONNECTION_STATE_ERROR \<Rightarrow> close_connection os w c) }"

text \<open>A \<^verbatim>\<open>struct connection\<close> as \<^verbatim>\<open>calloc\<close> returns it, then with its descriptor and its buffer.\<close>

definition calloc_conn :: "'a worker_scheme \<Rightarrow> addr \<Rightarrow> int \<Rightarrow> buffer_t \<Rightarrow> 'a worker_scheme" where
  "calloc_conn w c fd buf =
     assign_timer
       (w\<lparr>cmem := (cmem w)(c \<mapsto> \<lparr>cbuffer = buf, cflags = 0, req = request0, cfd = fd,
             cstate = CONNECTION_STATE_IN, write_bytes = 0\<rparr>),
          evs := (evs w)(c \<mapsto> make_event 0 0 NULL NULL),
          wlinks := (wlinks w)(c \<mapsto> \<lparr>prev = NULL, nxt = NULL\<rparr>)\<rparr>) c
       (make_timer 0 0 NULL NULL)"

definition accept_connection :: "env \<Rightarrow> 'a worker_scheme \<Rightarrow> (int \<times> 'a worker_scheme) option" where
  "accept_connection os w =
     (let fd = os_accept os (calls w); w = sys_call w in
      if fd < 0 then Some (ERR, w)
      else let w = w\<lparr>fds := insert fd (fds w)\<rparr>; r = os_fcntl os (calls w); w = sys_call w in
      if r < 0 then Some (ERR, close_fd w fd)
      else let c = os_calloc os (calls w); w = sys_call w in
      if c = NULL then Some (ERR, close_fd w fd)
      else case create_buffer os of
             None \<Rightarrow> Some (ERR, close_fd w fd)
           | Some buf \<Rightarrow>
               do { let w = calloc_conn w c fd buf;
                    l \<leftarrow> list_add_tail (wlinks w) (conns w) c;
                    w \<leftarrow> begin_read os (w\<lparr>wlinks := l\<rparr>) c;
                    Some (OK, w) })"

definition on_accept :: "env \<Rightarrow> u32 \<Rightarrow> 'a worker_scheme \<Rightarrow> 'a worker_scheme option" where
  "on_accept os ev w =
     (if has_flag ev EPOLLIN
      then do { (ret, w) \<leftarrow> accept_connection os w;
                Some (if ret \<noteq> OK then w else w\<lparr>num_conns := num_conns w + 1\<rparr>) }
      else Some w)"

text \<open>The calls through the function pointers of timers and events.\<close>

definition call_timer :: "env \<Rightarrow> addr \<Rightarrow> addr \<Rightarrow> 'a worker_scheme \<Rightarrow> 'a worker_scheme option" where
  "call_timer os cb data w = (if cb = timeout_cb then timeout_callback os data w else None)"

definition call_event ::
  "env \<Rightarrow> 'c routes \<Rightarrow> ('c \<Rightarrow> addr \<Rightarrow> 'a worker_scheme \<Rightarrow> 'a worker_scheme option)
     \<Rightarrow> addr \<Rightarrow> int \<Rightarrow> u32 \<Rightarrow> addr \<Rightarrow> 'a worker_scheme \<Rightarrow> 'a worker_scheme option" where
  "call_event os rts call cb fd ev data w =
     (if cb = io_cb then io_callback os rts call ev data w
      else if cb = accept_cb then on_accept os ev w else None)"

end
