(* ===== verification/Cask_Conn_Inv.thy ===== *)
theory Cask_Conn_Inv
  imports Cask_Connection
begin

text \<open>
  The invariant of a worker: its ring, its connections, their events and their timers agree.  The
  lemmas show what closing, resetting and accepting do to it.
\<close>

section \<open>The invariant\<close>

text \<open>
  \<open>worker_ok w cs t\<close>: the ring of the worker holds the connections \<open>cs\<close>, \<open>t\<close> is its tree of timers,
  exactly the connections of the ring are in memory, each with its event, its timer, a sound
  buffer and an open descriptor of its own.
\<close>

definition conn_sound :: "'a worker_scheme \<Rightarrow> addr \<Rightarrow> bool" where
  "conn_sound w c \<longleftrightarrow>
     (\<exists>cn ev. cmem w c = Some cn \<and> evs w c = Some ev \<and> get_timer w c \<noteq> None
        \<and> buffer_ok (cbuffer cn) \<and> cfd cn \<in> fds w)"

definition fd_of :: "'a worker_scheme \<Rightarrow> addr \<Rightarrow> int" where
  "fd_of w c = cfd (the (cmem w c))"

text \<open>The descriptor of the event of a connection, and whether the event is registered.\<close>

definition efd :: "'a worker_scheme \<Rightarrow> addr \<Rightarrow> int" where
  "efd w c = evfd (the (evs w c))"

definition registered :: "'a worker_scheme \<Rightarrow> addr \<Rightarrow> bool" where
  "registered w c \<longleftrightarrow> has_flag (eflags (the (evs w c))) EVENT_FLAG_ACTIVE"

definition worker_ok :: "'a worker_scheme \<Rightarrow> addr list \<Rightarrow> ptree \<Rightarrow> bool" where
  "worker_ok w cs t \<longleftrightarrow>
     ring (wlinks w) (conns w) cs \<and> timers_ok w t \<and> set (inord t) \<subseteq> set cs
     \<and> dom (cmem w) = set cs \<and> dom (get_timer w) = set cs
     \<and> (\<forall>c\<in>set cs. conn_sound w c) \<and> inj_on (fd_of w) (set cs)"

lemma worker_okD:
  assumes "worker_ok w cs t"
  shows "ring (wlinks w) (conns w) cs" "timers_ok w t" "set (inord t) \<subseteq> set cs"
    "dom (cmem w) = set cs" "dom (get_timer w) = set cs" "distinct cs" "NULL \<notin> set cs" "conns w \<notin> set cs"
    "inj_on (fd_of w) (set cs)"
  using assms by (auto simp: worker_ok_def ring_def)

lemma worker_ok_conn:
  assumes "worker_ok w cs t" "c \<in> set cs"
  obtains cn ev tm where "cmem w c = Some cn" "evs w c = Some ev" "get_timer w c = Some tm"
    "buffer_ok (cbuffer cn)" "cfd cn \<in> fds w"
  using assms by (auto simp: worker_ok_def conn_sound_def)

text \<open>The timers depend on the memory of the timers only.\<close>

lemma timers_ok_cong: "timers b' = timers b \<Longrightarrow> timers_ok b' t = timers_ok b t"
  by (simp add: timers_ok_def get_timer_def)

lemma get_timer_cong: "timers b' = timers b \<Longrightarrow> get_timer b' = get_timer b"
  by (auto simp: get_timer_def)

section \<open>Freeing a connection\<close>

lemma ordered_free:
  assumes "tim.ordered s t" "c \<notin> set (inord t)" "c \<noteq> NULL" "c \<noteq> RBNIL"
  shows "tim.ordered (s\<lparr>nodes := (nodes s)(c := None), pay := (pay s)(c := None)\<rparr>) t"
proof -
  let ?s = "s\<lparr>nodes := (nodes s)(c := None), pay := (pay s)(c := None)\<rparr>"
  have "map (tim.node_key ?s) (inord t) = map (tim.node_key s) (inord t)"
    using assms(2) by (auto simp: tim.node_key_def val_def)
  then show ?thesis using assms unfolding tim.ordered_def
    by (simp only: simp_thms) (auto simp: holds_def pays_def focus_def nil_ok_def)
qed

lemma timers_ok_free:
  assumes ok: "timers_ok w t" and c: "c \<notin> set (inord t)" "get_timer w c \<noteq> None" "c \<noteq> NULL"
  shows "timers_ok (free_conn w c) t"
proof -
  have "c \<noteq> RBNIL" using ok c(2) by (auto simp: timers_ok_def)
  then have "tim.ordered (timers (free_conn w c)) t"
    using ordered_free [OF timers_okD(1) [OF ok] c(1,3)] by (simp add: free_conn_def)
  then show ?thesis using ok by (auto simp: timers_ok_def get_timer_def free_conn_def)
qed

lemma free_conn_simps [simp]:
  "cmem (free_conn w c) = (cmem w)(c := None)" "evs (free_conn w c) = (evs w)(c := None)"
  "wlinks (free_conn w c) = (wlinks w)(c := None)" "get_timer (free_conn w c) = (get_timer w)(c := None)"
  "fds (free_conn w c) = fds w" "interest (free_conn w c) = interest w" "conns (free_conn w c) = conns w"
  "num_conns (free_conn w c) = num_conns w" "outbox (free_conn w c) = outbox w"
  "calls (free_conn w c) = calls w" "sock (free_conn w c) = sock w" "running (free_conn w c) = running w"
  "clock (free_conn w c) = clock w" "ticks (free_conn w c) = ticks w" "epollfd (free_conn w c) = epollfd w"
  "worker.more (free_conn w c) = worker.more w"
  by (auto simp: free_conn_def get_timer_def)

lemma ring_free: "ring h p cs \<Longrightarrow> c \<notin> set (p # cs) \<Longrightarrow> ring (h(c := None)) p cs"
  by (erule ring_frame) (auto simp: get_next_def get_prev_def)

lemma del_event_eq:
  assumes "evs w c = Some ev"
  obtains r w1 where "del_event ctl w c = Some (r, w1)" "timers w1 = timers w"
    "w1 = w\<lparr>evs := evs w1, interest := interest w1\<rparr>" "dom (evs w1) = dom (evs w)"
    "\<forall>d. d \<noteq> c \<longrightarrow> evs w1 d = evs w d"
    "\<forall>f. f \<noteq> evfd ev \<longrightarrow> interest w1 f = interest w f"
  using assms by (cases "ctl = 0") (auto simp: del_event_def)

text \<open>Removing the timer of a connection: its node leaves the tree, if it is in it.\<close>

lemma del_timer_gone:
  assumes ok: "timers_ok w t" and tm: "get_timer w c = Some tm"
    and one: "c \<notin> set (inord t) \<or> \<not> two_children (timers w) c"
  obtains r w1 t1 tm1 where "del_timer w c = Some (r, w1)" "timers_ok w1 t1" "inord t1 = remove1 c (inord t)"
    "w1 = w\<lparr>timers := timers w1\<rparr>" "get_timer w1 = (get_timer w)(c \<mapsto> tm1)" "\<not> active tm1"
proof (cases "c \<in> set (inord t)")
  case True
  obtain w1 t1 where "del_timer w c = Some (OK, w1)" "timers_ok w1 t1" "inord t1 = remove1 c (inord t)"
    "get_timer w1 = (get_timer w)(c \<mapsto> disarmed tm)" "w1 = w\<lparr>timers := timers w1\<rparr>"
    by (rule del_timer_ok [OF ok True tm]) (use one True in simp)
  then show thesis using that disarmed_simps(1) by blast
next
  case False
  then have "\<not> active tm" using ok tm by (auto simp: timers_ok_def)
  then show thesis using that [of ERR w t tm] del_timer_inactive [OF tm] ok False tm
    by (simp add: remove1_idem fun_upd_idem)
qed

text \<open>What \<^verbatim>\<open>close_connection\<close> leaves behind.\<close>

definition closed_from :: "'a worker_scheme \<Rightarrow> addr \<Rightarrow> 'a worker_scheme \<Rightarrow> bool" where
  "closed_from w c w' \<longleftrightarrow>
     cmem w' = (cmem w)(c := None) \<and> get_timer w' = (get_timer w)(c := None) \<and> evs w' c = None
     \<and> (\<forall>d. d \<noteq> c \<longrightarrow> evs w' d = evs w d)
     \<and> fds w' = fds w - {fd_of w c} \<and> interest w' (fd_of w c) = None
     \<and> (\<forall>f. f \<noteq> fd_of w c \<longrightarrow> f \<noteq> efd w c \<longrightarrow> interest w' f = interest w f)
     \<and> num_conns w' = num_conns w - 1 \<and> outbox w' = outbox w \<and> conns w' = conns w
     \<and> clock w' = clock w \<and> ticks w' = ticks w \<and> sock w' = sock w \<and> running w' = running w
     \<and> worker.more w' = worker.more w \<and> epollfd w' = epollfd w"

lemma close_connection_ok:
  assumes ok: "worker_ok w cs t" and c: "c \<in> set cs"
    and one: "c \<notin> set (inord t) \<or> \<not> two_children (timers w) c"
  obtains w' t' where "close_connection os w c = Some w'" "worker_ok w' (remove1 c cs) t'"
    "inord t' = remove1 c (inord t)" "closed_from w c w'"
proof -
  obtain cn ev tm where m: "cmem w c = Some cn" "evs w c = Some ev" "get_timer w c = Some tm"
    "buffer_ok (cbuffer cn)" "cfd cn \<in> fds w"
    by (rule worker_ok_conn [OF ok c])
  note D = worker_okD [OF ok]
  let ?w0 = "w\<lparr>num_conns := num_conns w - 1\<rparr>"
  obtain r1 w1 where w1: "del_event (os_ctl os (calls ?w0)) ?w0 c = Some (r1, w1)" "timers w1 = timers ?w0"
    "w1 = ?w0\<lparr>evs := evs w1, interest := interest w1\<rparr>" "dom (evs w1) = dom (evs ?w0)"
    "\<forall>d. d \<noteq> c \<longrightarrow> evs w1 d = evs ?w0 d" "\<forall>f. f \<noteq> evfd ev \<longrightarrow> interest w1 f = interest ?w0 f"
    by (rule del_event_eq [of ?w0 c ev "os_ctl os (calls ?w0)"]) (use m(2) in simp_all)
  let ?w1 = "sys_call w1"
  have t1: "timers ?w1 = timers w" using w1(2) by (simp add: sys_call_def)
  have g1: "get_timer ?w1 c = Some tm" using m(3) get_timer_cong [OF t1] by simp
  have ok1: "timers_ok ?w1 t" using D(2) timers_ok_cong [OF t1] by simp
  have one1: "c \<notin> set (inord t) \<or> \<not> two_children (timers ?w1) c" using one t1 by simp
  obtain r2 w2 t2 tm2 where w2: "del_timer ?w1 c = Some (r2, w2)" "timers_ok w2 t2"
    "inord t2 = remove1 c (inord t)" "w2 = ?w1\<lparr>timers := timers w2\<rparr>"
    "get_timer w2 = (get_timer ?w1)(c \<mapsto> tm2)" "\<not> active tm2"
    by (rule del_timer_gone [OF ok1 g1 one1])
  let ?w3 = "close_fd w2 (cfd cn)"
  have base: "wlinks ?w3 = wlinks w" "conns ?w3 = conns w" "cmem ?w3 = cmem w" "timers ?w3 = timers w2"
    "fds ?w3 = fds w - {cfd cn}" "num_conns ?w3 = num_conns w - 1" "outbox ?w3 = outbox w"
    "evs ?w3 = evs w1" "clock ?w3 = clock w" "ticks ?w3 = ticks w" "sock ?w3 = sock w" "running ?w3 = running w"
    "worker.more ?w3 = worker.more w" "epollfd ?w3 = epollfd w" "interest ?w3 (cfd cn) = None" "interest ?w3 = (interest w1)(cfd cn := None)"
    unfolding close_fd_def by (subst w2(4), subst w1(3), simp add: sys_call_def)+
  obtain l where l: "list_del (wlinks w) c = Some l" "ring l (conns w) (remove1 c cs)"
    by (rule ring_del [OF D(1) c])
  let ?w4 = "?w3\<lparr>wlinks := l\<rparr>" and ?cs = "remove1 c cs"
  let ?w' = "free_conn ?w4 c"
  have eq: "close_connection os w c = Some ?w'"
    using m(1) w1(1) w2(1) l(1) base(1) by (simp add: close_connection_def)
  have cs': "set ?cs = set cs - {c}" using D(6) by (simp add: set_remove1_eq)
  have g4: "get_timer ?w4 = (get_timer w)(c \<mapsto> tm2)"
    using w2(5) base(4) get_timer_cong [OF t1] by (simp add: get_timer_def fun_eq_iff)
  have c0: "c \<noteq> NULL" using c D(7) by metis
  have "timers_ok ?w4 t2" using w2(2) base(4) timers_ok_cong [of ?w4 w2] by simp
  then have tok: "timers_ok ?w' t2"
    using w2(3) timers_okD(5) [OF D(2)] c0 g4 by (intro timers_ok_free) (auto simp: set_remove1_eq)
  have fd: "fd_of w c = cfd cn" using m(1) by (simp add: fd_of_def)
  have clo: "closed_from w c ?w'"
    unfolding closed_from_def fd using base w1(5,6) g4 m(2) by (simp add: fun_eq_iff efd_def)
  have sound: "conn_sound ?w' d" if d: "d \<in> set ?cs" for d
  proof -
    have dc: "d \<in> set cs" "d \<noteq> c" using d cs' by auto
    obtain dn dv dm where dm: "cmem w d = Some dn" "evs w d = Some dv" "get_timer w d = Some dm"
      "buffer_ok (cbuffer dn)" "cfd dn \<in> fds w"
      by (rule worker_ok_conn [OF ok dc(1)])
    have "fd_of w d \<noteq> fd_of w c" using D(9) dc c by (auto dest: inj_onD)
    then have "cfd dn \<noteq> cfd cn" using dm(1) m(1) by (simp add: fd_of_def)
    then show ?thesis using dm dc(2) base w1(5) g4 by (simp add: conn_sound_def)
  qed
  have "inj_on (fd_of ?w') (set ?cs)"
  proof (rule inj_on_subset [where A = "set cs - {c}"])
    show "inj_on (fd_of ?w') (set cs - {c})"
      using D(9) base(3) by (auto simp: inj_on_def fd_of_def)
  qed (use cs' in simp)
  then have "worker_ok ?w' ?cs t2"
    unfolding worker_ok_def
    using tok sound w2(3) D(3-6,8) cs' g4 base timers_okD(5) [OF D(2)] c ring_free [OF l(2), of c]
    by (auto simp: set_remove1_eq)
  then show thesis using that eq w2(3) clo by blast
qed

section \<open>Resetting a connection\<close>

lemma assign_timer_simps [simp]:
  "cmem (assign_timer w c tm) = cmem w" "evs (assign_timer w c tm) = evs w"
  "wlinks (assign_timer w c tm) = wlinks w" "get_timer (assign_timer w c tm) = (get_timer w)(c \<mapsto> tm)"
  "fds (assign_timer w c tm) = fds w" "interest (assign_timer w c tm) = interest w"
  "conns (assign_timer w c tm) = conns w" "num_conns (assign_timer w c tm) = num_conns w"
  "outbox (assign_timer w c tm) = outbox w" "calls (assign_timer w c tm) = calls w"
  "clock (assign_timer w c tm) = clock w" "ticks (assign_timer w c tm) = ticks w"
  "sock (assign_timer w c tm) = sock w" "epollfd (assign_timer w c tm) = epollfd w" "running (assign_timer w c tm) = running w"
  "worker.more (assign_timer w c tm) = worker.more w"
  by (auto simp: assign_timer_def get_timer_def)

lemma ordered_assign:
  assumes "tim.ordered s t" "c \<notin> set (inord t)" "c \<noteq> NULL" "c \<noteq> RBNIL"
  shows "tim.ordered (s\<lparr>nodes := (nodes s)(c \<mapsto> n), pay := (pay s)(c \<mapsto> v)\<rparr>) t"
proof -
  let ?s = "s\<lparr>nodes := (nodes s)(c \<mapsto> n), pay := (pay s)(c \<mapsto> v)\<rparr>"
  have "map (tim.node_key ?s) (inord t) = map (tim.node_key s) (inord t)"
    using assms(2) by (auto simp: tim.node_key_def val_def)
  then show ?thesis using assms unfolding tim.ordered_def
    by (simp only: simp_thms) (auto simp: holds_def pays_def focus_def nil_ok_def)
qed

lemma timers_ok_assign:
  assumes ok: "timers_ok w t" and c: "c \<notin> set (inord t)" "c \<noteq> NULL" "c \<noteq> RBNIL" and "\<not> active tm"
  shows "timers_ok (assign_timer w c tm) t"
proof -
  have "tim.ordered (timers (assign_timer w c tm)) t"
    using ordered_assign [OF timers_okD(1) [OF ok] c] by (simp add: assign_timer_def)
  then show ?thesis using ok c assms(5) by (auto simp: timers_ok_def get_timer_def assign_timer_def)
qed

definition conn_timer :: "addr \<Rightarrow> timer" where
  "conn_timer c = make_timer TIMEOUT TIMER_FLAG_ONESHOT timeout_cb c"

lemma conn_timer_simps [simp]:
  "\<not> active (conn_timer c)" "oneshot (conn_timer c)" "tcb (conn_timer c) = timeout_cb" "tdata (conn_timer c) = c"
  by (simp_all add: conn_timer_def make_timer_def active_def oneshot_def has_flag_def
      TIMER_FLAG_ACTIVE_def TIMER_FLAG_ONESHOT_def)

lemma armed_simps [simp]:
  "active (armed n tm)" "oneshot (armed n tm) = oneshot tm" "tcb (armed n tm) = tcb tm" "tdata (armed n tm) = tdata tm"
  "trigger (armed n tm) = n + ucast (interval tm) * 1000000"
  by (simp_all add: armed_def active_def oneshot_def)

lemma add_timer_frame:
  assumes "add_timer w c = Some (OK, w')"
  shows "w' = w\<lparr>timers := timers w', ticks := ticks w'\<rparr>"
  using assms by (auto simp: add_timer_def update_trigger_def get_time_def put_timer_def Let_def
      Option.bind_eq_Some_conv split: if_splits)

text \<open>What \<^verbatim>\<open>reset_connection\<close> changes: the request, the write position, the timer and, when it was
  registered, the event.\<close>

definition reset_from :: "'a worker_scheme \<Rightarrow> addr \<Rightarrow> connection \<Rightarrow> 'a worker_scheme \<Rightarrow> bool" where
  "reset_from w c cn w' \<longleftrightarrow>
     cmem w' = (cmem w)(c \<mapsto> cn\<lparr>req := request0, write_bytes := 0\<rparr>)
     \<and> get_timer w' = (get_timer w)(c \<mapsto> armed (now_of w) (conn_timer c))
     \<and> dom (evs w') = dom (evs w) \<and> (\<forall>d. d \<noteq> c \<longrightarrow> evs w' d = evs w d)
     \<and> (\<forall>f. registered w c \<longrightarrow> f \<noteq> efd w c \<longrightarrow> interest w' f = interest w f)
     \<and> (\<not> registered w c \<longrightarrow> interest w' = interest w)
     \<and> wlinks w' = wlinks w \<and> conns w' = conns w \<and> fds w' = fds w \<and> num_conns w' = num_conns w
     \<and> outbox w' = outbox w \<and> clock w' = clock w \<and> ticks w' = Suc (ticks w)
     \<and> sock w' = sock w \<and> epollfd w' = epollfd w \<and> running w' = running w \<and> worker.more w' = worker.more w"

lemma set_conn_simps [simp]:
  "cmem (set_conn w c cn) = (cmem w)(c \<mapsto> cn)" "timers (set_conn w c cn) = timers w"
  "evs (set_conn w c cn) = evs w" "wlinks (set_conn w c cn) = wlinks w" "fds (set_conn w c cn) = fds w"
  "interest (set_conn w c cn) = interest w" "conns (set_conn w c cn) = conns w"
  "num_conns (set_conn w c cn) = num_conns w" "outbox (set_conn w c cn) = outbox w"
  "calls (set_conn w c cn) = calls w" "clock (set_conn w c cn) = clock w" "ticks (set_conn w c cn) = ticks w"
  "sock (set_conn w c cn) = sock w" "epollfd (set_conn w c cn) = epollfd w" "running (set_conn w c cn) = running w"
  "get_timer (set_conn w c cn) = get_timer w" "worker.more (set_conn w c cn) = worker.more w"
  by (auto simp: set_conn_def get_timer_def)

lemma sys_call_simps [simp]:
  "cmem (sys_call w) = cmem w" "timers (sys_call w) = timers w" "evs (sys_call w) = evs w"
  "wlinks (sys_call w) = wlinks w" "fds (sys_call w) = fds w" "interest (sys_call w) = interest w"
  "conns (sys_call w) = conns w" "num_conns (sys_call w) = num_conns w" "outbox (sys_call w) = outbox w"
  "clock (sys_call w) = clock w" "ticks (sys_call w) = ticks w" "get_timer (sys_call w) = get_timer w"
  "calls (sys_call w) = Suc (calls w)" "sock (sys_call w) = sock w" "epollfd (sys_call w) = epollfd w" "running (sys_call w) = running w"
  "worker.more (sys_call w) = worker.more w"
  by (auto simp: sys_call_def get_timer_def)

lemma reset_timer_ok:
  assumes ok: "timers_ok w t" and c: "get_timer w c = Some tm" "c \<noteq> NULL"
    and one: "c \<notin> set (inord t) \<or> \<not> two_children (timers w) c"
  obtains w' t' where
    "do { w \<leftarrow> (if has_flag (tflags tm) TIMER_FLAG_ACTIVE
               then do { (_, w) \<leftarrow> del_timer w c; Some w } else Some w);
          let w = assign_timer w c (make_timer TIMEOUT TIMER_FLAG_ONESHOT timeout_cb c);
          add_timer w c } = Some (OK, w')"
    "timers_ok w' t'" "inord t' = insort_key (trig w') c (remove1 c (inord t))"
    "get_timer w' = (get_timer w)(c \<mapsto> armed (now_of w) (conn_timer c))"
    "w' = w\<lparr>timers := timers w', ticks := Suc (ticks w)\<rparr>"
proof -
  obtain w1 t1 where w1: "(if has_flag (tflags tm) TIMER_FLAG_ACTIVE
      then do { (_, w) \<leftarrow> del_timer w c; Some w } else Some w) = Some w1"
    "timers_ok w1 t1" "inord t1 = remove1 c (inord t)" "w1 = w\<lparr>timers := timers w1\<rparr>"
    "\<forall>d. d \<noteq> c \<longrightarrow> get_timer w1 d = get_timer w d" "get_timer w1 c \<noteq> None"
  proof -
    obtain r w1 t1 tm1 where d: "del_timer w c = Some (r, w1)" "timers_ok w1 t1" "inord t1 = remove1 c (inord t)"
      "w1 = w\<lparr>timers := timers w1\<rparr>" "get_timer w1 = (get_timer w)(c \<mapsto> tm1)"
      by (rule del_timer_gone [OF ok c(1) one])
    show thesis
    proof (cases "active tm")
      case True
      then show thesis using that [of w1 t1] d by (simp add: active_def)
    next
      case False
      then have "c \<notin> set (inord t)" using ok c(1) by (auto simp: timers_ok_def)
      then show thesis using that [of w t] False ok c(1) by (simp add: active_def remove1_idem)
    qed
  qed
  have cn: "c \<notin> set (inord t1)" using w1(3) timers_okD(5) [OF ok] by (simp add: set_remove1_eq)
  have "c \<noteq> RBNIL" using ok c(1) by (auto simp: timers_ok_def)
  let ?w2 = "assign_timer w1 c (conn_timer c)"
  have ok2: "timers_ok ?w2 t1"
    by (rule timers_ok_assign [OF w1(2) cn c(2) \<open>c \<noteq> RBNIL\<close>]) simp
  have g2: "get_timer ?w2 c = Some (conn_timer c)" by simp
  obtain w3 t3 where w3: "add_timer ?w2 c = Some (OK, w3)" "timers_ok w3 t3"
    "inord t3 = insort_key (trig w3) c (inord t1)"
    "get_timer w3 = (get_timer ?w2)(c \<mapsto> armed (now_of ?w2) (conn_timer c))" "ticks w3 = Suc (ticks ?w2)"
    by (rule add_timer_ok [OF ok2 g2]) simp
  have "clock w1 = clock w" "ticks w1 = ticks w" by (subst w1(4), simp)+
  then have n: "now_of ?w2 = now_of w" by (simp add: now_of_def)
  have "w3 = w1\<lparr>timers := timers w3, ticks := Suc (ticks w)\<rparr>"
    using add_timer_frame [OF w3(1)] w3(5) \<open>ticks w1 = ticks w\<close> by (simp add: assign_timer_def)
  also have "\<dots> = w\<lparr>timers := timers w3, ticks := Suc (ticks w)\<rparr>" by (subst w1(4)) simp
  finally have fr: "w3 = w\<lparr>timers := timers w3, ticks := Suc (ticks w)\<rparr>" .
  show thesis
    by (rule that [of w3 t3])
      (use w1 w3 n fr in \<open>simp_all add: conn_timer_def fun_eq_iff\<close>)
qed

lemma reset_connection_ok:
  assumes ok: "worker_ok w cs t" and c: "c \<in> set cs" and cn: "cmem w c = Some cn"
    and one: "c \<notin> set (inord t) \<or> \<not> two_children (timers w) c"
  obtains w' t' where "reset_connection os w c = Some (OK, w')" "worker_ok w' cs t'"
    "inord t' = insort_key (trig w') c (remove1 c (inord t))" "reset_from w c cn w'"
proof -
  obtain ev tm where m: "evs w c = Some ev" "get_timer w c = Some tm" "buffer_ok (cbuffer cn)" "cfd cn \<in> fds w"
    by (rule worker_ok_conn [OF ok c]) (use cn in simp)
  note D = worker_okD [OF ok]
  let ?w0 = "set_conn w c (cn\<lparr>req := request0, write_bytes := 0\<rparr>)"
  have ok0: "timers_ok ?w0 t" using D(2) timers_ok_cong [of ?w0 w] by simp
  have c0: "c \<noteq> NULL" using c D(7) by metis
  obtain w1 t1 where w1:
    "do { w \<leftarrow> (if has_flag (tflags tm) TIMER_FLAG_ACTIVE
               then do { (_, w) \<leftarrow> del_timer ?w0 c; Some w } else Some ?w0);
          let w = assign_timer w c (make_timer TIMEOUT TIMER_FLAG_ONESHOT timeout_cb c);
          add_timer w c } = Some (OK, w1)"
    "timers_ok w1 t1" "inord t1 = insort_key (trig w1) c (remove1 c (inord t))"
    "get_timer w1 = (get_timer ?w0)(c \<mapsto> armed (now_of ?w0) (conn_timer c))"
    "w1 = ?w0\<lparr>timers := timers w1, ticks := Suc (ticks ?w0)\<rparr>"
    by (rule reset_timer_ok [OF ok0, of c tm]) (use m(2) c0 one in simp_all)
  have f1: "evs w1 = evs w" "cmem w1 = (cmem w)(c \<mapsto> cn\<lparr>req := request0, write_bytes := 0\<rparr>)"
    "wlinks w1 = wlinks w" "conns w1 = conns w" "fds w1 = fds w" "num_conns w1 = num_conns w"
    "outbox w1 = outbox w" "clock w1 = clock w" "ticks w1 = Suc (ticks w)" "sock w1 = sock w" "epollfd w1 = epollfd w" "running w1 = running w"
    "interest w1 = interest w" "worker.more w1 = worker.more w"
    by (subst w1(5), simp)+
  obtain w2 where w2: "(if has_flag (eflags ev) EVENT_FLAG_ACTIVE
                 then do { (_, w) \<leftarrow> del_event (os_ctl os (calls w1)) w1 c; Some (sys_call w) }
                 else Some w1) = Some w2" "timers w2 = timers w1"
    "dom (evs w2) = dom (evs w1)" "\<forall>d. d \<noteq> c \<longrightarrow> evs w2 d = evs w1 d"
    "cmem w2 = cmem w1" "wlinks w2 = wlinks w1" "conns w2 = conns w1" "fds w2 = fds w1"
    "num_conns w2 = num_conns w1" "outbox w2 = outbox w1" "clock w2 = clock w1" "ticks w2 = ticks w1"
    "sock w2 = sock w1" "epollfd w2 = epollfd w1" "running w2 = running w1" "worker.more w2 = worker.more w1"
    "has_flag (eflags ev) EVENT_FLAG_ACTIVE \<longrightarrow> (\<forall>f. f \<noteq> evfd ev \<longrightarrow> interest w2 f = interest w1 f)"
    "\<not> has_flag (eflags ev) EVENT_FLAG_ACTIVE \<longrightarrow> interest w2 = interest w1"
  proof (cases "has_flag (eflags ev) EVENT_FLAG_ACTIVE")
    case True
    have e1: "evs w1 c = Some ev" using m(1) f1(1) by simp
    obtain r w2 where
      d: "del_event (os_ctl os (calls w1)) w1 c = Some (r, w2)" "timers w2 = timers w1"
      "w2 = w1\<lparr>evs := evs w2, interest := interest w2\<rparr>" "dom (evs w2) = dom (evs w1)"
      "\<forall>d. d \<noteq> c \<longrightarrow> evs w2 d = evs w1 d" "\<forall>f. f \<noteq> evfd ev \<longrightarrow> interest w2 f = interest w1 f"
      by (rule del_event_eq [OF e1, of "os_ctl os (calls w1)"])
    have "cmem w2 = cmem w1" "wlinks w2 = wlinks w1" "conns w2 = conns w1" "fds w2 = fds w1"
      "num_conns w2 = num_conns w1" "outbox w2 = outbox w1" "clock w2 = clock w1" "ticks w2 = ticks w1"
      "sock w2 = sock w1" "epollfd w2 = epollfd w1" "running w2 = running w1" "worker.more w2 = worker.more w1"
      by (subst d(3), simp)+
    then show thesis using that [of "sys_call w2"] d True by simp
  next
    case False
    then show thesis using that [of w1] by simp
  qed
  have eq: "reset_connection os w c = Some (OK, w2)"
  proof -
    obtain wa where wa: "(if has_flag (tflags tm) TIMER_FLAG_ACTIVE
               then do { (_, w) \<leftarrow> del_timer ?w0 c; Some w } else Some ?w0) = Some wa"
      "add_timer (assign_timer wa c (make_timer TIMEOUT TIMER_FLAG_ONESHOT timeout_cb c)) c = Some (OK, w1)"
      using w1(1) by (auto simp: Let_def Option.bind_eq_Some_conv simp del: if_split)
    have "get_timer ?w0 c = Some tm" "evs w1 c = Some ev" using m(1,2) f1(1) by simp_all
    then show ?thesis
      unfolding reset_connection_def cn Let_def Option.bind.bind_lunit
      by (simp only: wa w2(1) Option.bind.bind_lunit prod.case simp_thms if_False)
  qed
  have g2: "get_timer w2 = (get_timer w)(c \<mapsto> armed (now_of w) (conn_timer c))"
    using w1(4) get_timer_cong [OF w2(2)] by (simp add: now_of_def)
  have rf: "reset_from w c cn w2" unfolding reset_from_def using f1 w2 g2 m(1) by (simp add: registered_def efd_def)
  have i: "inord t1 = insort_key (trig w2) c (remove1 c (inord t))" using w1(3) w2(2) by simp
  have "fd_of w2 = fd_of w" using f1(2) w2(5) cn by (auto simp: fd_of_def fun_eq_iff)
  moreover have "conn_sound w2 d" if d: "d \<in> set cs" for d
  proof -
    obtain dn dv where "cmem w d = Some dn" "evs w d = Some dv" "get_timer w d \<noteq> None"
      "buffer_ok (cbuffer dn)" "cfd dn \<in> fds w"
      using ok d by (auto simp: worker_ok_def conn_sound_def)
    moreover have "d \<in> dom (evs w2)" using w2(3) f1(1) \<open>evs w d = Some dv\<close> by auto
    ultimately show ?thesis using f1 w2 g2 m(3,4) cn by (auto simp: conn_sound_def)
  qed
  moreover have "set (inord t1) \<subseteq> set cs"
    using i c D(3) set_remove1_subset [of c "inord t"] by (auto simp: set_insort_key)
  ultimately have "worker_ok w2 cs t1"
    unfolding worker_ok_def using D c f1 w2(3-) g2 w1(2) timers_ok_cong [OF w2(2)] by auto
  then show thesis using that eq i rf by blast
qed

section \<open>Waiting for the next event\<close>

text \<open>
  \<^verbatim>\<open>begin_read\<close> and \<^verbatim>\<open>begin_send\<close> both reset the connection, set its state and register a new event;
  \<open>f\<close> is the change of the connection and \<open>k\<close> what follows.
\<close>

definition rearm ::
  "env \<Rightarrow> (connection \<Rightarrow> connection) \<Rightarrow> u32 \<Rightarrow> ('a worker_scheme \<Rightarrow> 'a worker_scheme option)
     \<Rightarrow> 'a worker_scheme \<Rightarrow> addr \<Rightarrow> 'a worker_scheme option" where
  "rearm os f ev k w c =
     do { (ret, w) \<leftarrow> reset_connection os w c;
          if ret \<noteq> OK then close_connection os w c
          else do {
            cn \<leftarrow> cmem w c;
            let w = set_conn w c (f cn);
            let w = w\<lparr>evs := (evs w)(c \<mapsto> make_event (cfd cn) ev io_cb c)\<rparr>;
            (ret, w) \<leftarrow> add_event (os_ctl os (calls w)) w c;
            let w = sys_call w;
            if ret \<noteq> OK then close_connection os w c else k w } }"

lemma begin_read_rearm:
  "begin_read os w c =
     rearm os (\<lambda>cn. cn\<lparr>cbuffer := clear_buffer (cbuffer cn), cstate := CONNECTION_STATE_IN\<rparr>)
       (EPOLLIN OR EPOLLET) Some w c"
  by (simp add: begin_read_def rearm_def)

lemma begin_send_rearm:
  "begin_send os w c =
     rearm os (\<lambda>cn. cn\<lparr>cstate := CONNECTION_STATE_OUT\<rparr>) (EPOLLOUT OR EPOLLET) (\<lambda>w. send_data os w c) w c"
  by (simp add: begin_send_def rearm_def)

text \<open>The worker once the connection \<open>c\<close> waits again, as \<open>cn\<close> and with the event mask \<open>ev\<close>.\<close>

definition waiting_from :: "'a worker_scheme \<Rightarrow> addr \<Rightarrow> connection \<Rightarrow> u32 \<Rightarrow> bool \<Rightarrow> 'a worker_scheme \<Rightarrow> bool" where
  "waiting_from w c cn ev reg w' \<longleftrightarrow>
     cmem w' = (cmem w)(c \<mapsto> cn) \<and> get_timer w' = (get_timer w)(c \<mapsto> armed (now_of w) (conn_timer c))
     \<and> (\<forall>d. d \<noteq> c \<longrightarrow> evs w' d = evs w d)
     \<and> (\<exists>e. evs w' c = Some e \<and> evfd e = cfd cn \<and> events e = ev \<and> ecb e = io_cb \<and> edata e = c)
     \<and> (reg \<longrightarrow> interest w' (cfd cn) = Some (ev, c))
     \<and> (\<forall>f. registered w c \<longrightarrow> f \<noteq> cfd cn \<longrightarrow> f \<noteq> efd w c \<longrightarrow> interest w' f = interest w f)
     \<and> (\<forall>f. \<not> registered w c \<longrightarrow> f \<noteq> cfd cn \<longrightarrow> interest w' f = interest w f)
     \<and> wlinks w' = wlinks w \<and> conns w' = conns w \<and> fds w' = fds w \<and> num_conns w' = num_conns w
     \<and> outbox w' = outbox w \<and> clock w' = clock w \<and> ticks w' = Suc (ticks w)
     \<and> sock w' = sock w \<and> epollfd w' = epollfd w \<and> running w' = running w \<and> worker.more w' = worker.more w"

lemma worker_ok_set_conn:
  assumes ok: "worker_ok w cs t" and c: "c \<in> set cs" and cn: "cmem w c = Some cn"
    and n: "cfd cn' = cfd cn" "buffer_ok (cbuffer cn')"
    and w': "timers w' = timers w" "wlinks w' = wlinks w" "conns w' = conns w" "fds w' = fds w"
      "cmem w' = (cmem w)(c \<mapsto> cn')" "set cs \<subseteq> dom (evs w')"
  shows "worker_ok w' cs t"
proof -
  note D = worker_okD [OF ok]
  have "fd_of w' = fd_of w" using w'(5) cn n(1) by (auto simp: fd_of_def fun_eq_iff)
  moreover have "conn_sound w' d" if d: "d \<in> set cs" for d
  proof -
    obtain dn dv where "cmem w d = Some dn" "get_timer w d \<noteq> None" "buffer_ok (cbuffer dn)" "cfd dn \<in> fds w"
      using ok d by (auto simp: worker_ok_def conn_sound_def)
    moreover have "d \<in> dom (evs w')" using w'(6) d by blast
    ultimately show ?thesis using w' n cn get_timer_cong [OF w'(1)] by (auto simp: conn_sound_def)
  qed
  ultimately show ?thesis
    unfolding worker_ok_def
    using D c w' get_timer_cong [OF w'(1)] timers_ok_cong [OF w'(1)] by auto
qed

lemma rearm_ok:
  assumes ok: "worker_ok w cs t" and c: "c \<in> set cs" and cn: "cmem w c = Some cn"
    and one: "c \<notin> set (inord t) \<or> \<not> two_children (timers w) c"
    and f: "\<And>n. cfd (f n) = cfd n" "buffer_ok (cbuffer (f (cn\<lparr>req := request0, write_bytes := 0\<rparr>)))"
  obtains w1 t1 reg where
    "rearm os f ev k w c = (if reg then k w1 else close_connection os w1 c)"
    "(\<forall>n. os_ctl os n = 0) \<longrightarrow> reg" "worker_ok w1 cs t1"
    "inord t1 = insort_key (trig w1) c (remove1 c (inord t))"
    "waiting_from w c (f (cn\<lparr>req := request0, write_bytes := 0\<rparr>)) ev reg w1"
proof -
  obtain w0 t0 where r: "reset_connection os w c = Some (OK, w0)" "worker_ok w0 cs t0"
    "inord t0 = insort_key (trig w0) c (remove1 c (inord t))" "reset_from w c cn w0"
    by (rule reset_connection_ok [OF ok c cn one])
  let ?cn = "cn\<lparr>req := request0, write_bytes := 0\<rparr>"
  let ?e = "make_event (cfd cn) ev io_cb c"
  let ?w1 = "(set_conn w0 c (f ?cn))\<lparr>evs := (evs w0)(c \<mapsto> ?e)\<rparr>"
  let ?reg = "os_ctl os (calls ?w1) = 0"
  have m0: "cmem w0 c = Some ?cn" using r(4) by (simp add: reset_from_def)
  obtain w2 ret where w2: "add_event (os_ctl os (calls ?w1)) ?w1 c = Some (ret, w2)" "ret = (if ?reg then OK else ERR)"
    "timers w2 = timers w0" "wlinks w2 = wlinks w0" "conns w2 = conns w0" "fds w2 = fds w0"
    "cmem w2 = (cmem w0)(c \<mapsto> f ?cn)" "\<forall>d. d \<noteq> c \<longrightarrow> evs w2 d = evs w0 d"
    "\<exists>e. evs w2 c = Some e \<and> evfd e = cfd cn \<and> events e = ev \<and> ecb e = io_cb \<and> edata e = c"
    "?reg \<longrightarrow> interest w2 (cfd cn) = Some (ev, c)" "\<forall>f. f \<noteq> cfd cn \<longrightarrow> interest w2 f = interest w0 f"
    "num_conns w2 = num_conns w0" "outbox w2 = outbox w0" "clock w2 = clock w0" "ticks w2 = ticks w0"
    "sock w2 = sock w0" "epollfd w2 = epollfd w0" "running w2 = running w0" "worker.more w2 = worker.more w0"
    by (cases ?reg) (simp_all add: add_event_def make_event_def)
  let ?w3 = "sys_call w2"
  have fd: "cfd (f ?cn) = cfd cn" using f(1) [of ?cn] by simp
  have "set cs \<subseteq> dom (evs ?w3)"
  proof
    fix d assume "d \<in> set cs"
    then have "evs w0 d \<noteq> None" using r(2) by (auto simp: worker_ok_def conn_sound_def)
    then show "d \<in> dom (evs ?w3)" using w2(8,9) by (cases "d = c") auto
  qed
  then have ok3: "worker_ok ?w3 cs t0"
    by (intro worker_ok_set_conn [OF r(2) c m0, of "f ?cn"]) (use w2 fd f(2) in simp_all)
  have "rearm os f ev k w c = (if ?reg then k ?w3 else close_connection os ?w3 c)"
    using r(1) m0 w2(1,2) by (simp add: rearm_def)
  moreover have "inord t0 = insort_key (trig ?w3) c (remove1 c (inord t))" using r(3) w2(3) by simp
  moreover have "waiting_from w c (f ?cn) ev ?reg ?w3"
    using r(4) w2 fd get_timer_cong [OF w2(3)] by (simp add: waiting_from_def reset_from_def)
  ultimately show thesis using that ok3 by blast
qed

end
