(* ===== verification/Cask_Serve.thy ===== *)
theory Cask_Serve
  imports Cask_Conn_Inv
begin

text \<open>
  What the callbacks of a worker do to its connections.  \<open>serving\<close> is the state a worker is in
  between two callbacks: every connection waits for its event, with its timeout armed, and the
  counter the monitor reports is the number of connections.  The theory shows how sending, receiving,
  accepting and timeouts keep it, and what reaches the peer.
\<close>

section \<open>Nodes that can be deleted\<close>

definition lone :: "'a worker_scheme \<Rightarrow> ptree \<Rightarrow> addr \<Rightarrow> bool" where
  "lone w t c \<longleftrightarrow> c \<notin> set (inord t) \<or> \<not> two_children (timers w) c"

lemma one_side_lone:
  assumes "rep s t" "t = fill k (N c l a r)" "l = E \<or> r = E"
  shows "\<not> two_children s a"
  using assms focus_get(2,3) [of s k c l a r] by (auto simp: rep_fill two_children_def)

lemma few_lone:
  assumes "timers_ok w t" "length (inord t) \<le> 2"
  shows "lone w t c"
proof (cases "c \<in> set (inord t)")
  case True
  then obtain k d l r where t: "t = fill k (N d l c r)" using fill_find by metis
  then have "length (inord l) + length (inord r) \<le> 1" using assms(2) by (simp add: inord_fill)
  then have "l = E \<or> r = E" by (cases "inord l"; cases "inord r") auto
  then show ?thesis using one_side_lone [OF timers_okD(3) [OF assms(1)] t] by (simp add: lone_def)
qed (simp add: lone_def)

lemma worker_few_lone:
  assumes "worker_ok w cs t" "length cs \<le> 2"
  shows "lone w t c"
proof -
  note D = worker_okD [OF assms(1)]
  have "length (inord t) = card (set (inord t))" using timers_okD(5) [OF D(2)] by (simp add: distinct_card)
  also have "\<dots> \<le> card (set cs)" using D(3) by (simp add: card_mono)
  also have "\<dots> \<le> 2" using assms(2) card_length [of cs] by linarith
  finally show ?thesis by (rule few_lone [OF D(2)])
qed

section \<open>The state between two callbacks\<close>

definition mask_of :: "connection_state \<Rightarrow> u32" where
  "mask_of st = (if st = CONNECTION_STATE_IN then EPOLLIN OR EPOLLET else EPOLLOUT OR EPOLLET)"

definition conn_ready :: "'a worker_scheme \<Rightarrow> addr \<Rightarrow> bool" where
  "conn_ready w c \<longleftrightarrow>
     (\<exists>cn ev tm. cmem w c = Some cn \<and> evs w c = Some ev \<and> get_timer w c = Some tm
        \<and> oneshot tm \<and> tcb tm = timeout_cb \<and> tdata tm = c
        \<and> ecb ev = io_cb \<and> edata ev = c \<and> evfd ev = cfd cn
        \<and> cstate cn \<in> {CONNECTION_STATE_IN, CONNECTION_STATE_OUT}
        \<and> interest w (cfd cn) = Some (mask_of (cstate cn), c)
        \<and> write_bytes cn \<le> bsize (cbuffer cn))"

definition ready :: "'a worker_scheme \<Rightarrow> addr list \<Rightarrow> ptree \<Rightarrow> bool" where
  "ready w cs t \<longleftrightarrow> worker_ok w cs t \<and> set (inord t) = set cs \<and> (\<forall>c\<in>set cs. conn_ready w c)"

definition serving :: "'a worker_scheme \<Rightarrow> addr list \<Rightarrow> ptree \<Rightarrow> bool" where
  "serving w cs t \<longleftrightarrow> ready w cs t \<and> num_conns w = of_nat (length cs)"

lemma readyD:
  assumes "ready w cs t"
  shows "worker_ok w cs t" "set (inord t) = set cs" "c \<in> set cs \<Longrightarrow> conn_ready w c"
  using assms by (auto simp: ready_def)

lemma ready_conn:
  assumes "ready w cs t" "c \<in> set cs"
  obtains cn where "cmem w c = Some cn" "buffer_ok (cbuffer cn)" "fd_of w c = cfd cn" "efd w c = cfd cn"
    "cstate cn = CONNECTION_STATE_IN \<or> cstate cn = CONNECTION_STATE_OUT" "write_bytes cn \<le> bsize (cbuffer cn)"
proof -
  obtain cn ev where c: "cmem w c = Some cn" "evs w c = Some ev" "evfd ev = cfd cn"
    "cstate cn \<in> {CONNECTION_STATE_IN, CONNECTION_STATE_OUT}" "write_bytes cn \<le> bsize (cbuffer cn)"
    using readyD(3) [OF assms] unfolding conn_ready_def by blast
  obtain cn' where "cmem w c = Some cn'" "buffer_ok (cbuffer cn')"
    by (rule worker_ok_conn [OF readyD(1) [OF assms(1)] assms(2)])
  with c show thesis using that [of cn] by (simp add: fd_of_def efd_def)
qed

text \<open>A connection keeps waiting when its parts are untouched.\<close>

lemma conn_ready_cong:
  assumes "conn_ready w d" "cmem w' d = cmem w d" "get_timer w' d = get_timer w d" "evs w' d = evs w d"
    "interest w' (fd_of w d) = interest w (fd_of w d)"
  shows "conn_ready w' d"
  using assms by (auto simp: conn_ready_def fd_of_def)

lemma num_conns_remove1:
  assumes "c \<in> set cs"
  shows "(of_nat (length (remove1 c cs)) :: u64) = of_nat (length cs) - 1"
proof -
  obtain n where "length cs = Suc n" using assms by (cases cs) auto
  then show ?thesis using assms by (simp add: length_remove1)
qed

text \<open>Connections other than \<open>c\<close>, and \<open>c\<close> with its descriptor and event; what closing and waiting
  need of the worker when \<open>c\<close> is being served.\<close>

definition handling :: "'a worker_scheme \<Rightarrow> addr list \<Rightarrow> ptree \<Rightarrow> addr \<Rightarrow> bool" where
  "handling w cs t c \<longleftrightarrow>
     worker_ok w cs t \<and> c \<in> set cs \<and> set cs - {c} \<subseteq> set (inord t)
     \<and> (\<forall>d\<in>set cs - {c}. conn_ready w d)
     \<and> (registered w c \<longrightarrow> efd w c = fd_of w c)"

lemma ready_handling: "ready w cs t \<Longrightarrow> c \<in> set cs \<Longrightarrow> handling w cs t c"
  by (auto simp: ready_def handling_def conn_ready_def efd_def fd_of_def)

lemma handlingD:
  assumes "handling w cs t c"
  shows "worker_ok w cs t" "c \<in> set cs" "set cs - {c} \<subseteq> set (inord t)"
    "d \<in> set cs \<Longrightarrow> d \<noteq> c \<Longrightarrow> conn_ready w d" "registered w c \<Longrightarrow> efd w c = fd_of w c"
    "d \<in> set cs \<Longrightarrow> d \<noteq> c \<Longrightarrow> fd_of w d \<noteq> fd_of w c"
proof -
  show "d \<in> set cs \<Longrightarrow> d \<noteq> c \<Longrightarrow> fd_of w d \<noteq> fd_of w c"
    using assms worker_okD(9) [of w cs t] by (auto simp: handling_def dest: inj_onD)
qed (use assms in \<open>auto simp: handling_def\<close>)

lemma close_handling:
  assumes h: "handling w cs t c" and one: "lone w t c" and e: "efd w c = fd_of w c"
  obtains w' t' where "close_connection os w c = Some w'" "ready w' (remove1 c cs) t'" "closed_from w c w'"
    "inord t' = remove1 c (inord t)"
proof -
  note H = handlingD [OF h]
  note D = worker_okD [OF H(1)]
  obtain w' t' where r: "close_connection os w c = Some w'" "worker_ok w' (remove1 c cs) t'"
    "inord t' = remove1 c (inord t)" "closed_from w c w'"
    by (rule close_connection_ok [OF H(1,2)]) (use one in \<open>simp add: lone_def\<close>)
  have "conn_ready w' d" if "d \<in> set (remove1 c cs)" for d
  proof -
    have d: "d \<in> set cs" "d \<noteq> c" using that D(6) by (auto simp: set_remove1_eq)
    show ?thesis
      by (rule conn_ready_cong [OF H(4) [OF d]]) (use r(4) d H(6) [OF d] e in \<open>auto simp: closed_from_def\<close>)
  qed
  moreover have "set (inord t') = set (remove1 c cs)"
    using r(3) H(3) D(3,6) timers_okD(5) [OF D(2)] by (auto simp: set_remove1_eq)
  ultimately show thesis using that r by (simp add: ready_def)
qed

section \<open>Waiting again\<close>

text \<open>The descriptors of the worker that belong to no connection, with its socket and its epoll instance.\<close>

definition own :: "'a worker_scheme \<Rightarrow> addr list \<Rightarrow> int set \<times> int \<times> int" where
  "own w cs = (fds w - fd_of w ` set cs, sock w, epollfd w)"

text \<open>A change that concerns the memory of \<open>c\<close> only.\<close>

definition conn_frame :: "'a worker_scheme \<Rightarrow> addr \<Rightarrow> 'a worker_scheme \<Rightarrow> bool" where
  "conn_frame w c w' \<longleftrightarrow>
     num_conns w' = num_conns w \<and> conns w' = conns w \<and> (\<forall>d. d \<noteq> c \<longrightarrow> evs w' d = evs w d)
     \<and> fds w' = fds w \<and> fd_of w' = fd_of w \<and> sock w' = sock w \<and> epollfd w' = epollfd w"

lemma conn_frame_own: "conn_frame w c w' \<Longrightarrow> own w' cs = own w cs"
  by (simp add: conn_frame_def own_def)

lemma waiting_frame:
  assumes "waiting_from w c cn' ev reg w'" "cmem w c = Some cn" "cfd cn' = cfd cn"
  shows "conn_frame w c w'"
  using assms by (auto simp: waiting_from_def conn_frame_def fd_of_def fun_eq_iff)

lemma rearm_handling:
  assumes h: "handling w cs t c" and one: "lone w t c" and cn: "cmem w c = Some cn"
    and f: "\<And>n. cfd (f n) = cfd n" "\<And>n. write_bytes (f n) = write_bytes n" "\<And>n. cstate (f n) = st"
    and b: "buffer_ok (cbuffer (f (cn\<lparr>req := request0, write_bytes := 0\<rparr>)))"
    and st: "st = CONNECTION_STATE_IN \<or> st = CONNECTION_STATE_OUT"
  obtains w1 t1 reg where
    "rearm os f (mask_of st) k w c = (if reg then k w1 else close_connection os w1 c)"
    "(\<forall>n. os_ctl os n = 0) \<longrightarrow> reg" "handling w1 cs t1 c" "efd w1 c = fd_of w1 c"
    "reg \<longrightarrow> ready w1 cs t1" "inord t1 = insort_key (trig w1) c (remove1 c (inord t))"
    "waiting_from w c (f (cn\<lparr>req := request0, write_bytes := 0\<rparr>)) (mask_of st) reg w1" "conn_frame w c w1"
proof -
  note H = handlingD [OF h]
  let ?cn = "f (cn\<lparr>req := request0, write_bytes := 0\<rparr>)"
  have lo: "c \<notin> set (inord t) \<or> \<not> two_children (timers w) c" using one by (simp add: lone_def)
  obtain w1 t1 reg where r:
    "rearm os f (mask_of st) k w c = (if reg then k w1 else close_connection os w1 c)"
    "(\<forall>n. os_ctl os n = 0) \<longrightarrow> reg" "worker_ok w1 cs t1"
    "inord t1 = insort_key (trig w1) c (remove1 c (inord t))" "waiting_from w c ?cn (mask_of st) reg w1"
    by (rule rearm_ok [OF H(1,2) cn lo f(1) b])
  note W = r(5) [unfolded waiting_from_def]
  have fd: "fd_of w1 c = cfd cn" "fd_of w c = cfd cn" using W cn f(1) by (simp_all add: fd_of_def)
  have e: "efd w1 c = fd_of w1 c" using W fd f(1) by (auto simp: efd_def)
  have others: "conn_ready w1 d" if d: "d \<in> set cs" "d \<noteq> c" for d
  proof (rule conn_ready_cong [OF H(4) [OF d]])
    show "interest w1 (fd_of w d) = interest w (fd_of w d)"
      using W H(5) H(6) [OF d] fd f(1) by (cases "registered w c") auto
  qed (use W d in auto)
  have inn: "set (inord t1) = insert c (set (inord t) - {c})"
    using r(4) timers_okD(5) [OF worker_okD(2) [OF H(1)]] by (simp add: set_insort_key set_remove1_eq)
  have hand: "handling w1 cs t1 c"
    unfolding handling_def using r(3) H(2,3) inn others e by auto
  have "reg \<longrightarrow> conn_ready w1 c"
  proof
    assume reg
    with W show "conn_ready w1 c" using f st unfolding conn_ready_def
      by (intro exI [of _ ?cn]) auto
  qed
  moreover have "set (inord t1) = set cs" using inn H(2,3) worker_okD(3) [OF H(1)] by auto
  ultimately have "reg \<longrightarrow> ready w1 cs t1"
    unfolding ready_def using r(3) others by metis
  then show thesis using that r(1,2,4,5) hand e waiting_frame [OF r(5) cn] f(1) by simp
qed

text \<open>The worker after a callback that served \<open>c\<close>: \<open>c\<close> waits again, or it has been closed and its
  descriptor given back, and the events of the others are untouched.\<close>

definition settled :: "'a worker_scheme \<Rightarrow> addr list \<Rightarrow> addr \<Rightarrow> 'a worker_scheme \<Rightarrow> bool" where
  "settled w cs c w' \<longleftrightarrow>
     (\<exists>t'. ready w' cs t' \<and> num_conns w' = num_conns w \<and> own w' cs = own w cs
        \<or> ready w' (remove1 c cs) t' \<and> num_conns w' = num_conns w - 1 \<and> evs w' c = None
          \<and> own w' (remove1 c cs) = own w cs)
     \<and> (\<forall>d. d \<noteq> c \<longrightarrow> evs w' d = evs w d) \<and> conns w' = conns w"

lemma settled_serving:
  assumes "settled w cs c w'" "c \<in> set cs" "num_conns w = of_nat (length cs)"
  obtains cs' t' where "serving w' cs' t'" "cs' = cs \<or> cs' = remove1 c cs \<and> evs w' c = None" "own w' cs' = own w cs"
  using assms num_conns_remove1 [OF assms(2), symmetric] by (auto simp: settled_def serving_def)

lemma settled_trans: "conn_frame w c w1 \<Longrightarrow> settled w1 cs c w' \<Longrightarrow> settled w cs c w'"
  using conn_frame_own [of w c w1 cs] by (simp add: settled_def conn_frame_def)

lemma closed_own:
  assumes "closed_from w c w'" "c \<in> set cs" "distinct cs"
  shows "own w' (remove1 c cs) = own w cs"
proof -
  have "fd_of w' ` (set cs - {c}) = fd_of w ` (set cs - {c})"
    using assms(1) by (intro image_cong) (auto simp: closed_from_def fd_of_def)
  moreover have "fd_of w ` set cs = insert (fd_of w c) (fd_of w ` (set cs - {c}))" using assms(2) by auto
  ultimately show ?thesis using assms by (auto simp: own_def closed_from_def set_remove1_eq)
qed

lemma close_settled:
  assumes h: "handling w cs t c" and one: "lone w t c" and e: "efd w c = fd_of w c"
  obtains w' where "close_connection os w c = Some w'" "settled w cs c w'"
proof -
  obtain w' t' where "close_connection os w c = Some w'" "ready w' (remove1 c cs) t'" "closed_from w c w'"
    by (rule close_handling [OF assms])
  moreover have "own w' (remove1 c cs) = own w cs"
    by (rule closed_own) (use h worker_okD(6) [OF handlingD(1) [OF h]] handlingD(2) [OF h] \<open>closed_from w c w'\<close> in auto)
  ultimately show thesis using that by (auto simp: settled_def closed_from_def)
qed

lemma mask_of_simps [simp]:
  "mask_of CONNECTION_STATE_IN = EPOLLIN OR EPOLLET" "mask_of CONNECTION_STATE_OUT = EPOLLOUT OR EPOLLET"
  by (simp_all add: mask_of_def)

lemma begin_read_settled:
  assumes h: "handling w cs t c" and few: "length cs \<le> 2"
  obtains w' where "begin_read os w c = Some w'" "settled w cs c w'"
proof -
  note H = handlingD [OF h]
  obtain cn where cn: "cmem w c = Some cn" "buffer_ok (cbuffer cn)" by (rule worker_ok_conn [OF H(1,2)])
  obtain w1 t1 reg where r:
    "begin_read os w c = (if reg then Some w1 else close_connection os w1 c)"
    "handling w1 cs t1 c" "efd w1 c = fd_of w1 c" "reg \<longrightarrow> ready w1 cs t1"
    "conn_frame w c w1"
    unfolding begin_read_rearm
    by (rule rearm_handling [OF h worker_few_lone [OF H(1) few] cn(1),
          of "\<lambda>cn. cn\<lparr>cbuffer := clear_buffer (cbuffer cn), cstate := CONNECTION_STATE_IN\<rparr>"
          CONNECTION_STATE_IN os Some])
      (use cn(2) in auto)
  obtain w2 where w2: "close_connection os w1 c = Some w2" "settled w1 cs c w2"
    by (rule close_settled [OF r(2) worker_few_lone [OF handlingD(1) [OF r(2)] few] r(3)])
  show thesis
  proof (cases reg)
    case True
    then show thesis using that [of w1] r conn_frame_own [OF r(5)] by (auto simp: settled_def conn_frame_def)
  next
    case False
    then show thesis using that [of w2] r(1) w2 settled_trans [OF r(5)] by auto
  qed
qed

section \<open>Sending\<close>

text \<open>What \<^verbatim>\<open>send\<close> promises: it takes at least one byte of a non-empty chunk, and no more than it is given.\<close>

definition send_sane :: "env \<Rightarrow> bool" where
  "send_sane os \<longleftrightarrow> (\<forall>n l k. os_send os n l = Sent k \<longrightarrow> k \<le> l \<and> (0 < l \<longrightarrow> 0 < k))"

text \<open>The worker once \<open>k\<close> more bytes of the buffer of \<open>c\<close> have gone out.\<close>

definition sent_to :: "'a worker_scheme \<Rightarrow> addr \<Rightarrow> connection \<Rightarrow> nat \<Rightarrow> nat \<Rightarrow> 'a worker_scheme" where
  "sent_to w c cn k n =
     w\<lparr>cmem := (cmem w)(c \<mapsto> cn\<lparr>write_bytes := write_bytes cn + k\<rparr>),
       outbox := (outbox w)(cfd cn := outbox w (cfd cn) @ take k (drop (write_bytes cn) (contents (cbuffer cn)))),
       calls := n\<rparr>"

definition finish_send :: "env \<Rightarrow> 'a worker_scheme \<Rightarrow> addr \<Rightarrow> connection \<Rightarrow> 'a worker_scheme option" where
  "finish_send os w c cn =
     (if has_flag (cflags cn) CONNECTION_FLAG_KEEPALIVE then begin_read os w c else close_connection os w c)"

lemma take_drop_mem:
  "i + j \<le> bsize b \<Longrightarrow> take j (drop i (mem_of (bdata b))) = take j (drop i (contents b))"
  by (auto simp: contents_def drop_take min_def)

lemma sent_to_step:
  assumes "wb = write_bytes cn" "cn' = cn\<lparr>write_bytes := wb + n\<rparr>"
  shows "sent_to (w\<lparr>calls := m, cmem := (cmem w)(c \<mapsto> cn'),
      outbox := (outbox w)(cfd cn := outbox w (cfd cn) @ take n (drop wb (contents (cbuffer cn))))\<rparr>) c cn' k m'
    = sent_to w c cn (n + k) m'"
  using assms by (simp add: sent_to_def take_add add.assoc add.commute [of n "write_bytes cn"])

lemma send_data_step:
  assumes cn: "cmem w c = Some cn" and b: "buffer_ok (cbuffer cn)"
    and wb: "write_bytes cn \<le> bsize (cbuffer cn)"
    and l: "l = min (bsize (cbuffer cn) - write_bytes cn) WRITE_CHUNK"
  shows "send_data os w c = (case os_send os (calls w) l of
             Send_again \<Rightarrow> Some (sys_call w)
           | Send_error \<Rightarrow> close_connection os (sys_call w) c
           | Sent n \<Rightarrow>
               (let cn' = cn\<lparr>write_bytes := size_add (write_bytes cn) n\<rparr>;
                    w = set_conn (sys_call w) c cn';
                    w = w\<lparr>outbox := (outbox w)(cfd cn := outbox w (cfd cn)
                           @ take n (take l (drop (write_bytes cn) (contents (cbuffer cn)))))\<rparr> in
                if write_bytes cn' = bsize (cbuffer cn) then finish_send os w c cn else send_data os w c))"
proof -
  let ?buf = "cbuffer cn" and ?wb = "write_bytes cn"
  have big: "bsize ?buf \<le> length (mem_of (bdata ?buf))" "bsize ?buf < 2 ^ 64"
    using b buffer_ok_size [OF b] by (auto simp: buffer_ok_def split: option.splits)
  have rem: "nat ((int (bsize ?buf) - int ?wb) mod 2 ^ 64) = bsize ?buf - ?wb"
    using wb big(2) by (subst mod_pos_pos_trivial) auto
  have l': "(if bsize ?buf - ?wb < WRITE_CHUNK then bsize ?buf - ?wb else WRITE_CHUNK) = l"
    using l by simp
  have wl: "?wb + l \<le> bsize ?buf" using l wb by simp
  then have in_buf: "?wb + l \<le> length (mem_of (bdata ?buf))" using big(1) by simp
  show ?thesis
    unfolding send_data.simps [of os w c] cn Option.bind.bind_lunit Let_def rem l' if_P [OF in_buf]
      take_drop_mem [OF wl]
    by (simp add: finish_send_def Let_def split: send_res.split)
qed

lemma send_data_outcome:
  assumes sane: "send_sane os" and cn: "cmem w c = Some cn" and b: "buffer_ok (cbuffer cn)"
    and wb: "write_bytes cn \<le> bsize (cbuffer cn)"
  shows "\<exists>k n. write_bytes cn + k \<le> bsize (cbuffer cn) \<and>
    (send_data os w c = Some (sent_to w c cn k (Suc n))
        \<and> (\<exists>l. os_send os n l = Send_again)
     \<or> send_data os w c = close_connection os (sent_to w c cn k (Suc n)) c
        \<and> (\<exists>l. os_send os n l = Send_error)
     \<or> write_bytes cn + k = bsize (cbuffer cn)
        \<and> send_data os w c = finish_send os (sent_to w c cn k (Suc n)) c cn)"
  using cn b wb
proof (induction "bsize (cbuffer cn) - write_bytes cn" arbitrary: w cn rule: less_induct)
  case less
  let ?buf = "cbuffer cn" and ?wb = "write_bytes cn"
  define l where "l = min (bsize ?buf - ?wb) WRITE_CHUNK"
  have big: "bsize ?buf < 2 ^ 64"
    using less.prems(2) by (auto simp: buffer_ok_def split: option.splits)
  have l: "?wb + l \<le> bsize ?buf" using less.prems(3) by (simp add: l_def)
  have same: "sent_to w c cn 0 (Suc (calls w)) = sys_call w"
    using less.prems(1) by (simp add: sent_to_def sys_call_def fun_upd_idem)
  note step = send_data_step [OF less.prems l_def, of os]
  show ?case
  proof (cases "os_send os (calls w) l")
    case Send_again
    then have "send_data os w c = Some (sys_call w)"
      by (simp add: step)
    then show ?thesis using same Send_again less.prems(3)
      by (intro exI [of _ 0] exI [of _ "calls w"]) auto
  next
    case Send_error
    then have "send_data os w c = close_connection os (sys_call w) c"
      by (simp add: step)
    then show ?thesis using same Send_error less.prems(3)
      by (intro exI [of _ 0] exI [of _ "calls w"]) auto
  next
    case (Sent n)
    then have n: "n \<le> l" "0 < l \<longrightarrow> 0 < n" using sane by (auto simp: send_sane_def)
    let ?cn = "cn\<lparr>write_bytes := ?wb + n\<rparr>"
    let ?w = "w\<lparr>calls := Suc (calls w), cmem := (cmem w)(c \<mapsto> ?cn),
      outbox := (outbox w)(cfd cn := outbox w (cfd cn) @ take n (drop ?wb (contents ?buf)))\<rparr>"
    have nb: "?wb + n \<le> bsize ?buf" using n l by simp
    have eq: "send_data os w c =
        (if ?wb + n = bsize ?buf then finish_send os ?w c cn else send_data os ?w c)"
      unfolding step using Sent nb big n(1) by (simp add: set_conn_def sys_call_def min_def)
    show ?thesis
    proof (cases "?wb + n = bsize ?buf")
      case True
      have "?w = sent_to w c cn n (Suc (calls w))" by (simp add: sent_to_def)
      then show ?thesis using eq True
        by (intro exI [of _ n] exI [of _ "calls w"]) auto
    next
      case False
      then have "bsize ?buf - (?wb + n) < bsize ?buf - ?wb" using nb n by (auto simp: l_def WRITE_CHUNK_def)
      from less.hyps [of ?cn ?w] this less.prems(2) nb obtain k m where
        "?wb + n + k \<le> bsize ?buf"
        "send_data os ?w c = Some (sent_to ?w c ?cn k (Suc m)) \<and> (\<exists>l. os_send os m l = Send_again)
         \<or> send_data os ?w c = close_connection os (sent_to ?w c ?cn k (Suc m)) c \<and> (\<exists>l. os_send os m l = Send_error)
         \<or> ?wb + n + k = bsize ?buf \<and> send_data os ?w c = finish_send os (sent_to ?w c ?cn k (Suc m)) c cn"
        by (auto simp: finish_send_def)
      then show ?thesis using eq False sent_to_step [OF refl refl, where w = w and c = c and cn = cn and n = n
              and m = "Suc (calls w)" and k = k and m' = "Suc m"]
        by (intro exI [of _ "n + k"] exI [of _ m]) (simp add: add.assoc)
    qed
  qed
qed

text \<open>Changing the object of \<open>c\<close> only.\<close>

definition touched :: "'a worker_scheme \<Rightarrow> addr \<Rightarrow> connection \<Rightarrow> 'a worker_scheme \<Rightarrow> bool" where
  "touched w c cn w' \<longleftrightarrow>
     cmem w' = (cmem w)(c \<mapsto> cn) \<and> timers w' = timers w \<and> wlinks w' = wlinks w \<and> conns w' = conns w
     \<and> fds w' = fds w \<and> evs w' = evs w \<and> interest w' = interest w \<and> num_conns w' = num_conns w
     \<and> sock w' = sock w \<and> epollfd w' = epollfd w"

lemma touched_simps [simp]:
  "touched w c cn' (sent_to w c cn k n) = (cn' = cn\<lparr>write_bytes := write_bytes cn + k\<rparr>)"
  "touched w c cn' (set_conn w c cn) = (cn' = cn)" "touched w c cn' (set_conn (sys_call w) c cn) = (cn' = cn)"
  by (auto simp: touched_def sent_to_def set_conn_def sys_call_def dest: fun_cong [where x = c])

lemma touched_parts:
  assumes "touched w c cn' w'" "cmem w c = Some cn" "cfd cn' = cfd cn"
  shows "fd_of w' = fd_of w" "efd w' = efd w" "registered w' = registered w" "lone w' t d = lone w t d"
    "get_timer w' = get_timer w"
  using assms get_timer_cong [of w' w]
  by (auto simp: touched_def fd_of_def efd_def registered_def lone_def fun_eq_iff)

lemma touched_worker_ok:
  assumes ok: "worker_ok w cs t" "c \<in> set cs" and w': "touched w c cn' w'"
    and cn: "cmem w c = Some cn" "cfd cn' = cfd cn" "buffer_ok (cbuffer cn')"
  shows "worker_ok w' cs t"
proof -
  have "set cs \<subseteq> dom (evs w)" using ok(1) by (auto simp: worker_ok_def conn_sound_def)
  then show ?thesis
    by (intro worker_ok_set_conn [OF ok cn]) (use w' in \<open>auto simp: touched_def\<close>)
qed

lemma touched_handling:
  assumes h: "handling w cs t c" and w': "touched w c cn' w'"
    and cn: "cmem w c = Some cn" "cfd cn' = cfd cn" "buffer_ok (cbuffer cn')"
  shows "handling w' cs t c"
proof -
  note H = handlingD [OF h]
  note P = touched_parts [OF w' cn(1,2)]
  have "conn_ready w' d" if "d \<in> set cs" "d \<noteq> c" for d
    by (rule conn_ready_cong [OF H(4) [OF that]]) (use that w' P in \<open>auto simp: touched_def\<close>)
  then show ?thesis
    unfolding handling_def using touched_worker_ok [OF H(1,2) w' cn] H P by auto
qed

lemma touched_ready:
  assumes r: "ready w cs t" "c \<in> set cs" and w': "touched w c cn' w'"
    and cn: "cmem w c = Some cn" "cfd cn' = cfd cn" "buffer_ok (cbuffer cn')"
      "cstate cn' = cstate cn" "write_bytes cn' \<le> bsize (cbuffer cn')"
  shows "ready w' cs t"
proof -
  note P = touched_parts [OF w' cn(1,2)]
  have "conn_ready w' d" if d: "d \<in> set cs" for d
  proof (cases "d = c")
    case True
    then show ?thesis using readyD(3) [OF r] w' cn P by (auto simp: conn_ready_def touched_def)
  next
    case False
    show ?thesis
      by (rule conn_ready_cong [OF readyD(3) [OF r(1) d]]) (use False w' P in \<open>auto simp: touched_def\<close>)
  qed
  then show ?thesis
    unfolding ready_def using touched_worker_ok [OF readyD(1) [OF r(1)] r(2) w' cn(1-3)] readyD(2) [OF r(1)] by auto
qed

lemma touched_frame: "touched w c cn' w' \<Longrightarrow> cmem w c = Some cn \<Longrightarrow> cfd cn' = cfd cn \<Longrightarrow> conn_frame w c w'"
  using touched_parts(1) [of w c cn' w' cn] by (auto simp: touched_def conn_frame_def)

lemma send_data_settled:
  assumes sane: "send_sane os" and r: "ready w cs t" "c \<in> set cs" and few: "length cs \<le> 2"
  obtains w' where "send_data os w c = Some w'" "settled w cs c w'"
proof -
  obtain cn where cn: "cmem w c = Some cn" "buffer_ok (cbuffer cn)" "fd_of w c = cfd cn" "efd w c = cfd cn"
    "write_bytes cn \<le> bsize (cbuffer cn)"
    by (rule ready_conn [OF r])
  obtain k n where k: "write_bytes cn + k \<le> bsize (cbuffer cn)" and o:
    "send_data os w c = Some (sent_to w c cn k n) \<or> send_data os w c = close_connection os (sent_to w c cn k n) c
     \<or> send_data os w c = finish_send os (sent_to w c cn k n) c cn"
    using send_data_outcome [OF sane cn(1,2,5)] by blast
  let ?w = "sent_to w c cn k n" and ?cn = "cn\<lparr>write_bytes := write_bytes cn + k\<rparr>"
  have to: "touched w c ?cn ?w" by simp
  note P = touched_parts [OF to cn(1)]
  have rd: "ready ?w cs t" by (rule touched_ready [OF r to cn(1)]) (use cn k in simp_all)
  note h = ready_handling [OF rd r(2)]
  have e: "efd ?w c = fd_of ?w c" using P cn by simp
  obtain w1 where w1: "close_connection os ?w c = Some w1" "settled ?w cs c w1"
    by (rule close_settled [OF h worker_few_lone [OF readyD(1) [OF rd] few] e])
  obtain w2 where w2: "begin_read os ?w c = Some w2" "settled ?w cs c w2"
    by (rule begin_read_settled [OF h few])
  have "settled ?w cs c ?w" using rd by (auto simp: settled_def)
  then have "\<exists>w'. send_data os w c = Some w' \<and> settled ?w cs c w'"
    using o w1 w2 by (auto simp: finish_send_def)
  then show thesis using that settled_trans [OF touched_frame [OF to cn(1)]] by simp blast
qed

lemma begin_send_settled:
  assumes sane: "send_sane os" and h: "handling w cs t c" and few: "length cs \<le> 2"
  obtains w' where "begin_send os w c = Some w'" "settled w cs c w'"
proof -
  note H = handlingD [OF h]
  obtain cn where cn: "cmem w c = Some cn" "buffer_ok (cbuffer cn)" by (rule worker_ok_conn [OF H(1,2)])
  obtain w1 t1 reg where r:
    "begin_send os w c = (if reg then send_data os w1 c else close_connection os w1 c)"
    "handling w1 cs t1 c" "efd w1 c = fd_of w1 c" "reg \<longrightarrow> ready w1 cs t1"
    "conn_frame w c w1"
    unfolding begin_send_rearm
    by (rule rearm_handling [OF h worker_few_lone [OF H(1) few] cn(1),
          of "\<lambda>cn. cn\<lparr>cstate := CONNECTION_STATE_OUT\<rparr>" CONNECTION_STATE_OUT os "\<lambda>w. send_data os w c"])
      (use cn(2) in auto)
  show thesis
  proof (cases reg)
    case True
    obtain w2 where "send_data os w1 c = Some w2" "settled w1 cs c w2"
      by (rule send_data_settled [OF sane _ H(2) few]) (use True r(4) in auto)
    then show thesis using that [of w2] r(1) True settled_trans [OF r(5)] by auto
  next
    case False
    obtain w2 where "close_connection os w1 c = Some w2" "settled w1 cs c w2"
      by (rule close_settled [OF r(2) worker_few_lone [OF handlingD(1) [OF r(2)] few] r(3)])
    then show thesis using that [of w2] r(1) False settled_trans [OF r(5)] by auto
  qed
qed

end
