(* ===== verification/Cask_Parse.thy ===== *)
theory Cask_Parse
  imports Cask_Request
begin

text \<open>
  Correctness of the scanning helpers and of the request parser of \<^verbatim>\<open>src/request.c\<close>: what
  \<^verbatim>\<open>span\<close>, \<^verbatim>\<open>split\<close> and \<^verbatim>\<open>trim\<close> compute, that a rendered request is parsed back, that no input
  makes the parser read outside the buffer, and how the parser state advances.
\<close>

section \<open>span\<close>

lemma span_loop_spec:
  assumes "l \<le> length s" and "k \<le> l"
  shows "span_loop s c (int l) (int k) i =
     Some (let w = drop k (take l s) in
           if c \<in> set w then i + int (length (takeWhile (\<lambda>x. x \<noteq> c) w)) + 1 else -1)"
  using assms
proof (induction "l - k" arbitrary: k i)
  case 0
  then show ?case by (simp add: span_loop.simps)
next
  case (Suc d)
  then have k: "k < l" "k < length s" by auto
  then have w: "drop k (take l s) = s ! k # drop (Suc k) (take l s)"
    by (simp add: Cons_nth_drop_Suc [symmetric])
  have IH: "span_loop s c (int l) (int k + 1) (i + 1) =
     Some (let w = drop (Suc k) (take l s) in
           if c \<in> set w then i + 1 + int (length (takeWhile (\<lambda>x. x \<noteq> c) w)) + 1 else -1)"
    using Suc.hyps(1) [of "Suc k" "i + 1"] Suc.hyps(2) Suc.prems k by (simp add: algebra_simps)
  show ?case
    by (subst span_loop.simps) (use k w IH in \<open>auto simp: Let_def\<close>)
qed

lemma span_spec:
  assumes "l \<le> length s" and "k \<le> l"
  shows "span s c (int l) (int k) =
     Some (let w = drop k (take l s) in
           if c \<in> set w then int (length (takeWhile (\<lambda>x. x \<noteq> c) w)) + 1 else -1)"
  using span_loop_spec [OF assms, of c 0] by (simp add: span_def Let_def)

lemma span_past: "l \<le> k \<Longrightarrow> span s c l k = Some (-1)"
  by (simp add: span_def span_loop.simps)

text \<open>A line of \<open>xs\<close> closed by the character \<open>c\<close>.\<close>

lemma span_line:
  assumes "drop k s = xs @ c # rest" and "c \<notin> set xs" and "k + length xs < l" "l \<le> length s"
  shows "span s c (int l) (int k) = Some (int (length xs) + 1)"
proof -
  have "drop k (take l s) = take (l - k) (xs @ c # rest)"
    using assms by (simp add: drop_take)
  also have "\<dots> = xs @ c # take (l - k - length xs - 1) rest"
    using assms(3) by (cases "l - k - length xs") (auto simp: take_Cons')
  finally have w: "drop k (take l s) = xs @ c # take (l - k - length xs - 1) rest" .
  have "takeWhile (\<lambda>x. x \<noteq> c) xs = xs"
    using assms(2) by (auto simp: takeWhile_eq_all_conv)
  then show ?thesis
    using span_spec [of l s k c] w assms(2-4) by (simp add: takeWhile_tail)
qed

section \<open>split\<close>

lemma split_loop_skip:
  assumes "drop stop s = t @ rest" and "delim \<notin> set t" and "stop + length t \<le> l"
    and "int (length toks) < n - 1"
  shows "split_loop s (int l) k delim n start (int stop) toks =
         split_loop s (int l) k delim n start (int (stop + length t)) toks"
  using assms
proof (induction t arbitrary: stop)
  case Nil
  then show ?case by simp
next
  case (Cons x t)
  have "stop < length s" using Cons.prems(1) by (metis append_Cons drop_all list.distinct(1) not_le)
  with Cons.prems(1) have x: "rd s (int stop) = Some x" and nxt: "drop (Suc stop) s = t @ rest"
    by (simp_all add: Cons_nth_drop_Suc [symmetric])
  have "split_loop s (int l) k delim n start (int stop) toks =
        split_loop s (int l) k delim n start (int (Suc stop)) toks"
    by (subst split_loop.simps) (use x Cons.prems in \<open>auto simp: algebra_simps\<close>)
  with Cons.IH [OF nxt] Cons.prems show ?case by simp
qed

lemma split_loop_token:
  assumes "drop stop s = t @ delim # rest" and "delim \<notin> set t" and "stop + length t < l"
    and "int (length toks) < n - 1"
  shows "split_loop s (int l) k delim n start (int stop) toks =
         split_loop s (int l) k delim n (int (stop + length t + 1)) (int (stop + length t + 1))
           (toks @ [\<lparr>off = start + k, len = int (stop + length t) - start\<rparr>])"
proof -
  have "drop (stop + length t) s = delim # rest"
    using assms(1) by (metis add.commute append_eq_conv_conj drop_drop)
  then have "stop + length t < length s" "s ! (stop + length t) = delim"
    by (metis drop_all list.distinct(1) not_le)
       (metis \<open>drop (stop + length t) s = delim # rest\<close> hd_drop_conv_nth list.sel(1) drop_all
         list.distinct(1) not_le)
  then have "rd s (int (stop + length t)) = Some delim" by (simp only: rd_nat)
  then have "split_loop s (int l) k delim n start (int (stop + length t)) toks =
         split_loop s (int l) k delim n (int (stop + length t + 1)) (int (stop + length t + 1))
           (toks @ [\<lparr>off = start + k, len = int (stop + length t) - start\<rparr>])"
    by (subst split_loop.simps) (use assms in \<open>auto simp: algebra_simps\<close>)
  then show ?thesis using split_loop_skip [OF assms(1,2) _ assms(4), of l k start] assms(3) by simp
qed

lemma split_loop_full:
  "int (length toks) = n - 1 \<Longrightarrow>
   split_loop s l k delim n start stop toks = Some (toks @ [\<lparr>off = start + k, len = l - start\<rparr>])"
  by (simp add: split_loop.simps)

lemma split_3:
  assumes "take l s = a @ delim # b @ delim # c" and "l \<le> length s"
    and "delim \<notin> set a" "delim \<notin> set b"
  shows "split s (int l) k delim 3 =
     Some [\<lparr>off = k, len = int (length a)\<rparr>,
           \<lparr>off = k + int (length a) + 1, len = int (length b)\<rparr>,
           \<lparr>off = k + int (length a) + int (length b) + 2, len = int (length c)\<rparr>]"
proof -
  have len: "l = length a + length b + length c + 2"
    using assms(2) length_take [of l s, unfolded assms(1)] by simp
  have s: "s = (a @ delim # b @ delim # c) @ drop l s" using assms(1) by (metis append_take_drop_id)
  have d0: "drop 0 s = a @ delim # (b @ delim # c @ drop l s)" using s by simp
  have d1: "drop (length a + 1) s = b @ delim # (c @ drop l s)" by (subst s) simp
  have "split_loop s (int l) k delim 3 0 (int 0) [] =
        split_loop s (int l) k delim 3 (int (0 + length a + 1)) (int (0 + length a + 1))
          ([] @ [\<lparr>off = 0 + k, len = int (0 + length a) - 0\<rparr>])"
    by (rule split_loop_token [OF d0]) (use assms len in auto)
  also have "\<dots> = split_loop s (int l) k delim 3 (int (0 + length a + 1)) (int (length a + 1))
          [\<lparr>off = k, len = int (length a)\<rparr>]" by simp
  also have "\<dots> = split_loop s (int l) k delim 3 (int (length a + 1 + length b + 1))
          (int (length a + 1 + length b + 1))
          ([\<lparr>off = k, len = int (length a)\<rparr>] @
           [\<lparr>off = int (0 + length a + 1) + k,
             len = int (length a + 1 + length b) - int (0 + length a + 1)\<rparr>])"
    by (rule split_loop_token [OF d1]) (use assms len in auto)
  finally show ?thesis
    by (simp add: split_def split_loop_full len algebra_simps)
qed

lemma split_2:
  assumes "take l s = a @ delim # b" and "l \<le> length s" and "delim \<notin> set a"
  shows "split s (int l) k delim 2 =
     Some [\<lparr>off = k, len = int (length a)\<rparr>, \<lparr>off = k + int (length a) + 1, len = int (length b)\<rparr>]"
proof -
  have len: "l = length a + length b + 1"
    using assms(2) length_take [of l s, unfolded assms(1)] by simp
  have d0: "drop 0 s = a @ delim # (b @ drop l s)"
    using assms(1) by (metis append.assoc append_Cons append_take_drop_id drop0)
  have "split_loop s (int l) k delim 2 0 (int 0) [] =
        split_loop s (int l) k delim 2 (int (0 + length a + 1)) (int (0 + length a + 1))
          ([] @ [\<lparr>off = 0 + k, len = int (0 + length a) - 0\<rparr>])"
    by (rule split_loop_token [OF d0]) (use assms len in auto)
  then show ?thesis by (simp add: split_def split_loop_full len algebra_simps)
qed

section \<open>trim\<close>

text \<open>\<open>slice data t\<close> is the text a \<^verbatim>\<open>string_t\<close> refers to; \<open>strip\<close> removes white space at both ends.\<close>

definition slice :: "bytes \<Rightarrow> string_t \<Rightarrow> bytes" where
  "slice data t = take (nat (len t)) (drop (nat (off t)) data)"

definition strip_right :: "bytes \<Rightarrow> bytes" where
  "strip_right w = rev (dropWhile is_ws (rev w))"

definition strip :: "bytes \<Rightarrow> bytes" where
  "strip w = strip_right (dropWhile is_ws w)"

definition in_range :: "bytes \<Rightarrow> string_t \<Rightarrow> bool" where
  "in_range data t = (0 \<le> off t \<and> 0 \<le> len t \<and> nat (off t) + nat (len t) \<le> length data)"

lemma slice_nat: "slice data \<lparr>off = int a, len = int n\<rparr> = take n (drop a data)"
  by (simp add: slice_def)

lemma slice_Cons:
  assumes "a < length data"
  shows "take (Suc n) (drop a data) = data ! a # take n (drop (Suc a) data)"
  using assms by (simp add: Cons_nth_drop_Suc [symmetric])

lemma slice_snoc:
  assumes "a + Suc n \<le> length data"
  shows "take (Suc n) (drop a data) = take n (drop a data) @ [data ! (a + n)]"
  using assms by (simp add: take_Suc_conv_app_nth)

lemma trim_fwd_spec:
  assumes "a + n \<le> length data" and "i + int n = l"
  shows "trim_fwd data (int a) i l \<lparr>off = int a, len = int n\<rparr> =
     (let w = take n (drop a data); d = length (takeWhile is_ws w) in
      Some \<lparr>off = int (a + d), len = int (n - d)\<rparr>)"
  using assms
proof (induction n arbitrary: a i)
  case 0
  then show ?case by (simp add: trim_fwd.simps)
next
  case (Suc n)
  then have a: "a < length data" by simp
  have p: "Suc a + n \<le> length data" "i + 1 + int n = l" using Suc.prems by simp_all
  note IH = Suc.IH [OF p]
  have il: "i < l" using Suc.prems by simp
  note w = slice_Cons [OF a, of n]
  show ?case
  proof (cases "is_ws (data ! a)")
    case True
    then have "trim_fwd data (int a) i l \<lparr>off = int a, len = int (Suc n)\<rparr> =
        trim_fwd data (int (Suc a)) (i + 1) l \<lparr>off = int (Suc a), len = int n\<rparr>"
      by (subst trim_fwd.simps) (simp add: il a add.commute)
    then show ?thesis using True IH by (simp only: w Let_def) simp
  next
    case False
    then show ?thesis by (subst trim_fwd.simps) (simp only: w Let_def, simp add: il a)
  qed
qed

lemma strip_right_snoc:
  "strip_right (w @ [b]) = (if is_ws b then strip_right w else w @ [b])"
  by (simp add: strip_right_def)

lemma length_strip_right: "length (strip_right w) \<le> length w"
  using length_dropWhile_le [of is_ws "rev w"] by (simp add: strip_right_def)

lemma trim_bwd_spec:
  assumes "a + n \<le> length data"
  shows "trim_bwd data (int a + int n - 1) (int n) \<lparr>off = int a, len = int n\<rparr> =
     Some \<lparr>off = int a, len = int (length (strip_right (take n (drop a data))))\<rparr>"
  using assms
proof (induction n)
  case 0
  then show ?case by (simp add: trim_bwd.simps strip_right_def)
next
  case (Suc n)
  have b: "rd data (int a + int n) = Some (data ! (a + n))"
    using rd_nat [of "a + n" data] Suc.prems by simp
  have IH: "trim_bwd data (int a + int n - 1) (int n) \<lparr>off = int a, len = int n\<rparr> =
     Some \<lparr>off = int a, len = int (length (strip_right (take n (drop a data))))\<rparr>"
    using Suc by simp
  show ?case
    unfolding slice_snoc [OF Suc.prems] strip_right_snoc
    by (subst trim_bwd.simps) (use b IH Suc.prems in \<open>auto simp: algebra_simps\<close>)
qed

lemma trim_eq:
  assumes "a + n \<le> length data"
  shows "trim data \<lparr>off = int a, len = int n\<rparr> =
     (let w = take n (drop a data) in
      Some \<lparr>off = int (a + length (takeWhile is_ws w)), len = int (length (strip w))\<rparr>)"
proof -
  define w where "w = take n (drop a data)"
  define d where "d = length (takeWhile is_ws w)"
  have dn: "d \<le> n" using assms length_takeWhile_le [of is_ws w] by (simp add: d_def w_def)
  have "dropWhile is_ws w = drop d w" by (simp add: d_def dropWhile_eq_drop)
  then have dw: "take (n - d) (drop (a + d) data) = dropWhile is_ws w"
    by (simp add: w_def drop_take add.commute)
  have fwd: "trim_fwd data (int a) 0 (int n) \<lparr>off = int a, len = int n\<rparr> =
      Some \<lparr>off = int (a + d), len = int (n - d)\<rparr>"
    using trim_fwd_spec [OF assms, of 0 "int n"] by (simp add: Let_def d_def w_def)
  have bwd: "trim_bwd data (int (a + d) + int (n - d) - 1) (int (n - d))
        \<lparr>off = int (a + d), len = int (n - d)\<rparr> =
      Some \<lparr>off = int (a + d), len = int (length (strip_right (take (n - d) (drop (a + d) data))))\<rparr>"
    by (rule trim_bwd_spec) (use assms dn in simp)
  show ?thesis
    using fwd bwd by (simp add: trim_def dw strip_def Let_def flip: w_def d_def)
qed

lemma strip_decomp:
  "\<exists>post. w = takeWhile is_ws w @ strip w @ post \<and> (\<forall>b \<in> set post. is_ws b)"
proof -
  have "dropWhile is_ws w = strip w @ rev (takeWhile is_ws (rev (dropWhile is_ws w)))"
    unfolding strip_def strip_right_def by (metis rev_append rev_rev_ident takeWhile_dropWhile_id)
  then have "w = takeWhile is_ws w @ strip w @ rev (takeWhile is_ws (rev (dropWhile is_ws w)))"
    by (metis takeWhile_dropWhile_id)
  then show ?thesis by (intro exI conjI) (assumption, auto dest: set_takeWhileD)
qed

text \<open>The trimmed token lies inside the original one and is its stripped text.\<close>

lemma trim_spec:
  assumes "a + n \<le> length data"
  obtains a' n' where "trim data \<lparr>off = int a, len = int n\<rparr> = Some \<lparr>off = int a', len = int n'\<rparr>"
    and "a \<le> a'" and "a' + n' \<le> a + n" and "take n' (drop a' data) = strip (take n (drop a data))"
proof -
  define w where "w = take n (drop a data)"
  define d where "d = length (takeWhile is_ws w)"
  obtain post where w: "w = takeWhile is_ws w @ strip w @ post" using strip_decomp by blast
  have lenw: "length w = n" using assms by (simp add: w_def)
  then have "d + length (strip w) \<le> n"
    using arg_cong [OF w, of length] by (simp add: d_def)
  moreover have "take (length (strip w)) (drop (a + d) data) = strip w"
  proof -
    have "drop d w = strip w @ post" by (subst w) (simp add: d_def)
    then have "take (length (strip w)) (drop d w) = strip w" by simp
    then show ?thesis
      using calculation by (simp add: drop_take min_absorb1 add.commute w_def [THEN arg_cong, of "drop d"])
  qed
  ultimately show ?thesis
    using that [of "a + d" "length (strip w)"] trim_eq [OF assms]
    by (simp add: Let_def flip: w_def d_def)
qed

lemma strip_padded:
  assumes "\<forall>b \<in> set pre. is_ws b" and "\<forall>b \<in> set post. is_ws b" and "strip x = x"
  shows "strip (pre @ x @ post) = x"
proof (cases "x = []")
  case True
  then have "dropWhile is_ws (pre @ x @ post) = []"
    using assms by (simp only: dropWhile_eq_Nil_conv) auto
  then have "strip (pre @ x @ post) = strip_right []" by (simp only: strip_def)
  then show ?thesis using True by (simp add: strip_right_def)
next
  case False
  obtain p where x: "x = takeWhile is_ws x @ x @ p" using strip_decomp [of x] assms(3) by auto
  have "length x = length (takeWhile is_ws x) + (length x + length p)"
    by (metis x length_append)
  then have "takeWhile is_ws x = []" by simp
  then have "dropWhile is_ws x = x" by (metis append_Nil takeWhile_dropWhile_id)
  then have dx: "dropWhile is_ws (x @ post) = x @ post" using False
    by (simp add: dropWhile_eq_self_iff)
  have "strip_right x = x" using assms(3) \<open>dropWhile is_ws x = x\<close> by (simp add: strip_def)
  then have "dropWhile is_ws (rev x) = rev x" by (simp add: strip_right_def rev_swap)
  then have "dropWhile is_ws (rev post @ rev x) = rev x"
    using assms(2) by (subst dropWhile_append2) auto
  then have "strip_right (x @ post) = x" by (simp add: strip_right_def)
  moreover have "dropWhile is_ws (pre @ x @ post) = x @ post"
    using dx assms(1) by (subst dropWhile_append2) auto
  ultimately show ?thesis by (simp add: strip_def)
qed

section \<open>The status line\<close>

definition render_line :: "http_method \<Rightarrow> bytes \<Rightarrow> http_version \<Rightarrow> bytes" where
  "render_line m uri v = method_name m @ SP # uri @ SP # version_name v @ [CR, LF]"

lemma method_name_plain: "m \<noteq> HTTP_METHOD_UNKNOWN \<Longrightarrow> SP \<notin> set (method_name m) \<and> LF \<notin> set (method_name m)"
  by (cases m) (simp_all add: table_defs)

lemma version_name_plain: "v \<noteq> HTTP_VERSION_UNKNOWN \<Longrightarrow> LF \<notin> set (version_name v)"
  by (cases v) (simp_all add: table_defs)

lemma version_name_stripped: "v \<noteq> HTTP_VERSION_UNKNOWN \<Longrightarrow> strip (version_name v) = version_name v"
  by (cases v) (simp_all add: table_defs strip_def strip_right_def is_ws_def)

lemma ptr_nat: "a \<le> length data \<Longrightarrow> ptr data (int a) = Some (drop a data)"
  by (simp add: ptr_def)

lemma parse_status_line_render:
  assumes "mem_of (bdata buf) = render_line m uri v @ rest"
    and "length (render_line m uri v) \<le> bsize buf" and "bsize buf \<le> length (mem_of (bdata buf))"
    and "bsize buf < 2 ^ 31"
    and m: "m \<noteq> HTTP_METHOD_UNKNOWN" and v: "v \<noteq> HTTP_VERSION_UNKNOWN"
    and uri: "SP \<notin> set uri" "LF \<notin> set uri"
  shows "parse_status_line r buf = Some (REQ_OK, r\<lparr>rmethod := m, rversion := v,
     ruri := \<lparr>off = int (length (method_name m)) + 1, len = int (length uri)\<rparr>,
     read_bytes := length (render_line m uri v)\<rparr>)"
proof -
  let ?mn = "method_name m" and ?vn = "version_name v"
  define data where "data = mem_of (bdata buf)"
  define n where "n = length (render_line m uri v)"
  let ?a = "length ?mn + length uri + 2"
  have data: "data = ?mn @ SP # uri @ SP # ?vn @ [CR, LF] @ rest"
    using assms(1) by (simp add: data_def render_line_def)
  have n: "n = ?a + length ?vn + 2" by (simp add: n_def render_line_def)
  have span: "span data LF (int (bsize buf)) (int 0) = Some (int n)"
    using span_line [of 0 data "?mn @ SP # uri @ SP # ?vn @ [CR]" LF rest "bsize buf"] assms(2,3) n
      method_name_plain [OF m] version_name_plain [OF v] uri data
    by (simp add: data_def [symmetric] n_def [symmetric])
  have "take n data = render_line m uri v" "n \<le> length data"
    using assms(1) by (simp_all add: data_def n_def)
  then have "take n data = ?mn @ SP # uri @ SP # (?vn @ [CR, LF])" "n \<le> length data"
    by (simp_all add: render_line_def)
  from split_3 [OF this, of 0] have split: "split data (int n) 0 SP 3 =
      Some [\<lparr>off = 0, len = int (length ?mn)\<rparr>,
            \<lparr>off = int (length ?mn) + 1, len = int (length uri)\<rparr>,
            \<lparr>off = int ?a, len = int (length ?vn + 2)\<rparr>]"
    using method_name_plain [OF m] uri by (simp add: algebra_simps)
  have dropa: "drop ?a data = ?vn @ [CR, LF] @ rest" by (simp add: data)
  then have w: "take (length ?vn + 2) (drop ?a data) = [] @ ?vn @ [CR, LF]" by simp
  have "strip (take (length ?vn + 2) (drop ?a data)) = ?vn"
    unfolding w by (rule strip_padded) (use version_name_stripped [OF v] in \<open>auto simp: is_ws_def\<close>)
  moreover have "takeWhile is_ws (take (length ?vn + 2) (drop ?a data)) = []"
    unfolding w using v by (cases v) (simp_all add: table_defs is_ws_def)
  ultimately have trim: "trim data \<lparr>off = int ?a, len = int (length ?vn + 2)\<rparr> =
      Some \<lparr>off = int ?a, len = int (length ?vn)\<rparr>"
    using trim_eq [of ?a "length ?vn + 2" data] by (simp add: Let_def data)
  have lm: "lookup_kv g_http_methods 0 data (int (length ?mn)) = Some (Some (method_index m))"
    by (rule lookup_method [OF m]) (simp add: data)
  have lv: "lookup_kv g_http_versions 0 (drop ?a data) (int (length ?vn)) = Some (Some (version_index v))"
    by (rule lookup_version [OF v]) (simp add: data)
  have p: "ptr data 0 = Some data" "ptr data (int ?a) = Some (drop ?a data)"
    by (simp add: ptr_def, rule ptr_nat, simp add: data)
  show ?thesis
    using span split trim lm lv p assms(4)
    by (simp add: parse_status_line_def Let_def flip: data_def n_def)
qed

section \<open>Header lines\<close>

definition header_line :: "bytes \<times> bytes \<Rightarrow> bytes" where
  "header_line kx = fst kx @ CHR '':'' # SP # snd kx @ [CR, LF]"

definition header_ok :: "bytes \<times> bytes \<Rightarrow> bool" where
  "header_ok kx = (CHR '':'' \<notin> set (fst kx) \<and> LF \<notin> set (fst kx) \<and> LF \<notin> set (snd kx) \<and>
     strip (fst kx) = fst kx \<and> strip (snd kx) = snd kx)"

text \<open>
  \<open>header_at data h kx\<close>: the parsed header \<open>h\<close> refers to the key and value of \<open>kx\<close> in the
  buffer, and a non-empty value is followed by the carriage return that ends its line.
\<close>

definition header_at :: "bytes \<Rightarrow> http_header \<Rightarrow> bytes \<times> bytes \<Rightarrow> bool" where
  "header_at data h kx =
     (in_range data (hkey h) \<and> in_range data (hval h) \<and>
      slice data (hkey h) = fst kx \<and> slice data (hval h) = snd kx \<and>
      (snd kx \<noteq> [] \<longrightarrow> (\<exists>t. drop (nat (off (hval h))) data = snd kx @ CR # t)))"

lemma in_range_append: "in_range d t \<Longrightarrow> in_range (d @ e) t"
  by (simp add: in_range_def)

lemma slice_append: "in_range d t \<Longrightarrow> slice (d @ e) t = slice d t"
  by (simp add: in_range_def slice_def)

lemma header_at_append: "header_at d h kx \<Longrightarrow> header_at (d @ e) h kx"
  by (auto simp: header_at_def in_range_append slice_append)

lemma trim_append:
  "a + n \<le> length d \<Longrightarrow> trim (d @ e) \<lparr>off = int a, len = int n\<rparr> = trim d \<lparr>off = int a, len = int n\<rparr>"
  by (simp add: trim_eq)

lemma strip_hd: "strip x = x \<Longrightarrow> x \<noteq> [] \<Longrightarrow> \<not> is_ws (hd x)"
proof -
  assume s: "strip x = x" and ne: "x \<noteq> []"
  obtain p where x: "x = takeWhile is_ws x @ x @ p" using strip_decomp [of x] s by auto
  have "length x = length (takeWhile is_ws x) + (length x + length p)"
    by (metis x length_append)
  then have "takeWhile is_ws x = []" by simp
  with ne show ?thesis by (cases x) (auto split: if_splits)
qed

lemma trim_padded:
  assumes "take n (drop a data) = pre @ x @ post" and "a + n \<le> length data"
    and "\<forall>b \<in> set pre. is_ws b" and "\<forall>b \<in> set post. is_ws b" and "strip x = x"
  obtains t where "trim data \<lparr>off = int a, len = int n\<rparr> = Some t" and "in_range data t"
    and "slice data t = x" and "x \<noteq> [] \<Longrightarrow> off t = int (a + length pre)"
proof -
  let ?w = "take n (drop a data)"
  have sx: "strip ?w = x" unfolding assms(1) by (rule strip_padded) (use assms in auto)
  obtain a' n' where t: "trim data \<lparr>off = int a, len = int n\<rparr> = Some \<lparr>off = int a', len = int n'\<rparr>"
    and r: "a \<le> a'" "a' + n' \<le> a + n" "take n' (drop a' data) = strip ?w"
    using trim_spec [OF assms(2)] .
  have "a' = a + length pre" if "x \<noteq> []"
  proof -
    have "takeWhile is_ws ?w = pre"
      unfolding assms(1) using strip_hd [OF assms(5) that] that assms(3)
      by (cases x) (simp_all add: takeWhile_append2)
    then show ?thesis using t trim_eq [OF assms(2)] by (simp add: Let_def)
  qed
  then show ?thesis
    using that [OF t] r sx assms(2) by (simp add: in_range_def slice_nat)
qed

text \<open>One header line: the loop stores the header and goes on behind the line.\<close>

lemma parse_headers_line:
  assumes data: "mem_of (bdata buf) = pre @ header_line (k, x) @ rest"
    and size: "length (pre @ header_line (k, x)) \<le> bsize buf"
      "bsize buf \<le> length (mem_of (bdata buf))" "bsize buf < 2 ^ 31"
    and r: "read_bytes r = length pre" "num_headers r < MAX_HEADERS"
    and ok: "header_ok (k, x)"
  obtains h where "header_at (pre @ header_line (k, x)) h (k, x)"
    and "parse_headers r buf =
      parse_headers (r\<lparr>headers := (headers r)[num_headers r := h],
         read_bytes := length (pre @ header_line (k, x)), num_headers := num_headers r + 1\<rparr>) buf"
proof -
  define d where "d = mem_of (bdata buf)"
  define p where "p = length pre"
  let ?line = "header_line (k, x)"
  have d: "d = pre @ k @ CHR '':'' # SP # x @ [CR, LF] @ rest"
    using data by (simp add: d_def header_line_def)
  have dp: "drop p d = k @ CHR '':'' # SP # x @ [CR, LF] @ rest" by (simp add: d p_def)
  have pl: "p < length d" by (simp add: d p_def)
  have nb: "d ! p \<noteq> CR"
  proof (cases k)
    case Nil
    then show ?thesis by (simp add: d p_def nth_append)
  next
    case (Cons c cs)
    then have "\<not> is_ws c" using ok strip_hd [of k] by (simp add: header_ok_def)
    then show ?thesis using Cons by (auto simp: d p_def nth_append is_ws_def)
  qed
  have span: "span d LF (int (bsize buf)) (int p) = Some (int (length ?line))"
    using span_line [of p d "k @ CHR '':'' # SP # x @ [CR]" LF rest "bsize buf"] ok size dp
    by (simp add: header_line_def header_ok_def p_def d_def [symmetric] algebra_simps)
  have "take (length ?line) (drop p d) = ?line" using data by (simp add: d_def p_def)
  then have tl: "take (length ?line) (drop p d) = k @ CHR '':'' # (SP # x @ [CR, LF])"
    by (simp add: header_line_def)
  have split: "split (drop p d) (int (length ?line)) (int p) (CHR '':'') 2 =
      Some [\<lparr>off = int p, len = int (length k)\<rparr>,
            \<lparr>off = int (p + length k + 1), len = int (length x + 3)\<rparr>]"
    using split_2 [OF tl] ok by (simp add: dp header_line_def header_ok_def algebra_simps)
  let ?e = "pre @ ?line"
  have e: "d = ?e @ rest" using data by (simp add: d_def)
  have wk: "take (length k) (drop p ?e) = [] @ k @ []" by (simp add: p_def header_line_def)
  obtain tk where tk: "trim ?e \<lparr>off = int p, len = int (length k)\<rparr> = Some tk"
      "in_range ?e tk" "slice ?e tk = k"
    by (rule trim_padded [OF wk]) (use ok in \<open>auto simp: header_ok_def header_line_def p_def\<close>)
  have dv: "drop (p + length k + 1) ?e = SP # x @ [CR, LF]" by (simp add: p_def header_line_def)
  then have wv: "take (length x + 3) (drop (p + length k + 1) ?e) = [SP] @ x @ [CR, LF]"
    by (simp add: eval_nat_numeral)
  obtain tv where tv: "trim ?e \<lparr>off = int (p + length k + 1), len = int (length x + 3)\<rparr> = Some tv"
      "in_range ?e tv" "slice ?e tv = x" "x \<noteq> [] \<Longrightarrow> off tv = int (p + length k + 1 + length [SP])"
    by (rule trim_padded [OF wv]) (use ok in \<open>auto simp: header_ok_def header_line_def p_def is_ws_def\<close>)
  have td: "trim d \<lparr>off = int p, len = int (length k)\<rparr> = Some tk"
      "trim d \<lparr>off = int (p + length k + 1), len = int (length x + 3)\<rparr> = Some tv"
    unfolding e using tk(1) tv(1) by (subst trim_append; simp add: p_def header_line_def)+
  have vr: "drop (nat (off tv)) ?e = x @ CR # [LF]" if "x \<noteq> []"
  proof -
    have "nat (off tv) = Suc (p + length k + 1)" using tv(4) [OF that] by simp
    then show ?thesis using dv by (metis append_Cons append_Nil drop_Suc list.sel(3) tl_drop)
  qed
  have at: "header_at ?e \<lparr>hkey = tk, hval = tv\<rparr> (k, x)"
    using tk tv vr by (auto simp: header_at_def)
  have "p < 2 ^ 31" using size by (simp add: p_def)
  then have step: "parse_headers r buf =
      parse_headers (r\<lparr>headers := (headers r)[num_headers r := \<lparr>hkey = tk, hval = tv\<rparr>],
         read_bytes := length (pre @ ?line), num_headers := num_headers r + 1\<rparr>) buf"
    using nb pl span split td r size(3) ptr_nat [of p d]
    by (subst parse_headers.simps) (simp add: Let_def flip: d_def p_def)
  show ?thesis using that [OF at step] .
qed

lemma parse_headers_blank:
  assumes "mem_of (bdata buf) = pre @ CR # LF # rest"
    and "read_bytes r = length pre" and "num_headers r < MAX_HEADERS"
  shows "parse_headers r buf = Some (REQ_OK, r\<lparr>read_bytes := length pre + 2\<rparr>)"
proof -
  have "rd (mem_of (bdata buf)) (int (length pre)) = Some CR"
    "rd (mem_of (bdata buf)) (int (length pre) + 1) = Some LF"
    using rd_nat [of "length pre" "mem_of (bdata buf)"] rd_nat [of "Suc (length pre)" "mem_of (bdata buf)"]
    by (simp_all add: assms(1) nth_append add.commute)
  then show ?thesis using assms(2,3) by (subst parse_headers.simps) (simp add: Let_def)
qed

lemma parse_headers_all:
  assumes "mem_of (bdata buf) = pre @ concat (map header_line hs) @ CR # LF # rest"
    and "length (pre @ concat (map header_line hs)) \<le> bsize buf"
    and "bsize buf \<le> length (mem_of (bdata buf))" and "bsize buf < 2 ^ 31"
    and "read_bytes r = length pre" and "num_headers r + length hs < MAX_HEADERS"
    and "length (headers r) = MAX_HEADERS" and "\<forall>kx \<in> set hs. header_ok kx"
  shows "\<exists>hl. list_all2 (header_at (pre @ concat (map header_line hs))) hl hs \<and>
     parse_headers r buf = Some (REQ_OK, r\<lparr>
       headers := take (num_headers r) (headers r) @ hl @ drop (num_headers r + length hs) (headers r),
       read_bytes := length (pre @ concat (map header_line hs)) + 2,
       num_headers := num_headers r + length hs\<rparr>)"
  using assms
proof (induction hs arbitrary: pre r)
  case Nil
  then show ?case using parse_headers_blank [of buf pre rest r] by simp
next
  case (Cons kx hs)
  obtain k x where kx: "kx = (k, x)" by fastforce
  let ?pre = "pre @ header_line (k, x)"
  obtain h where h: "header_at ?pre h (k, x)"
    and step: "parse_headers r buf =
      parse_headers (r\<lparr>headers := (headers r)[num_headers r := h],
         read_bytes := length ?pre, num_headers := num_headers r + 1\<rparr>) buf"
    by (rule parse_headers_line [of buf pre k x "concat (map header_line hs) @ CR # LF # rest" r])
       (use Cons.prems kx in auto)
  let ?r = "r\<lparr>headers := (headers r)[num_headers r := h],
         read_bytes := length ?pre, num_headers := num_headers r + 1\<rparr>"
  have "\<exists>hl. list_all2 (header_at (?pre @ concat (map header_line hs))) hl hs \<and>
     parse_headers ?r buf = Some (REQ_OK, ?r\<lparr>
       headers := take (num_headers ?r) (headers ?r) @ hl @ drop (num_headers ?r + length hs) (headers ?r),
       read_bytes := length (?pre @ concat (map header_line hs)) + 2,
       num_headers := num_headers ?r + length hs\<rparr>)"
    by (rule Cons.IH) (use Cons.prems kx in auto)
  then obtain hl where hl: "list_all2 (header_at (?pre @ concat (map header_line hs))) hl hs"
    and ph: "parse_headers ?r buf = Some (REQ_OK, ?r\<lparr>
       headers := take (num_headers ?r) (headers ?r) @ hl @ drop (num_headers ?r + length hs) (headers ?r),
       read_bytes := length (?pre @ concat (map header_line hs)) + 2,
       num_headers := num_headers ?r + length hs\<rparr>)" by blast
  have "take (num_headers r + 1) ((headers r)[num_headers r := h]) = take (num_headers r) (headers r) @ [h]"
    using Cons.prems(6,7) by (simp add: take_Suc_conv_app_nth)
  then have "parse_headers r buf = Some (REQ_OK, r\<lparr>
       headers := take (num_headers r) (headers r) @ (h # hl) @ drop (num_headers r + length (kx # hs)) (headers r),
       read_bytes := length (pre @ concat (map header_line (kx # hs))) + 2,
       num_headers := num_headers r + length (kx # hs)\<rparr>)"
    using step ph kx by (simp add: drop_update_cancel)
  then show ?case
    using header_at_append [OF h] hl kx by (intro exI [of _ "h # hl"]) simp
qed

lemma find_header_spec:
  assumes "\<forall>h \<in> set hl. in_range data (hkey h)" and "NUL \<notin> set key"
  shows "find_header hl key data = Some (find (\<lambda>h. slice data (hkey h) = key) hl)"
  using assms(1)
proof (induction hl)
  case Nil
  then show ?case by simp
next
  case (Cons h hl)
  let ?p = "drop (nat (off (hkey h))) data"
  have r: "0 \<le> off (hkey h)" "0 \<le> len (hkey h)"
    "nat (off (hkey h)) + nat (len (hkey h)) \<le> length data"
    using Cons.prems by (simp_all add: in_range_def)
  show ?case
  proof (cases "len (hkey h) = int (length key)")
    case True
    then have "strncmp_eq ?p (cstr key) (length key) = Some (take (length key) ?p = key)"
      using strncmp_eq_literal [OF assms(2), of ?p] r by (simp add: strncmp_eq_sym [of ?p])
    then show ?thesis using Cons True r by (simp add: ptr_def slice_def)
  next
    case False
    then have "slice data (hkey h) \<noteq> key" using r by (auto simp: slice_def)
    then show ?thesis using Cons False by simp
  qed
qed

lemma find_header_at:
  assumes "list_all2 (header_at data) hl hs"
  shows "case map_of hs key of
           None \<Rightarrow> find (\<lambda>h. slice data (hkey h) = key) hl = None
         | Some x \<Rightarrow> \<exists>h k. find (\<lambda>h. slice data (hkey h) = key) hl = Some h \<and> header_at data h (k, x)"
  using assms
proof (induction rule: list_all2_induct)
  case Nil
  then show ?case by simp
next
  case (Cons h hl kx hs)
  then show ?case by (cases kx) (auto simp: header_at_def split: option.splits)
qed

section \<open>Whole requests\<close>

definition render_head :: "http_method \<Rightarrow> bytes \<Rightarrow> http_version \<Rightarrow> (bytes \<times> bytes) list \<Rightarrow> bytes" where
  "render_head m uri v hs = render_line m uri v @ concat (map header_line hs) @ [CR, LF]"

definition render_request ::
  "http_method \<Rightarrow> bytes \<Rightarrow> http_version \<Rightarrow> (bytes \<times> bytes) list \<Rightarrow> bytes \<Rightarrow> bytes" where
  "render_request m uri v hs body = render_head m uri v hs @ body"

text \<open>
  A request head the server means to accept, and the length a head announces for the body: the
  number in the first \<^verbatim>\<open>Content-Length\<close> header, and 0 without one.
\<close>

definition head_ok :: "http_method \<Rightarrow> bytes \<Rightarrow> http_version \<Rightarrow> (bytes \<times> bytes) list \<Rightarrow> bool" where
  "head_ok m uri v hs =
     (m \<noteq> HTTP_METHOD_UNKNOWN \<and> v \<noteq> HTTP_VERSION_UNKNOWN \<and> SP \<notin> set uri \<and> LF \<notin> set uri \<and>
      (\<forall>kx \<in> set hs. header_ok kx) \<and> length hs < MAX_HEADERS)"

definition announces :: "(bytes \<times> bytes) list \<Rightarrow> int \<Rightarrow> bool" where
  "announces hs n = (case map_of hs ''Content-Length'' of
      None \<Rightarrow> n = 0 | Some x \<Rightarrow> x = print_int n \<and> n \<le> MAX_BODY \<and> - (2 ^ 31) \<le> n)"

text \<open>The request the parser builds from a head, up to the offsets of its headers.\<close>

definition head_parsed ::
  "bytes \<Rightarrow> http_method \<Rightarrow> bytes \<Rightarrow> http_version \<Rightarrow> (bytes \<times> bytes) list \<Rightarrow> int \<Rightarrow> request \<Rightarrow> bool" where
  "head_parsed data m uri v hs n r =
     (rmethod r = m \<and> rversion r = v \<and> in_range data (ruri r) \<and> slice data (ruri r) = uri \<and>
      off (ruri r) = int (length (method_name m)) + 1 \<and>
      num_headers r = length hs \<and> length (headers r) = MAX_HEADERS \<and>
      list_all2 (header_at data) (take (num_headers r) (headers r)) hs \<and>
      len (rbody r) = n \<and>
      (n \<noteq> 0 \<longrightarrow> off (rbody r) = int (length (render_head m uri v hs))))"

lemma isdigit_CR [simp]: "\<not> isdigit CR"
  by (simp add: isdigit_def)

lemma parse_header_state_head:
  assumes data: "mem_of (bdata (cbuffer c)) = pre @ concat (map header_line hs) @ CR # LF # rest"
    and size: "length (pre @ concat (map header_line hs)) + 2 \<le> bsize (cbuffer c)"
      "bsize (cbuffer c) \<le> length (mem_of (bdata (cbuffer c)))" "bsize (cbuffer c) < 2 ^ 31"
    and r: "read_bytes (req c) = length pre" "num_headers (req c) = 0"
      "length (headers (req c)) = MAX_HEADERS" "rbody (req c) = string0"
    and hs: "\<forall>kx \<in> set hs. header_ok kx" "length hs < MAX_HEADERS" and f: "announces hs n"
  obtains r' where "parse_header_state c = Some (parse_body (c\<lparr>req := r'\<rparr>))"
    and "rstate r' = REQUEST_STATE_BODY" "rmethod r' = rmethod (req c)" "rversion r' = rversion (req c)"
      "ruri r' = ruri (req c)" "num_headers r' = length hs" "length (headers r') = MAX_HEADERS"
      "list_all2 (header_at (pre @ concat (map header_line hs))) (take (num_headers r') (headers r')) hs"
      "len (rbody r') = n" "n \<noteq> 0 \<Longrightarrow> off (rbody r') = int (length (pre @ concat (map header_line hs)) + 2)"
proof -
  define d where "d = mem_of (bdata (cbuffer c))"
  let ?h = "length (pre @ concat (map header_line hs)) + 2"
  obtain hl where hl0: "list_all2 (header_at (pre @ concat (map header_line hs))) hl hs"
    and ph: "parse_headers (req c) (cbuffer c) = Some (REQ_OK, (req c)\<lparr>
       headers := hl @ drop (length hs) (headers (req c)), read_bytes := ?h, num_headers := length hs\<rparr>)"
    using parse_headers_all [OF data _ size(2,3) r(1)] size(1) r hs by (auto simp: d_def)
  define r1 where "r1 = (req c)\<lparr>headers := hl @ drop (length hs) (headers (req c)),
     read_bytes := ?h, num_headers := length hs\<rparr>"
  have ph1: "parse_headers (req c) (cbuffer c) = Some (REQ_OK, r1)" unfolding r1_def by (rule ph)
  have hl: "list_all2 (header_at d) hl hs"
    using hl0 by (rule list_all2_mono)
      (drule header_at_append [where e = "CR # LF # rest"], simp add: d_def data)
  have lhl: "length hl = length hs" using hl by (rule list_all2_lengthD)
  then have hd: "take (num_headers r1) (headers r1) = hl" "length (headers r1) = MAX_HEADERS"
    using hs(2) r(3) by (simp_all add: r1_def)
  have "\<forall>h \<in> set hl. in_range d (hkey h)"
    using hl by (auto simp: list_all2_conv_all_nth header_at_def in_set_conv_nth)
  then have fh: "find_header hl ''Content-Length'' d =
      Some (find (\<lambda>h. slice d (hkey h) = ''Content-Length'') hl)"
    by (rule find_header_spec) simp
  note fa = find_header_at [OF hl, of "''Content-Length''"]
  show ?thesis
  proof (cases "map_of hs ''Content-Length''")
    case None
    then have ps: "parse_header_state c = Some (parse_body (c\<lparr>req := r1\<lparr>rstate := REQUEST_STATE_BODY\<rparr>\<rparr>))"
      using ph1 fh fa hd by (simp add: parse_header_state_def flip: d_def)
    have "n = 0" using f None by (simp add: announces_def)
    then show ?thesis
      by (intro that [OF ps]) (use r hd hl0 lhl hs(2) in \<open>simp_all add: r1_def string0_def flip: d_def\<close>)
  next
    case (Some x)
    then obtain h k where h: "find (\<lambda>h. slice d (hkey h) = ''Content-Length'') hl = Some h"
      and at: "header_at d h (k, x)" using fa by auto
    have x: "x = print_int n" "n \<le> MAX_BODY" "- (2 ^ 31) \<le> n"
      using f Some by (simp_all add: announces_def)
    then obtain t where t: "drop (nat (off (hval h))) d = print_int n @ CR # t"
      using at by (auto simp: header_at_def)
    have nb: "n < 2 ^ 31" using x(2) by (simp add: MAX_BODY_def)
    have off: "ptr d (off (hval h)) = Some (print_int n @ CR # t)"
      using at t by (auto simp: header_at_def in_range_def ptr_def)
    have st: "strtol (print_int n @ CR # t) = Some n"
      by (rule strtol_print_int) (use nb x(3) in simp_all)
    let ?r = "r1\<lparr>rbody := \<lparr>off = int ?h, len = n\<rparr>, rstate := REQUEST_STATE_BODY\<rparr>"
    have h31: "?h < 2 ^ 31" using size by simp
    have rb: "read_bytes r1 = ?h" by (simp add: r1_def)
    have "to_i32 (int (read_bytes r1)) = int ?h" unfolding rb using h31 by (rule to_i32_nat)
    then have ps: "parse_header_state c = Some (parse_body (c\<lparr>req := ?r\<rparr>))"
      using ph1 fh hd h off st nb x(2,3) by (simp add: parse_header_state_def flip: d_def)
    show ?thesis
      by (intro that [OF ps]) (use r hd hl0 lhl hs(2) in \<open>simp_all add: r1_def flip: d_def\<close>)
  qed
qed

text \<open>The first call on a buffer that holds the whole head reaches the body state.\<close>

lemma parse_request_head:
  assumes data: "mem_of (bdata (cbuffer c)) = render_head m uri v hs @ rest"
    and size: "length (render_head m uri v hs) \<le> bsize (cbuffer c)"
      "bsize (cbuffer c) \<le> length (mem_of (bdata (cbuffer c)))" "bsize (cbuffer c) < 2 ^ 31"
    and r: "req c = request0" and head: "head_ok m uri v hs" and f: "announces hs n"
  obtains r' where "parse_request c = Some (parse_body (c\<lparr>req := r'\<rparr>))"
    and "rstate r' = REQUEST_STATE_BODY"
    and "head_parsed (render_head m uri v hs) m uri v hs n r'"
proof -
  define d where "d = render_head m uri v hs"
  let ?line = "render_line m uri v"
  have mv: "m \<noteq> HTTP_METHOD_UNKNOWN" "v \<noteq> HTTP_VERSION_UNKNOWN" "SP \<notin> set uri" "LF \<notin> set uri"
    and hs: "\<forall>kx \<in> set hs. header_ok kx" "length hs < MAX_HEADERS"
    using head by (auto simp: head_ok_def)
  have dd: "mem_of (bdata (cbuffer c)) = ?line @ concat (map header_line hs) @ CR # LF # rest"
    using data by (simp add: render_head_def)
  let ?u = "\<lparr>off = int (length (method_name m)) + 1, len = int (length uri)\<rparr>"
  let ?r0 = "request0\<lparr>rmethod := m, rversion := v, ruri := ?u, read_bytes := length ?line,
     rstate := REQUEST_STATE_HEADERS\<rparr>"
  have sl: "parse_status_line request0 (cbuffer c) = Some (REQ_OK, request0\<lparr>rmethod := m, rversion := v,
     ruri := ?u, read_bytes := length ?line\<rparr>)"
    by (rule parse_status_line_render [OF dd]) (use size mv in \<open>simp_all add: render_head_def\<close>)
  then have pr: "parse_request c = parse_header_state (c\<lparr>req := ?r0\<rparr>)"
    using r by (simp add: parse_request_def request0_def)
  have u: "in_range d ?u" "slice d ?u = uri"
    by (simp_all add: d_def render_head_def render_line_def in_range_def slice_def nat_add_distrib)
  obtain r' where "parse_header_state (c\<lparr>req := ?r0\<rparr>) = Some (parse_body (c\<lparr>req := ?r0\<rparr>\<lparr>req := r'\<rparr>))"
    and st: "rstate r' = REQUEST_STATE_BODY"
    and r': "rmethod r' = m" "rversion r' = v" "ruri r' = ?u" "num_headers r' = length hs"
      "length (headers r') = MAX_HEADERS"
      "list_all2 (header_at (?line @ concat (map header_line hs))) (take (num_headers r') (headers r')) hs"
      "len (rbody r') = n"
      "n \<noteq> 0 \<Longrightarrow> off (rbody r') = int (length (?line @ concat (map header_line hs)) + 2)"
    by (rule parse_header_state_head [of "c\<lparr>req := ?r0\<rparr>" ?line hs rest n])
       (use dd size hs f in \<open>auto simp: render_head_def request0_def\<close>)
  then have "parse_request c = Some (parse_body (c\<lparr>req := r'\<rparr>))" using pr by simp
  moreover have "list_all2 (header_at d) (take (num_headers r') (headers r')) hs"
    using r'(6) by (rule list_all2_mono)
      (drule header_at_append [where e = "[CR, LF]"], simp add: d_def render_head_def)
  then have "head_parsed d m uri v hs n r'"
    using r' u by (auto simp: head_parsed_def render_head_def)
  ultimately show ?thesis using that st by (simp add: d_def)
qed

text \<open>The body state: underflow until the announced number of bytes is there.\<close>

lemma parse_body_short:
  assumes "len (rbody (req c)) \<noteq> 0" and "bsize (cbuffer c) < 2 ^ 31"
    and "int (bsize (cbuffer c)) - off (rbody (req c)) < len (rbody (req c))"
  shows "parse_body c = (REQ_UF, c\<lparr>req := (req c)\<lparr>read_bytes := bsize (cbuffer c)\<rparr>\<rparr>)"
  using assms by (simp add: parse_body_def Let_def)

lemma parse_body_full:
  assumes "bsize (cbuffer c) < 2 ^ 31"
    and "len (rbody (req c)) \<noteq> 0 \<Longrightarrow> len (rbody (req c)) \<le> int (bsize (cbuffer c)) - off (rbody (req c))"
  obtains n where "parse_body c = (REQ_OK, c\<lparr>
      req := (req c)\<lparr>read_bytes := n, rstate := REQUEST_STATE_READ_COMPLETE\<rparr>,
      cflags := (if rversion (req c) = HTTP_VERSION_11
                 then cflags c OR CONNECTION_FLAG_KEEPALIVE else cflags c)\<rparr>)"
proof (cases "len (rbody (req c)) = 0")
  case True
  then show ?thesis
    using that [of "read_bytes (req c)"] by (simp add: parse_body_def parse_complete_def)
next
  case False
  then show ?thesis
    using that [of "bsize (cbuffer c)"] assms by (simp add: parse_body_def parse_complete_def Let_def)
qed

text \<open>What a complete parse of a rendered request leaves in the connection.\<close>

definition parsed_as ::
  "http_method \<Rightarrow> bytes \<Rightarrow> http_version \<Rightarrow> (bytes \<times> bytes) list \<Rightarrow> bytes \<Rightarrow> 'a conn_scheme \<Rightarrow> bool" where
  "parsed_as m uri v hs body c =
     (let d = mem_of (bdata (cbuffer c)); r = req c in
      rstate r = REQUEST_STATE_READ_COMPLETE \<and>
      head_parsed d m uri v hs (int (length body)) r \<and> slice d (rbody r) = body)"

lemma head_parsed_read [simp]:
  "head_parsed d m uri v hs n (r\<lparr>read_bytes := x\<rparr>) = head_parsed d m uri v hs n r"
  "head_parsed d m uri v hs n (r\<lparr>rstate := y\<rparr>) = head_parsed d m uri v hs n r"
  by (simp_all add: head_parsed_def)

lemma head_parsed_append:
  assumes "head_parsed d m uri v hs n r"
  shows "head_parsed (d @ e) m uri v hs n r"
proof -
  have "list_all2 (header_at d) (take (num_headers r) (headers r)) hs"
    using assms unfolding head_parsed_def by blast
  then have "list_all2 (header_at (d @ e)) (take (num_headers r) (headers r)) hs"
    by (rule list_all2_mono) (rule header_at_append)
  then show ?thesis using assms by (simp add: head_parsed_def in_range_append slice_append)
qed

lemma parse_body_request:
  assumes "take (bsize (cbuffer c)) (mem_of (bdata (cbuffer c))) = render_request m uri v hs body"
    and "bsize (cbuffer c) \<le> length (mem_of (bdata (cbuffer c)))" "bsize (cbuffer c) < 2 ^ 31"
    and hp0: "head_parsed (render_head m uri v hs) m uri v hs (int (length body)) (req c)"
  shows "\<exists>c'. parse_body c = (REQ_OK, c') \<and> parsed_as m uri v hs body c' \<and> cbuffer c' = cbuffer c \<and>
     cflags c' = (if v = HTTP_VERSION_11 then cflags c OR CONNECTION_FLAG_KEEPALIVE else cflags c)"
proof -
  define d where "d = mem_of (bdata (cbuffer c))"
  have bs: "bsize (cbuffer c) = length (render_head m uri v hs) + length body"
    using assms(2) length_take [of "bsize (cbuffer c)" "mem_of (bdata (cbuffer c))", unfolded assms(1)]
    by (simp add: render_request_def)
  have d: "d = render_head m uri v hs @ body @ drop (bsize (cbuffer c)) d"
    using assms(1) by (metis append.assoc append_take_drop_id d_def render_request_def)
  have hp: "head_parsed d m uri v hs (int (length body)) (req c)"
    by (subst d) (rule head_parsed_append [OF hp0])
  have sb: "slice d (rbody (req c)) = body"
  proof (cases "length body = 0")
    case True
    then show ?thesis using hp by (simp add: head_parsed_def slice_def)
  next
    case False
    then show ?thesis using hp by (subst d) (simp add: head_parsed_def slice_def)
  qed
  obtain n where "parse_body c = (REQ_OK, c\<lparr>
      req := (req c)\<lparr>read_bytes := n, rstate := REQUEST_STATE_READ_COMPLETE\<rparr>,
      cflags := (if rversion (req c) = HTTP_VERSION_11
                 then cflags c OR CONNECTION_FLAG_KEEPALIVE else cflags c)\<rparr>)"
    by (rule parse_body_full) (use assms(3) hp bs in \<open>auto simp: head_parsed_def\<close>)
  moreover have "rversion (req c) = v" using hp by (simp add: head_parsed_def)
  ultimately show ?thesis
    using hp sb by (simp add: parsed_as_def Let_def flip: d_def)
qed


section \<open>No input makes the parser leave the buffer\<close>

definition within :: "nat \<Rightarrow> string_t \<Rightarrow> bool" where
  "within n t = (0 \<le> off t \<and> 0 \<le> len t \<and> off t + len t \<le> int n)"

lemma within_nat: "within n t \<Longrightarrow> \<exists>a l. t = \<lparr>off = int a, len = int l\<rparr> \<and> a + l \<le> n"
  by (cases t, rule exI [of _ "nat (off t)"], rule exI [of _ "nat (len t)"]) (auto simp: within_def)

lemma within_mono: "within n t \<Longrightarrow> n \<le> m \<Longrightarrow> within m t"
  by (simp add: within_def)

lemma trim_within:
  assumes "within n t" and "n \<le> length data"
  obtains t' where "trim data t = Some t'" and "within n t'"
proof -
  obtain a l where t: "t = \<lparr>off = int a, len = int l\<rparr>" "a + l \<le> n"
    using within_nat [OF assms(1)] by blast
  then obtain a' l' where "trim data t = Some \<lparr>off = int a', len = int l'\<rparr>" "a' + l' \<le> a + l"
    using trim_spec [of a l data] assms(2) by (metis le_trans)
  then show ?thesis using that t(2) by (simp add: within_def)
qed

lemma split_loop_total:
  assumes "0 \<le> start" "start \<le> stop" "start \<le> int l" "l \<le> length s"
    and "\<forall>t \<in> set toks. k \<le> off t \<and> 0 \<le> len t \<and> off t + len t \<le> k + int l"
  shows "\<exists>ts. split_loop s (int l) k delim n start stop toks = Some ts \<and>
     (\<forall>t \<in> set ts. k \<le> off t \<and> 0 \<le> len t \<and> off t + len t \<le> k + int l)"
  using assms
proof (induction s "int l" k delim n start stop toks rule: split_loop.induct)
  case (1 s k delim n start stop toks)
  show ?case
  proof (cases "stop < int l \<and> int (length toks) < n - 1")
    case False
    then have "split_loop s (int l) k delim n start stop toks =
        Some (toks @ [\<lparr>off = start + k, len = int l - start\<rparr>])"
      by (subst split_loop.simps) auto
    then show ?thesis using "1.prems" by auto
  next
    case True
    then have "nat stop < length s" using "1.prems" by linarith
    then have b: "rd s stop = Some (s ! nat stop)" using "1.prems" by (simp add: rd_def)
    show ?thesis
    proof (cases "s ! nat stop = delim")
      case d: True
      have "split_loop s (int l) k delim n start stop toks =
          split_loop s (int l) k delim n (stop + 1) (stop + 1)
            (toks @ [\<lparr>off = start + k, len = stop - start\<rparr>])"
        by (subst split_loop.simps) (simp add: True b d)
      then show ?thesis using "1.hyps"(1) [OF True b d] "1.prems" True by simp
    next
      case d: False
      have "split_loop s (int l) k delim n start stop toks =
          split_loop s (int l) k delim n start (stop + 1) toks"
        by (subst split_loop.simps) (simp add: True b d)
      then show ?thesis using "1.hyps"(2) [OF True b d] "1.prems" True by simp
    qed
  qed
qed

lemma split_total:
  assumes "l \<le> length s" and "2 \<le> n"
  obtains ts where "split s (int l) (int k) delim n = Some ts" and "\<forall>t \<in> set ts. within (k + l) t"
proof -
  have "\<exists>ts. split_loop s (int l) (int k) delim n 0 0 [] = Some ts \<and>
     (\<forall>t \<in> set ts. int k \<le> off t \<and> 0 \<le> len t \<and> off t + len t \<le> int k + int l)"
    by (rule split_loop_total) (use assms in auto)
  then show ?thesis using that assms by (fastforce simp: split_def within_def)
qed

lemma span_total:
  assumes "l \<le> length s"
  obtains r where "span s c (int l) (int k) = Some r" and "r = -1 \<or> (\<exists>n. r = int n \<and> 0 < n \<and> k + n \<le> l)"
proof (cases "k \<le> l")
  case False
  then show ?thesis using that [of "-1"] by (simp add: span_past)
next
  case True
  let ?w = "drop k (take l s)"
  show ?thesis
  proof (cases "c \<in> set ?w")
    case False
    then show ?thesis using that [of "-1"] span_spec [OF assms True, of c] by (simp add: Let_def)
  next
    case c: True
    let ?n = "length (takeWhile (\<lambda>x. x \<noteq> c) ?w)"
    have "length ?w = ?n + length (dropWhile (\<lambda>x. x \<noteq> c) ?w)"
      by (metis length_append takeWhile_dropWhile_id)
    moreover have "dropWhile (\<lambda>x. x \<noteq> c) ?w \<noteq> []" using c by (auto simp: dropWhile_eq_Nil_conv)
    ultimately have "?n < length ?w" by simp
    then have "k + (?n + 1) \<le> l" using True by simp
    moreover have "span s c (int l) (int k) = Some (int (?n + 1))"
      using span_spec [OF assms True, of c] c by (simp add: Let_def)
    ultimately show ?thesis using that [of "int (?n + 1)"] by fastforce
  qed
qed

text \<open>
  The invariant of a request under parsing: everything it refers to lies in the received bytes.
  \<open>slack_ok\<close> is what \<^verbatim>\<open>read_data\<close> leaves behind the received bytes, and that some byte there
  stops a scan for digits.
\<close>

definition slack_ok :: "buffer_t \<Rightarrow> bool" where
  "slack_ok b = (buffer_ok b \<and> bsize b + 2 < 2 ^ 31 \<and> bsize b + 2 \<le> bcap b \<and>
     NUL \<in> set (drop (bsize b) (mem_of (bdata b))))"

definition request_ok :: "buffer_t \<Rightarrow> request \<Rightarrow> bool" where
  "request_ok b r =
     (within (bsize b) (ruri r) \<and> length (headers r) = MAX_HEADERS \<and> num_headers r \<le> MAX_HEADERS \<and>
      (\<forall>h \<in> set (take (num_headers r) (headers r)). within (bsize b) (hkey h) \<and> within (bsize b) (hval h)) \<and>
      (rstate r = REQUEST_STATE_HEADERS \<longrightarrow> read_bytes r \<le> bsize b) \<and>
      0 \<le> off (rbody r) \<and> off (rbody r) \<le> int (bsize b) + 2)"

lemma slack_okD:
  assumes "slack_ok b"
  shows "bsize b < 2 ^ 31" "bsize b + 2 \<le> length (mem_of (bdata b))"
    "bsize b \<le> length (mem_of (bdata b))"
  using assms buffer_ok_size [of b] by (auto simp: slack_ok_def)

lemma ptr_within:
  assumes "within n t" and "n \<le> length data"
  shows "ptr data (off t) = Some (drop (nat (off t)) data)"
    and "nat (len t) \<le> length (drop (nat (off t)) data)"
  using assms by (auto simp: within_def ptr_def)

lemma parse_status_line_safe:
  assumes "slack_ok b" and "request_ok b r"
  obtains ret r' where "parse_status_line r b = Some (ret, r')"
    and "ret = REQ_OK \<and> request_ok b (r'\<lparr>rstate := REQUEST_STATE_HEADERS\<rparr>) \<or>
         (ret = REQ_ERR \<or> ret = REQ_UF) \<and> r' = r"
proof -
  define d where "d = mem_of (bdata b)"
  note sz = slack_okD [OF assms(1), folded d_def]
  have cast: "to_i32 (int (bsize b)) = int (bsize b)" using sz(1) by simp
  obtain l where l: "span d LF (int (bsize b)) (int 0) = Some l"
      "l = -1 \<or> (\<exists>n. l = int n \<and> 0 < n \<and> 0 + n \<le> bsize b)"
    using span_total [OF sz(3)] .
  show ?thesis
  proof (cases "l = -1")
    case True
    then show ?thesis using that [of REQ_UF r] l cast by (simp add: parse_status_line_def flip: d_def)
  next
    case False
    then obtain n where n: "l = int n" "n \<le> bsize b" using l(2) by auto
    have nd: "n \<le> length d" using n sz by simp
    obtain ts where ts: "split d (int n) (int 0) SP 3 = Some ts" "\<forall>t \<in> set ts. within (0 + n) t"
      by (rule split_total [OF nd, where n = 3 and k = 0 and delim = SP]) simp_all
    show ?thesis
    proof (cases "length ts = 3")
      case False
      then show ?thesis
        using that [of REQ_ERR r] l ts n cast by (simp add: parse_status_line_def flip: d_def)
    next
      case True
      then have w: "within n (ts ! 0)" "within n (ts ! 1)" "within n (ts ! 2)" using ts by auto
      obtain mi where mi: "lookup_kv g_http_methods 0 (drop (nat (off (ts ! 0))) d) (len (ts ! 0)) = Some mi"
        using method_names.lookup_total ptr_within(2) [OF w(1) nd] by blast
      obtain t2 where t2: "trim d (ts ! 2) = Some t2" "within n t2" using trim_within [OF w(3) nd] .
      obtain vi where vi: "lookup_kv g_http_versions 0 (drop (nat (off t2)) d) (len t2) = Some vi"
        using version_names.lookup_total ptr_within(2) [OF t2(2) nd] by blast
      note eqs = l ts n cast True mi t2 vi ptr_within(1) [OF w(1) nd] ptr_within(1) [OF t2(2) nd]
      show ?thesis
      proof (cases "mi = None \<or> vi = None")
        case True
        then show ?thesis
          using that [of REQ_ERR r] eqs
          by (auto simp: parse_status_line_def simp flip: d_def split: option.splits)
      next
        case False
        then obtain m v where mv: "mi = Some m" "vi = Some v" by auto
        let ?r = "r\<lparr>rmethod := method_of m, rversion := version_of v, ruri := ts ! 1, read_bytes := n\<rparr>"
        have "parse_status_line r b = Some (REQ_OK, ?r)"
          using eqs mv by (simp add: parse_status_line_def flip: d_def)
        moreover have "request_ok b (?r\<lparr>rstate := REQUEST_STATE_HEADERS\<rparr>)"
          using assms(2) within_mono [OF w(2) n(2)] n(2) by (simp add: request_ok_def)
        ultimately show ?thesis using that [of REQ_OK ?r] by simp
      qed
    qed
  qed
qed

lemma request_ok_header:
  assumes "request_ok b r" and "num_headers r < MAX_HEADERS"
    and "within (bsize b) k" "within (bsize b) v" "n \<le> bsize b"
  shows "request_ok b (r\<lparr>headers := (headers r)[num_headers r := \<lparr>hkey = k, hval = v\<rparr>],
     read_bytes := n, num_headers := num_headers r + 1\<rparr>)"
proof -
  have "take (num_headers r + 1) ((headers r)[num_headers r := \<lparr>hkey = k, hval = v\<rparr>]) =
      take (num_headers r) (headers r) @ [\<lparr>hkey = k, hval = v\<rparr>]"
    using assms(1,2) by (simp add: request_ok_def take_Suc_conv_app_nth)
  then show ?thesis using assms by (simp add: request_ok_def ball_Un)
qed

text \<open>One round of the header loop: it stops with a result or stores one more header.\<close>

lemma parse_headers_round:
  assumes "slack_ok b" and "request_ok b r" and "rstate r = REQUEST_STATE_HEADERS"
    and "num_headers r < MAX_HEADERS"
  shows "(\<exists>ret. (ret = REQ_ERR \<or> ret = REQ_UF) \<and> parse_headers r b = Some (ret, r)) \<or>
     parse_headers r b = Some (REQ_OK, r\<lparr>read_bytes := read_bytes r + 2\<rparr>) \<or>
     (\<exists>k v n. within (bsize b) k \<and> within (bsize b) v \<and> n \<le> bsize b \<and>
        parse_headers r b = parse_headers
          (r\<lparr>headers := (headers r)[num_headers r := \<lparr>hkey = k, hval = v\<rparr>],
             read_bytes := n, num_headers := num_headers r + 1\<rparr>) b)"
proof -
  define d where "d = mem_of (bdata b)"
  define p where "p = read_bytes r"
  note sz = slack_okD [OF assms(1), folded d_def]
  have p: "p \<le> bsize b" using assms(2,3) by (simp add: request_ok_def p_def)
  have cast: "to_i32 (int (bsize b)) = int (bsize b)" "to_i32 (int p) = int p" using sz(1) p by simp_all
  have rds: "rd d (int p) = Some (d ! p)" "rd d (int p + 1) = Some (d ! Suc p)"
    using rd_nat [of p d] rd_nat [of "Suc p" d] p sz(2) by (simp_all add: add.commute)
  note unf = parse_headers.simps [of r b, folded d_def p_def]
  show ?thesis
  proof (cases "d ! p = CR \<and> d ! Suc p = LF")
    case True
    then show ?thesis using assms(4) rds unf by (simp add: p_def)
  next
    case blank: False
    obtain l where l: "span d LF (int (bsize b)) (int p) = Some l"
        "l = -1 \<or> (\<exists>n. l = int n \<and> 0 < n \<and> p + n \<le> bsize b)"
      using span_total [OF sz(3)] .
    show ?thesis
    proof (cases "l = -1")
      case True
      then show ?thesis using assms(4) rds unf l cast blank by (auto simp: Let_def)
    next
      case False
      then obtain n where n: "l = int n" "p + n \<le> bsize b" using l(2) by auto
      have nd: "n \<le> length (drop p d)" "p \<le> length d" using n sz by auto
      obtain ts where ts: "split (drop p d) (int n) (int p) (CHR '':'') 2 = Some ts"
          "\<forall>t \<in> set ts. within (p + n) t"
        by (rule split_total [OF nd(1), where n = 2 and k = p and delim = "CHR '':''"]) simp_all
      note eqs = assms(4) rds l(1) n(1) cast ts(1) ptr_nat [OF nd(2)] p_def
      show ?thesis
      proof (cases "length ts = 2")
        case False
        then have "parse_headers r b = Some (REQ_ERR, r)"
          using unf eqs blank by (auto simp: Let_def)
        then show ?thesis by simp
      next
        case True
        then have w: "within (bsize b) (ts ! 0)" "within (bsize b) (ts ! 1)"
          using ts(2) n(2) by (auto intro: within_mono)
        obtain k where k: "trim d (ts ! 0) = Some k" "within (bsize b) k"
          using trim_within [OF w(1) sz(3)] .
        obtain v where v: "trim d (ts ! 1) = Some v" "within (bsize b) v"
          using trim_within [OF w(2) sz(3)] .
        have "parse_headers r b = parse_headers
          (r\<lparr>headers := (headers r)[num_headers r := \<lparr>hkey = k, hval = v\<rparr>],
             read_bytes := p + n, num_headers := num_headers r + 1\<rparr>) b"
          using unf eqs blank True k(1) v(1) by (auto simp: Let_def)
        then show ?thesis using k v n by blast
      qed
    qed
  qed
qed

lemma parse_headers_safe:
  assumes "slack_ok b" and "request_ok b r" and "rstate r = REQUEST_STATE_HEADERS"
  shows "\<exists>ret r'. parse_headers r b = Some (ret, r') \<and> request_ok b (r'\<lparr>rstate := REQUEST_STATE_BODY\<rparr>) \<and>
     read_bytes r' \<le> bsize b + 2 \<and> rstate r' = REQUEST_STATE_HEADERS \<and>
     (ret = REQ_OK \<or> (ret = REQ_ERR \<or> ret = REQ_UF) \<and> request_ok b r')"
  using assms(2,3)
proof (induction "MAX_HEADERS - num_headers r" arbitrary: r)
  case 0
  then have "parse_headers r b = Some (REQ_OK, r)" by (subst parse_headers.simps) simp
  then show ?case using 0 by (simp add: request_ok_def)
next
  case (Suc n)
  then have num: "num_headers r < MAX_HEADERS" by simp
  note ok = Suc.prems
  consider (stop) ret where "ret = REQ_ERR \<or> ret = REQ_UF" "parse_headers r b = Some (ret, r)"
    | (blank) "parse_headers r b = Some (REQ_OK, r\<lparr>read_bytes := read_bytes r + 2\<rparr>)"
    | (line) k v m where "within (bsize b) k" "within (bsize b) v" "m \<le> bsize b"
        "parse_headers r b = parse_headers
          (r\<lparr>headers := (headers r)[num_headers r := \<lparr>hkey = k, hval = v\<rparr>],
             read_bytes := m, num_headers := num_headers r + 1\<rparr>) b"
    using parse_headers_round [OF assms(1) ok num] by blast
  then show ?case
  proof cases
    case stop
    then show ?thesis using ok by (auto simp: request_ok_def)
  next
    case blank
    then show ?thesis using ok by (auto simp: request_ok_def)
  next
    case line
    note rok = request_ok_header [OF ok(1) num line(1-3)]
    show ?thesis unfolding line(4)
      by (rule Suc.hyps(1)) (use Suc.hyps(2) rok ok(2) in auto)
  qed
qed

lemma parse_body_safe:
  assumes "request_ok (cbuffer c) (req c)" and "rstate (req c) = REQUEST_STATE_BODY"
  obtains ret c' where "parse_body c = (ret, c')" and "request_ok (cbuffer c) (req c')"
    and "cbuffer c' = cbuffer c"
    and "ret = REQ_OK \<and> rstate (req c') = REQUEST_STATE_READ_COMPLETE \<or>
         ret = REQ_UF \<and> rstate (req c') = REQUEST_STATE_BODY"
proof -
  obtain ret c' where e: "parse_body c = (ret, c')" by fastforce
  then show ?thesis
    by (intro that [OF e])
       (use assms in \<open>auto simp: parse_body_def parse_complete_def request_ok_def Let_def split: if_splits\<close>)
qed

lemma parse_header_state_safe:
  assumes slack: "slack_ok (cbuffer c)" and ok: "request_ok (cbuffer c) (req c)"
    and st: "rstate (req c) = REQUEST_STATE_HEADERS"
  shows "\<exists>ret c'. parse_header_state c = Some (ret, c') \<and> (ret \<noteq> REQ_ERR \<longrightarrow> request_ok (cbuffer c) (req c')) \<and>
    cbuffer c' = cbuffer c \<and>
    (ret = REQ_OK \<and> rstate (req c') = REQUEST_STATE_READ_COMPLETE \<or>
     (ret = REQ_UF \<or> ret = REQ_ERR) \<and>
       (rstate (req c') = REQUEST_STATE_HEADERS \<or> rstate (req c') = REQUEST_STATE_BODY))"
proof -
  define b where "b = cbuffer c"
  define d where "d = mem_of (bdata b)"
  note sz = slack_okD [OF slack, folded b_def, folded d_def]
  obtain ret r where ph: "parse_headers (req c) b = Some (ret, r)"
      and rok: "request_ok b (r\<lparr>rstate := REQUEST_STATE_BODY\<rparr>)" "read_bytes r \<le> bsize b + 2"
        "rstate r = REQUEST_STATE_HEADERS"
        "ret = REQ_OK \<or> (ret = REQ_ERR \<or> ret = REQ_UF) \<and> request_ok b r"
    using parse_headers_safe [OF slack ok st] by (auto simp: b_def)
  show ?thesis
  proof (cases "ret = REQ_OK")
    case False
    then show ?thesis
      using ph rok by (auto simp: parse_header_state_def simp flip: b_def)
  next
    case True
    let ?hl = "take (num_headers r) (headers r)"
    have hl: "\<forall>h \<in> set ?hl. within (bsize b) (hkey h) \<and> within (bsize b) (hval h)"
      using rok(1) by (simp add: request_ok_def)
    then have "\<forall>h \<in> set ?hl. in_range d (hkey h)" using sz by (auto simp: within_def in_range_def)
    then obtain cl where cl: "find_header ?hl ''Content-Length'' d = Some cl"
        "cl = find (\<lambda>h. slice d (hkey h) = ''Content-Length'') ?hl"
      using find_header_spec [of ?hl d "''Content-Length''"] by auto
    have fin: "\<exists>ret c'. parse_body (c\<lparr>req := r'\<rparr>) = (ret, c') \<and> request_ok b (req c') \<and> cbuffer c' = b \<and>
        (ret = REQ_OK \<and> rstate (req c') = REQUEST_STATE_READ_COMPLETE \<or>
         ret = REQ_UF \<and> rstate (req c') = REQUEST_STATE_BODY)"
      if "request_ok b r'" "rstate r' = REQUEST_STATE_BODY" for r'
      by (rule parse_body_safe [of "c\<lparr>req := r'\<rparr>"]) (use that in \<open>auto simp: b_def\<close>)
    show ?thesis
    proof (cases cl)
      case None
      then show ?thesis
        using ph True cl fin [OF rok(1)] by (auto simp: parse_header_state_def simp flip: b_def d_def)
    next
      case (Some h)
      then have "h \<in> set ?hl" using cl(2) by (metis find_Some_iff nth_mem)
      then have h: "within (bsize b) (hval h)" using hl by blast
      let ?p = "drop (nat (off (hval h))) d"
      have nul: "NUL \<in> set (drop (bsize b) d)" using slack by (simp add: slack_ok_def b_def d_def)
      have "nat (off (hval h)) \<le> bsize b" using h by (auto simp: within_def)
      then have "set (drop (bsize b) d) \<subseteq> set ?p" by (rule set_drop_subset_set_drop)
      then have "NUL \<in> set ?p" using nul by (rule subsetD)
      then obtain n where n: "strtol ?p = Some n" using scan_num_total by (fastforce simp: strtol_def)
      note p = ptr_within(1) [OF h sz(3)]
      let ?r = "r\<lparr>rbody := \<lparr>off = to_i32 (int (read_bytes r)), len = to_i32 n\<rparr>, rstate := REQUEST_STATE_BODY\<rparr>"
      have "to_i32 (int (read_bytes r)) = int (read_bytes r)"
        using rok(2) slack by (intro to_i32_nat) (simp add: slack_ok_def b_def)
      then have "request_ok b ?r" using rok(1,2) by (simp add: request_ok_def)
      note fr = fin [OF this]
      show ?thesis
        using ph True cl(1) Some p n fr rok
        by (cases "to_i32 n > MAX_BODY") (auto simp: parse_header_state_def request_ok_def simp flip: b_def d_def)
    qed
  qed
qed

section \<open>Concrete buffers\<close>

definition buffer_of :: "bytes \<Rightarrow> bytes \<Rightarrow> buffer_t" where
  "buffer_of s slack = \<lparr>bsize = length s, bcap = length s + length slack, bdata = Some (s @ slack)\<rparr>"

definition fresh_conn :: "buffer_t \<Rightarrow> conn" where
  "fresh_conn b = \<lparr>cbuffer = b, cflags = 0, req = request0\<rparr>"

abbreviation hello_headers :: "(bytes \<times> bytes) list" where
  "hello_headers \<equiv> [(''Host'', ''cask''), (''Content-Length'', ''5'')]"

abbreviation hello :: "bytes \<Rightarrow> bytes" where
  "hello body \<equiv> render_request HTTP_METHOD_POST ''/'' HTTP_VERSION_11 hello_headers body"

lemma buffer_of_simps [simp]:
  "length s + length slack < 2 ^ 64 \<Longrightarrow> buffer_ok (buffer_of s slack)"
  "contents (buffer_of s slack) = s" "bsize (buffer_of s slack) = length s"
  by (simp_all add: buffer_ok_def buffer_of_def contents_def)

lemma fresh_conn_simps [simp]: "cbuffer (fresh_conn b) = b" "req (fresh_conn b) = request0"
  by (simp_all add: fresh_conn_def)

lemma hello_head: "announces hello_headers 5" "head_ok HTTP_METHOD_POST ''/'' HTTP_VERSION_11 hello_headers"
  by code_simp+

lemma hello_length: "length (hello ''hello'') = 55" "length (hello ''he'') = 52"
  by code_simp+

section \<open>A rendered request\<close>

lemma parse_rendered:
  assumes "contents (cbuffer c) = render_request m uri v hs body" and "buffer_ok (cbuffer c)"
    and "bsize (cbuffer c) < 2 ^ 31" and "req c = request0"
    and "head_ok m uri v hs" and "announces hs (int (length body))"
  shows "\<exists>c'. parse_request c = Some (REQ_OK, c') \<and> parsed_as m uri v hs body c' \<and>
     cbuffer c' = cbuffer c \<and>
     cflags c' = (if v = HTTP_VERSION_11 then cflags c OR CONNECTION_FLAG_KEEPALIVE else cflags c)"
proof -
  let ?d = "mem_of (bdata (cbuffer c))"
  have sz: "bsize (cbuffer c) \<le> length ?d" using buffer_ok_size [OF assms(2)] by simp
  have ct: "take (bsize (cbuffer c)) ?d = render_request m uri v hs body"
    using assms(1) by (simp add: contents_def)
  then have d: "?d = render_head m uri v hs @ (body @ drop (bsize (cbuffer c)) ?d)"
    by (metis append.assoc append_take_drop_id render_request_def)
  have "length (render_head m uri v hs) \<le> bsize (cbuffer c)"
    using length_contents [OF assms(2)] assms(1) by (simp add: render_request_def)
  then obtain r' where r': "parse_request c = Some (parse_body (c\<lparr>req := r'\<rparr>))"
      "head_parsed (render_head m uri v hs) m uri v hs (int (length body)) r'"
    using parse_request_head [OF d _ sz assms(3-6)] by metis
  show ?thesis
    using parse_body_request [of "c\<lparr>req := r'\<rparr>" m uri v hs body] r' ct sz assms(3) by auto
qed

section \<open>Properties\<close>

text \<open>C2. Round trip: a buffer that holds a rendered request (any known method and version, any
  URI without space or line feed, any trimmed headers, and the body its \<^verbatim>\<open>Content-Length\<close> announces)
  is parsed in one call to exactly that request, whatever the rest of the allocation holds, and
  the connection is marked keep-alive precisely for HTTP/1.1.\<close>

theorem parse_request_roundtrip:
  assumes "contents (cbuffer c) = render_request m uri v hs body" and "buffer_ok (cbuffer c)"
    and "bsize (cbuffer c) < 2 ^ 31" and "req c = request0"
    and "head_ok m uri v hs" and "announces hs (int (length body))"
  shows "\<exists>c'. parse_request c = Some (REQ_OK, c') \<and> parsed_as m uri v hs body c' \<and>
     cbuffer c' = cbuffer c \<and>
     cflags c' = (if v = HTTP_VERSION_11 then cflags c OR CONNECTION_FLAG_KEEPALIVE else cflags c)"
  using assms by (rule parse_rendered)

theorem parse_request_roundtrip_witness:
  "\<exists>c'. parse_request (fresh_conn (buffer_of (hello ''hello'') [NUL, NUL])) = Some (REQ_OK, c') \<and>
     parsed_as HTTP_METHOD_POST ''/'' HTTP_VERSION_11 hello_headers ''hello'' c'"
  using parse_request_roundtrip [of "fresh_conn (buffer_of (hello ''hello'') [NUL, NUL])"
      HTTP_METHOD_POST "''/''" HTTP_VERSION_11 hello_headers "''hello''"] hello_head hello_length
  by auto

text \<open>C13. Resumption: when only part of the body has arrived the parser reports an underflow, and
  when the rest is in the buffer the next call completes the same request.\<close>

theorem parse_request_resumes:
  assumes "contents (cbuffer c) = render_request m uri v hs (take k body)" and "buffer_ok (cbuffer c)"
    and "k < length body" and "req c = request0" and "head_ok m uri v hs" and "announces hs (int (length body))"
    and "contents buf = render_request m uri v hs body" and "buffer_ok buf" and "bsize buf < 2 ^ 31"
  shows "\<exists>c1 c2. parse_request c = Some (REQ_UF, c1) \<and>
     parse_request (c1\<lparr>cbuffer := buf\<rparr>) = Some (REQ_OK, c2) \<and> parsed_as m uri v hs body c2"
proof -
  let ?d = "mem_of (bdata (cbuffer c))" and ?h = "render_head m uri v hs"
  have sz: "bsize (cbuffer c) \<le> length ?d" using buffer_ok_size [OF assms(2)] by simp
  have bs: "bsize (cbuffer c) = length ?h + k"
    using length_contents [OF assms(2)] assms(1,3) by (simp add: render_request_def)
  have bs2: "bsize buf = length ?h + length body"
    using length_contents [OF assms(8)] assms(7) by (simp add: render_request_def)
  have small: "bsize (cbuffer c) < 2 ^ 31" using bs bs2 assms(3,9) by simp
  have d: "?d = ?h @ (take k body @ drop (bsize (cbuffer c)) ?d)"
    using assms(1) by (metis append.assoc append_take_drop_id contents_def render_request_def)
  have "length ?h \<le> bsize (cbuffer c)" using bs by simp
  then obtain r where r: "parse_request c = Some (parse_body (c\<lparr>req := r\<rparr>))"
      "rstate r = REQUEST_STATE_BODY" "head_parsed ?h m uri v hs (int (length body)) r"
    using parse_request_head [OF d _ sz small assms(4-6)] by metis
  let ?c1 = "c\<lparr>req := r\<lparr>read_bytes := bsize (cbuffer c)\<rparr>\<rparr>"
  have "body \<noteq> []" using assms(3) by auto
  then have "parse_body (c\<lparr>req := r\<rparr>) = (REQ_UF, ?c1)"
    using parse_body_short [of "c\<lparr>req := r\<rparr>"] r(3) small bs assms(3) by (auto simp: head_parsed_def)
  moreover have "parse_request (?c1\<lparr>cbuffer := buf\<rparr>) = Some (parse_body (?c1\<lparr>cbuffer := buf\<rparr>))"
    using r(2) by (simp add: parse_request_def)
  moreover have "\<exists>c2. parse_body (?c1\<lparr>cbuffer := buf\<rparr>) = (REQ_OK, c2) \<and> parsed_as m uri v hs body c2"
    using parse_body_request [of "?c1\<lparr>cbuffer := buf\<rparr>" m uri v hs body] assms(7-9) r(3)
      buffer_ok_size [OF assms(8)] by (auto simp: contents_def)
  ultimately show ?thesis using r(1) by auto
qed

theorem parse_request_resumes_witness:
  "\<exists>c1 c2. parse_request (fresh_conn (buffer_of (hello ''he'') [NUL, NUL])) = Some (REQ_UF, c1) \<and>
     parse_request (c1\<lparr>cbuffer := buffer_of (hello ''hello'') [NUL, NUL]\<rparr>) = Some (REQ_OK, c2) \<and>
     parsed_as HTTP_METHOD_POST ''/'' HTTP_VERSION_11 hello_headers ''hello'' c2"
  using parse_request_resumes [of "fresh_conn (buffer_of (hello ''he'') [NUL, NUL])"
      HTTP_METHOD_POST "''/''" HTTP_VERSION_11 hello_headers 2 "''hello''"
      "buffer_of (hello ''hello'') [NUL, NUL]"] hello_head hello_length
  by auto



text \<open>C37. A negative \<^verbatim>\<open>Content-Length\<close> passes the check against \<^verbatim>\<open>MAX_BODY\<close>: the request is complete at
  once and its body has a negative length, which \<^verbatim>\<open>post_callback\<close> converts to an unsigned one.\<close>

theorem parse_request_negative_length:
  assumes "contents (cbuffer c) = render_request m uri v hs body" and "buffer_ok (cbuffer c)"
    and "bsize (cbuffer c) < 2 ^ 31" and "req c = request0"
    and "head_ok m uri v hs" and "announces hs n" and "n < 0"
  shows "\<exists>c'. parse_request c = Some (REQ_OK, c') \<and> len (rbody (req c')) = n"
proof -
  let ?d = "mem_of (bdata (cbuffer c))"
  have sz: "bsize (cbuffer c) \<le> length ?d" using buffer_ok_size [OF assms(2)] by simp
  have bs: "bsize (cbuffer c) = length (render_head m uri v hs) + length body"
    using length_contents [OF assms(2)] assms(1) by (simp add: render_request_def)
  have d: "?d = render_head m uri v hs @ (body @ drop (bsize (cbuffer c)) ?d)"
    using assms(1) by (metis append.assoc append_take_drop_id render_request_def contents_def)
  have "length (render_head m uri v hs) \<le> bsize (cbuffer c)" using bs by simp
  then obtain r where r: "parse_request c = Some (parse_body (c\<lparr>req := r\<rparr>))"
      "head_parsed (render_head m uri v hs) m uri v hs n r"
    using parse_request_head [OF d _ sz assms(3-6)] by metis
  have "\<exists>c'. parse_body (c\<lparr>req := r\<rparr>) = (REQ_OK, c') \<and> rbody (req c') = rbody r"
    by (rule parse_body_full [of "c\<lparr>req := r\<rparr>"])
       (use assms(3,7) r(2) bs in \<open>auto simp: head_parsed_def\<close>)
  then show ?thesis using r by (auto simp: head_parsed_def)
qed

theorem parse_request_negative_length_witness:
  "\<exists>c'. parse_request (fresh_conn (buffer_of (render_request HTTP_METHOD_POST ''/'' HTTP_VERSION_10
      [(''Content-Length'', ''-5'')] []) [NUL, NUL])) = Some (REQ_OK, c') \<and> len (rbody (req c')) = -5"
proof -
  have "announces [(''Content-Length'', ''-5'')] (-5)"
    "head_ok HTTP_METHOD_POST ''/'' HTTP_VERSION_10 [(''Content-Length'', ''-5'')]"
    "length (render_request HTTP_METHOD_POST ''/'' HTTP_VERSION_10 [(''Content-Length'', ''-5'')] []) = 39"
    by code_simp+
  then show ?thesis
    using parse_request_negative_length [of "fresh_conn (buffer_of (render_request HTTP_METHOD_POST ''/''
      HTTP_VERSION_10 [(''Content-Length'', ''-5'')] []) [NUL, NUL])" HTTP_METHOD_POST "''/''"
      HTTP_VERSION_10 "[(''Content-Length'', ''-5'')]" "[]" "-5"] by simp
qed

end
