(* ===== verification/Cask_Respond.thy ===== *)
theory Cask_Respond
  imports Cask_Serve Cask_Parse
begin

text \<open>
  Responses and requests on the wire: the bytes \<^verbatim>\<open>send_response\<close> puts into the buffer and the loop of
  \<^verbatim>\<open>send_data\<close> hands to the kernel, and how \<^verbatim>\<open>read_data\<close> gathers a request from the chunks the kernel
  delivers.
\<close>

section \<open>The text of a response\<close>

fun status_text :: "http_status \<Rightarrow> string" where
  "status_text HTTP_STATUS_200 = ''200 OK''"
| "status_text HTTP_STATUS_400 = ''400 Bad Request''"
| "status_text HTTP_STATUS_404 = ''404 Not Found''"
| "status_text HTTP_STATUS_500 = ''500 Internal Server Error''"
| "status_text HTTP_STATUS_UNKNOWN = []"

definition response_lines :: "http_version \<Rightarrow> http_status \<Rightarrow> bool \<Rightarrow> nat \<Rightarrow> bytes list" where
  "response_lines v st keep n =
     [version_name v @ [SP] @ status_text st @ CRLF]
     @ (if keep then [''Connection: keep-alive'' @ CRLF, ''Keep-Alive: timeout=5'' @ CRLF] else [])
     @ [''Content-Length: '' @ print_nat n @ CRLF @ CRLF]"

definition response_text :: "http_version \<Rightarrow> http_status \<Rightarrow> bool \<Rightarrow> bytes \<Rightarrow> bytes" where
  "response_text v st keep body = concat (response_lines v st keep (length body)) @ body"

lemma table_str_version: "v \<noteq> HTTP_VERSION_UNKNOWN \<Longrightarrow> table_str g_http_versions (version_index v) = Some (version_name v)"
  by (cases v) (simp_all add: table_str_def table_defs)

lemma table_str_status: "st \<noteq> HTTP_STATUS_UNKNOWN \<Longrightarrow> table_str g_http_statuses (status_index st) = Some (status_text st)"
  by (cases st) (simp_all add: table_str_def g_http_statuses_def make_kv_def)

lemma table_str_hkeys:
  "table_str g_http_hkeys (hkey_index HTTP_HKEY_CONTENT_LENGTH) = Some ''Content-Length''"
  "table_str g_http_hkeys (hkey_index HTTP_HKEY_CONNECTION) = Some ''Connection''"
  "table_str g_http_hkeys (hkey_index HTTP_HKEY_KEEP_ALIVE) = Some ''Keep-Alive''"
  by (simp_all add: table_str_def g_http_hkeys_def make_kv_def)

lemmas table_strs = table_str_version table_str_status table_str_hkeys

lemma print_nat_short: "n < 2 ^ 64 \<Longrightarrow> length (print_nat n) \<le> 20"
  by (rule length_print_nat_le) simp_all

lemma response_lines_fit:
  "n < 2 ^ 64 \<Longrightarrow> v \<noteq> HTTP_VERSION_UNKNOWN \<Longrightarrow> s \<in> set (response_lines v st keep n) \<Longrightarrow> s \<noteq> [] \<and> length s < 128"
  using print_nat_short [of n]
  by (cases v; cases st) (auto simp: response_lines_def table_defs CRLF_def split: if_splits)

text \<open>The lines go through a stack array; pushing one is pushing a chunk.\<close>

lemma push_bytes_prefix: "push_bytes b (s @ x) (length s) = push_bytes b s (length s)"
  by (cases "bdata b") (simp_all add: push_bytes_def memcpy_def)

lemma push_buffer_prefix: "push_buffer A b (s @ x) (length s) = push_buffer A b s (length s)"
  by (simp add: push_buffer_def push_bytes_prefix split: prod.splits)

lemma push_line_buffer:
  "length s < 128 \<Longrightarrow> push_line A s b = do { (_, b) \<leftarrow> push_buffer A b s (length s); Some b }"
  by (simp add: push_line_def snprintf_def push_buffer_prefix)

lemma push_line_chunk: "length s < 128 \<Longrightarrow> push_chunk A b s = Some b' \<Longrightarrow> push_line A s b = Some b'"
  by (auto simp: push_line_buffer push_chunk_def split: option.splits if_splits)

fun push_lines :: "'b alloc_scheme \<Rightarrow> bytes list \<Rightarrow> buffer_t \<Rightarrow> buffer_t option" where
  "push_lines A [] b = Some b"
| "push_lines A (s # ss) b = do { b \<leftarrow> push_line A s b; push_lines A ss b }"

lemma push_lines_chunks:
  "\<forall>s\<in>set ss. length s < 128 \<Longrightarrow> push_all (push_chunk A) b ss = Some b' \<Longrightarrow> push_lines A ss b = Some b'"
  by (induction ss arbitrary: b) (auto simp: push_line_chunk split: option.splits)

lemma response_buffer_lines:
  assumes "rversion (req cn) \<noteq> HTTP_VERSION_UNKNOWN" "st \<noteq> HTTP_STATUS_UNKNOWN"
  shows "response_buffer A cn st body n =
    do { b \<leftarrow> push_lines A (response_lines (rversion (req cn)) st
                 (has_flag (cflags cn) CONNECTION_FLAG_KEEPALIVE) n) (clear_buffer (cbuffer cn));
         if n \<noteq> 0 then do { x \<leftarrow> body; (_, b) \<leftarrow> push_buffer A b x n; Some b } else Some b }"
proof -
  have k: "''Connection'' @ '': keep-alive'' @ CRLF = ''Connection: keep-alive'' @ CRLF"
    "''Keep-Alive'' @ '': timeout=5'' @ CRLF = ''Keep-Alive: timeout=5'' @ CRLF"
    "''Content-Length'' @ '': '' @ x = ''Content-Length: '' @ x" for x by simp_all
  show ?thesis
    unfolding response_buffer_def Let_def table_strs(1) [OF assms(1)] table_strs(2) [OF assms(2)] table_strs(3-5)
      Option.bind.bind_lunit k
    by (simp add: response_lines_def)
qed

theorem response_buffer_stores:
  assumes A: "alloc_ok A" and b: "buffer_ok (cbuffer cn)"
    and v: "rversion (req cn) \<noteq> HTTP_VERSION_UNKNOWN" and st: "st \<noteq> HTTP_STATUS_UNKNOWN"
    and body: "n = length (mem_of body)"
    and room: "length (response_text (rversion (req cn)) st (has_flag (cflags cn) CONNECTION_FLAG_KEEPALIVE) (mem_of body)) < 2 ^ 64"
  obtains b' where "response_buffer A cn st body n = Some b'" "buffer_ok b'"
    "contents b' = response_text (rversion (req cn)) st (has_flag (cflags cn) CONNECTION_FLAG_KEEPALIVE) (mem_of body)"
proof -
  let ?k = "has_flag (cflags cn) CONNECTION_FLAG_KEEPALIVE" and ?v = "rversion (req cn)"
  let ?ls = "response_lines ?v st ?k n" and ?b0 = "clear_buffer (cbuffer cn)"
  have r: "length (concat ?ls) + n < 2 ^ 64" using room body by (simp add: response_text_def)
  then have n: "n < 2 ^ 64" by linarith
  note fit = response_lines_fit [OF n v]
  obtain b1 where b1: "push_all (push_chunk A) ?b0 ?ls = Some b1" "buffer_ok b1" "contents b1 = concat ?ls"
    using buf.push_all_stores [of A ?b0 ?ls] A b fit r by fastforce
  have ls: "push_lines A ?ls ?b0 = Some b1" by (rule push_lines_chunks [OF _ b1(1)]) (use fit in blast)
  have eq: "response_buffer A cn st body n =
    (if n \<noteq> 0 then do { x \<leftarrow> body; (_, b) \<leftarrow> push_buffer A b1 x n; Some b } else Some b1)"
    unfolding response_buffer_lines [OF v st] ls by simp
  show thesis
  proof (cases "n = 0")
    case True
    then show thesis using that [of b1] eq b1 body by (simp add: response_text_def)
  next
    case False
    then obtain x where x: "body = Some x" "length x = n" using body by (cases body) auto
    have "bsize b1 + n < 2 ^ 64" using r length_contents [OF b1(2)] b1(3) by simp
    then obtain b2 where "push_buffer A b1 x n = Some (OK, b2)" "buffer_ok b2" "contents b2 = contents b1 @ x"
      using push_buffer_succeeds [OF A b1(2), of n x] False x(2) by auto
    then show thesis using that [of b2] eq False x b1(3) by (simp add: response_text_def)
  qed
qed

text \<open>With an allocator that may refuse, lines may be missing, but the buffer stays sound.\<close>

lemma push_lines_total:
  assumes "buffer_ok b" "\<forall>s\<in>set ss. s \<noteq> [] \<and> length s < 128" "bsize b + length (concat ss) < 2 ^ 64"
  shows "\<exists>b'. push_lines A ss b = Some b' \<and> buffer_ok b' \<and> bsize b' \<le> bsize b + length (concat ss)"
  using assms
proof (induction ss arbitrary: b)
  case (Cons s ss)
  then obtain ret b1 where b1: "push_buffer A b s (length s) = Some (ret, b1)" "buffer_ok b1"
    "contents b1 = contents b @ s \<or> b1 = b"
    using push_buffer_spec [of b "length s" s A] by fastforce
  then have "bsize b1 \<le> bsize b + length s"
    using length_contents [OF b1(2)] length_contents [OF Cons.prems(1)]
    by (metis le_add1 length_append order_refl)
  then show ?case using Cons.IH [OF b1(2)] Cons.prems b1(1) by (fastforce simp: push_line_buffer)
qed simp

lemma response_buffer_total:
  assumes b: "buffer_ok (cbuffer cn)"
    and v: "rversion (req cn) \<noteq> HTTP_VERSION_UNKNOWN" and st: "st \<noteq> HTTP_STATUS_UNKNOWN"
    and body: "n = length (mem_of body)" "n < 2 ^ 63"
  obtains b' where "response_buffer A cn st body n = Some b'" "buffer_ok b'"
proof -
  let ?k = "has_flag (cflags cn) CONNECTION_FLAG_KEEPALIVE" and ?v = "rversion (req cn)"
  let ?ls = "response_lines ?v st ?k n" and ?b0 = "clear_buffer (cbuffer cn)"
  have n: "n < 2 ^ 64" using body(2) by simp
  note fit = response_lines_fit [OF n v]
  have "\<forall>s\<in>set ?ls. length s \<le> 128" using fit by fastforce
  then have "length (concat ?ls) \<le> length ?ls * 128"
    unfolding length_concat using sum_list_mono [of ?ls length "\<lambda>_. 128"] by (simp add: sum_list_triv)
  also have "\<dots> \<le> 512" by (simp add: response_lines_def)
  finally have L: "length (concat ?ls) \<le> 512" .
  have fits: "\<forall>s\<in>set ?ls. s \<noteq> [] \<and> length s < 128" using fit by blast
  have b0: "buffer_ok ?b0" "bsize ?b0 = 0" using b by simp (simp add: clear_buffer_def)
  have "bsize ?b0 + length (concat ?ls) < 2 ^ 64" using b0(2) L by simp
  then obtain b1 where b1: "push_lines A ?ls ?b0 = Some b1" "buffer_ok b1" "bsize b1 \<le> 512"
    using push_lines_total [OF b0(1) fits] b0(2) L by fastforce
  have eq: "response_buffer A cn st body n =
    (if n \<noteq> 0 then do { x \<leftarrow> body; (_, b) \<leftarrow> push_buffer A b1 x n; Some b } else Some b1)"
    unfolding response_buffer_lines [OF v st] b1(1) by simp
  show thesis
  proof (cases "n = 0")
    case True
    then show thesis using that eq b1 by simp
  next
    case False
    then obtain x where x: "body = Some x" "length x = n" using body by (cases body) auto
    have "bsize b1 + n < 2 ^ 64" using b1(3) body(2) by simp
    then obtain ret b2 where "push_buffer A b1 x n = Some (ret, b2)" "buffer_ok b2"
      using push_buffer_spec [OF b1(2), of n x A] False x(2) by auto
    then show thesis using that [of b2] eq False x by simp
  qed
qed

section \<open>Sending a response\<close>

lemma send_response_settled:
  assumes sane: "send_sane os" and h: "handling w cs t c" and few: "length cs \<le> 2"
    and cn: "cmem w c = Some cn" "rversion (req cn) \<noteq> HTTP_VERSION_UNKNOWN"
    and st: "st \<noteq> HTTP_STATUS_UNKNOWN" and body: "n = length (mem_of body)" "n < 2 ^ 63"
  obtains w' where "send_response os w c st body n = Some w'" "settled w cs c w'"
proof -
  note H = handlingD [OF h]
  have b: "buffer_ok (cbuffer cn)" using worker_ok_conn [OF H(1,2)] cn(1) by fastforce
  obtain b' where b': "response_buffer os cn st body n = Some b'" "buffer_ok b'"
    by (rule response_buffer_total [OF b cn(2) st body])
  let ?w = "set_conn w c (cn\<lparr>cbuffer := b'\<rparr>)"
  have "handling ?w cs t c" by (rule touched_handling [where cn' = "cn\<lparr>cbuffer := b'\<rparr>", OF h _ cn(1)]) (use b'(2) in simp_all)
  then obtain w' where "begin_send os ?w c = Some w'" "settled ?w cs c w'"
    by (rule begin_send_settled [OF sane _ few])
  moreover have fr: "conn_frame w c ?w"
    by (rule touched_frame [where cn' = "cn\<lparr>cbuffer := b'\<rparr>", OF _ cn(1)]) simp_all
  ultimately show thesis using that cn(1) b'(1) settled_trans [OF fr] by (simp add: send_response_def)
qed

text \<open>
  A kernel that takes everything it is offered: registering descriptors and sending never fail.
\<close>

definition os_good :: "env \<Rightarrow> bool" where
  "os_good os \<longleftrightarrow> alloc_ok os \<and> send_sane os \<and> (\<forall>n. os_ctl os n = 0)
     \<and> (\<forall>n l. os_send os n l \<noteq> Send_again \<and> os_send os n l \<noteq> Send_error)"

text \<open>What the peer on the descriptor of \<open>c\<close> has got, and whether the connection stays.\<close>

definition answered :: "'a worker_scheme \<Rightarrow> addr list \<Rightarrow> addr \<Rightarrow> bytes \<Rightarrow> bool \<Rightarrow> 'a worker_scheme \<Rightarrow> bool" where
  "answered w cs c text keep w' \<longleftrightarrow>
     outbox w' = (outbox w)(fd_of w c := outbox w (fd_of w c) @ text)
     \<and> (\<exists>t'. ready w' (if keep then cs else remove1 c cs) t')
     \<and> num_conns w' = (if keep then num_conns w else num_conns w - 1)
     \<and> (\<forall>d. d \<noteq> c \<longrightarrow> cmem w' d = cmem w d)
     \<and> (if keep then \<exists>cn. cmem w' c = Some cn \<and> cstate cn = CONNECTION_STATE_IN \<and> req cn = request0
          \<and> contents (cbuffer cn) = [] \<and> cfd cn = fd_of w c
        else cmem w' c = None \<and> fds w' = fds w - {fd_of w c})"

lemma send_response_answered:
  assumes os: "os_good os" and h: "handling w cs t c" and few: "length cs \<le> 2"
    and cn: "cmem w c = Some cn" "rversion (req cn) \<noteq> HTTP_VERSION_UNKNOWN"
    and st: "st \<noteq> HTTP_STATUS_UNKNOWN" and body: "n = length (mem_of body)"
    and keep: "keep = has_flag (cflags cn) CONNECTION_FLAG_KEEPALIVE"
    and room: "length (response_text (rversion (req cn)) st keep (mem_of body)) < 2 ^ 64"
  obtains w' where "send_response os w c st body n = Some w'"
    "answered w cs c (response_text (rversion (req cn)) st keep (mem_of body)) keep w'"
    "worker.more w' = worker.more w"
proof -
  note H = handlingD [OF h]
  have good: "alloc_ok os" "send_sane os" "\<forall>n. os_ctl os n = 0"
    "\<not> (\<exists>l. os_send os m l = Send_again)" "\<not> (\<exists>l. os_send os m l = Send_error)" for m
    using os by (auto simp: os_good_def)
  let ?text = "response_text (rversion (req cn)) st keep (mem_of body)"
  have b: "buffer_ok (cbuffer cn)" using worker_ok_conn [OF H(1,2)] cn(1) by fastforce
  obtain b' where b': "response_buffer os cn st body n = Some b'" "buffer_ok b'" "contents b' = ?text"
    unfolding keep by (rule response_buffer_stores [OF good(1) b cn(2) st body room [unfolded keep]])
  let ?w = "set_conn w c (cn\<lparr>cbuffer := b'\<rparr>)"
  have h0: "handling ?w cs t c" by (rule touched_handling [where cn' = "cn\<lparr>cbuffer := b'\<rparr>", OF h _ cn(1)]) (use b'(2) in simp_all)
  let ?out = "\<lambda>cn. cn\<lparr>cstate := CONNECTION_STATE_OUT\<rparr>"
  let ?cn1 = "cn\<lparr>cbuffer := b', req := request0, write_bytes := 0, cstate := CONNECTION_STATE_OUT\<rparr>"
  obtain w1 t1 where r: "begin_send os ?w c = send_data os w1 c" "ready w1 cs t1"
    "waiting_from ?w c ?cn1 (mask_of CONNECTION_STATE_OUT) True w1"
    unfolding begin_send_rearm
    by (rule rearm_handling [OF h0 worker_few_lone [OF handlingD(1) [OF h0] few], of _ ?out
          CONNECTION_STATE_OUT os "\<lambda>w. send_data os w c"])
      (use b'(2) good(3) in auto)
  have w1: "cmem w1 = (cmem w)(c \<mapsto> ?cn1)" "outbox w1 = outbox w" "num_conns w1 = num_conns w" "fds w1 = fds w"
    "worker.more w1 = worker.more w"
    using r(3) by (simp_all add: waiting_from_def)
  obtain k m where k: "write_bytes ?cn1 + k = bsize (cbuffer ?cn1)"
    "send_data os w1 c = finish_send os (sent_to w1 c ?cn1 k m) c ?cn1"
    using send_data_outcome [OF good(2), of w1 c ?cn1] w1(1) b'(2) good(4,5) by (auto simp: )
  let ?w2 = "sent_to w1 c ?cn1 k m"
  have fd: "fd_of w c = cfd cn" using cn(1) by (simp add: fd_of_def)
  have k': "k = length ?text" using k(1) b'(2,3) length_contents by fastforce
  have out: "outbox ?w2 = (outbox w)(fd_of w c := outbox w (fd_of w c) @ ?text)"
    using fd b'(3) k' w1(2) by (simp add: sent_to_def)
  have to: "touched w1 c (?cn1\<lparr>write_bytes := k\<rparr>) ?w2" by simp
  have m1: "cmem w1 c = Some ?cn1" using w1(1) by simp
  have rd2: "ready ?w2 cs t1" by (rule touched_ready [OF r(2) H(2) to m1]) (use b'(2) k(1) in simp_all)
  note h2 = ready_handling [OF rd2 H(2)]
  have w2: "num_conns ?w2 = num_conns w" "fds ?w2 = fds w" "cmem ?w2 = (cmem w)(c \<mapsto> ?cn1\<lparr>write_bytes := k\<rparr>)"
    "fd_of ?w2 c = fd_of w c" "worker.more ?w2 = worker.more w"
    using w1 fd by (simp_all add: sent_to_def fd_of_def)
  have eq: "send_response os w c st body n = finish_send os ?w2 c ?cn1"
    using cn(1) b'(1) r(1) k(2) by (simp add: send_response_def)
  show thesis
  proof (cases keep)
    case True
    let ?in = "\<lambda>cn. cn\<lparr>cbuffer := clear_buffer (cbuffer cn), cstate := CONNECTION_STATE_IN\<rparr>"
    obtain w3 t3 where w3: "begin_read os ?w2 c = Some w3" "ready w3 cs t3"
      "waiting_from ?w2 c (?in (?cn1\<lparr>write_bytes := k, req := request0, write_bytes := 0\<rparr>))
         (mask_of CONNECTION_STATE_IN) True w3"
      unfolding begin_read_rearm
      by (rule rearm_handling [OF h2 worker_few_lone [OF handlingD(1) [OF h2] few], of _ ?in
            CONNECTION_STATE_IN os Some])
        (use b'(2) good(3) w2(3) in auto)
    have "answered w cs c ?text keep w3"
      using True w3(2,3) out w2 fd by (auto simp: answered_def waiting_from_def)
    moreover have "worker.more w3 = worker.more w" using w3(3) w2 by (simp add: waiting_from_def)
    ultimately show thesis using that [of w3] eq True w3(1) keep by (simp add: finish_send_def)
  next
    case False
    have e: "efd ?w2 c = fd_of ?w2 c" using rd2 H(2) by (metis ready_conn)
    obtain w3 t3 where w3: "close_connection os ?w2 c = Some w3" "ready w3 (remove1 c cs) t3" "closed_from ?w2 c w3"
      by (rule close_handling [OF h2 worker_few_lone [OF handlingD(1) [OF h2] few] e])
    have "answered w cs c ?text keep w3"
      using False w3(2,3) out w2 by (auto simp: answered_def closed_from_def)
    moreover have "worker.more w3 = worker.more w" using w3(3) w2 by (simp add: closed_from_def)
    ultimately show thesis using that [of w3] eq False w3(1) keep by (simp add: finish_send_def)
  qed
qed

end
