(* ===== verification/Cask_Receive.thy ===== *)
theory Cask_Receive
  imports Cask_Respond
begin

text \<open>
  Receiving: the loop of \<^verbatim>\<open>read_data\<close> and the callback of a connection.  The route callbacks are behind
  the interface \<open>route_client\<close>: a callback that returns leaves its connection waiting or closed.
\<close>

section \<open>Growing the buffer\<close>

definition grown :: "'b alloc_scheme \<Rightarrow> buffer_t \<Rightarrow> int \<times> buffer_t" where
  "grown A b =
     (let n = size_add (bsize b) READ_CHUNK in if n > bcap b then resize_buffer A b n else (OK, b))"

lemma grown_ok:
  assumes "grown A b = (ret, b')" "buffer_ok b"
  shows "buffer_ok b'" "contents b' = contents b" "bsize b' = bsize b"
    "ret = OK \<Longrightarrow> bsize b + READ_CHUNK < 2 ^ 64 \<Longrightarrow> bsize b + READ_CHUNK \<le> bcap b'"
    "alloc_ok A \<Longrightarrow> ret = OK"
proof -
  let ?n = "size_add (bsize b) READ_CHUNK"
  note sz = buffer_ok_size [OF assms(2)]
  have all: "buffer_ok b' \<and> contents b' = contents b \<and>
    (ret = OK \<longrightarrow> bsize b + READ_CHUNK < 2 ^ 64 \<longrightarrow> bsize b + READ_CHUNK \<le> bcap b') \<and> (alloc_ok A \<longrightarrow> ret = OK)"
  proof (cases "?n > bcap b")
    case True
    have n: "0 < ?n" "?n < 2 ^ 64" using True by (auto simp: size_add_def)
    have "?n = bsize b + READ_CHUNK"
    proof (rule ccontr)
      assume "?n \<noteq> bsize b + READ_CHUNK"
      then have "2 ^ 64 \<le> bsize b + READ_CHUNK" by (metis size_add_id not_le)
      moreover have "bsize b < 2 ^ 64" using assms(2) by (auto simp: buffer_ok_def split: option.splits)
      ultimately have "?n = bsize b + READ_CHUNK - 2 ^ 64" by (simp add: size_add_def READ_CHUNK_def mod_if)
      then have "?n \<le> bsize b" by (simp add: READ_CHUNK_def)
      then show False using True sz by simp
    qed
    moreover have r: "resize_buffer A b ?n = (ret, b')" using assms(1) True by (simp add: grown_def Let_def)
    moreover have "alloc_ok A \<longrightarrow> ret = OK"
      using r n realloc_ok [of A "mem_of (bdata b)" ?n] by (auto simp: resize_buffer_def split: option.splits)
    ultimately show ?thesis using resize_buffer_ok [OF r assms(2) n] length_contents [OF assms(2)] by auto
  next
    case False
    then show ?thesis using assms by (auto simp: grown_def Let_def)
  qed
  then show "buffer_ok b'" "contents b' = contents b" "alloc_ok A \<Longrightarrow> ret = OK"
    "ret = OK \<Longrightarrow> bsize b + READ_CHUNK < 2 ^ 64 \<Longrightarrow> bsize b + READ_CHUNK \<le> bcap b'" by auto
  then show "bsize b' = bsize b" using length_contents [OF assms(2)] length_contents [of b'] by simp
qed

lemma store_chunk:
  assumes "buffer_ok b" "memcpy (mem_of (bdata b)) (bsize b) bs (length bs) = Some d" "bs \<noteq> []"
  shows "buffer_ok (b\<lparr>bdata := Some d, bsize := size_add (bsize b) (length bs)\<rparr>)"
    "contents (b\<lparr>bdata := Some d, bsize := size_add (bsize b) (length bs)\<rparr>) = contents b @ bs"
    "size_add (bsize b) (length bs) = bsize b + length bs"
proof -
  have d: "d = take (bsize b) (mem_of (bdata b)) @ bs @ drop (bsize b + length bs) (mem_of (bdata b))"
    "bsize b + length bs \<le> length (mem_of (bdata b))"
    using assms(2) by (auto simp: memcpy_def split: if_splits)
  have s: "length (mem_of (bdata b)) = bcap b" "bcap b < 2 ^ 64"
    using d(2) assms(1,3) by (auto simp: buffer_ok_def split: option.splits)
  then show e: "size_add (bsize b) (length bs) = bsize b + length bs" using d(2) by simp
  show "buffer_ok (b\<lparr>bdata := Some d, bsize := size_add (bsize b) (length bs)\<rparr>)"
    using d s unfolding e by (simp add: buffer_ok_def)
  show "contents (b\<lparr>bdata := Some d, bsize := size_add (bsize b) (length bs)\<rparr>) = contents b @ bs"
    using d s unfolding e by (simp add: contents_def)
qed

section \<open>One round of the loop\<close>

text \<open>The parser changes the request and the flags of the connection only.\<close>

lemma parse_body_frame: "snd (parse_body c) = c\<lparr>req := req (snd (parse_body c)), cflags := cflags (snd (parse_body c))\<rparr>"
  by (simp add: parse_body_def parse_complete_def Let_def)

lemma parse_header_state_frame:
  assumes "parse_header_state c = Some (ret, c')"
  shows "c' = c\<lparr>req := req c', cflags := cflags c'\<rparr>"
proof -
  have body: "c' = c\<lparr>req := req c', cflags := cflags c'\<rparr>" if "parse_body (c\<lparr>req := r\<rparr>) = (ret, c')" for r
    using parse_body_frame [of "c\<lparr>req := r\<rparr>"] unfolding that by (simp; metis)
  show ?thesis using assms
    by (auto simp: parse_header_state_def bind_eq_Some_conv split: if_splits option.splits dest!: body)
qed

lemma parse_request_frame:
  assumes "parse_request c = Some (ret, c')"
  shows "c' = c\<lparr>req := req c', cflags := cflags c'\<rparr>"
proof (cases "rstate (req c)")
  case REQUEST_STATE_INIT
  have "c' = c\<lparr>req := req c', cflags := cflags c'\<rparr>" if "parse_header_state (c\<lparr>req := r\<rparr>) = Some (ret, c')" for r
    using parse_header_state_frame [OF that] by (simp; metis)
  then show ?thesis using assms REQUEST_STATE_INIT
    by (auto simp: parse_request_def bind_eq_Some_conv split: if_splits)
next
  case REQUEST_STATE_HEADERS
  then show ?thesis using assms parse_header_state_frame by (auto simp: parse_request_def)
next
  case REQUEST_STATE_BODY
  then show ?thesis using assms parse_body_frame [of c] by (auto simp: parse_request_def)
next
  case REQUEST_STATE_READ_COMPLETE
  then show ?thesis using assms by (auto simp: parse_request_def parse_complete_def)
qed

text \<open>One round of the loop, \<open>again\<close> standing for the rounds that follow.\<close>

definition read_round ::
  "('a worker_scheme \<Rightarrow> 'a worker_scheme option) \<Rightarrow> env \<Rightarrow> 'c routes
     \<Rightarrow> ('c \<Rightarrow> addr \<Rightarrow> 'a worker_scheme \<Rightarrow> 'a worker_scheme option)
     \<Rightarrow> 'a worker_scheme \<Rightarrow> addr \<Rightarrow> connection \<Rightarrow> 'a worker_scheme option" where
  "read_round again os rts call w c cn =
     (let (ret, buf) = grown os (cbuffer cn); fail = (\<lambda>st. close_connection os (set_conn (sys_call w) c (cn\<lparr>cbuffer := buf, cstate := st\<rparr>)) c) in
      if ret \<noteq> OK then close_connection os (set_conn w c (cn\<lparr>cstate := CONNECTION_STATE_ERROR\<rparr>)) c
      else case os_recv os (calls w) of
         Recv_again \<Rightarrow>
           do { (r, cn') \<leftarrow> parse_request (cn\<lparr>cbuffer := buf\<rparr>);
                let w = set_conn (sys_call w) c cn';
                if r = REQ_OK then dispatch os rts call w c
                else if r = REQ_ERR then close_connection os w c
                else again w }
       | Recv_error \<Rightarrow> fail CONNECTION_STATE_ERROR
       | Recv bs \<Rightarrow>
           if bs = [] then fail CONNECTION_STATE_CLOSED
           else do {
             d \<leftarrow> memcpy (mem_of (bdata buf)) (bsize buf) bs (length bs);
             again (set_conn (sys_call w) c
                (cn\<lparr>cbuffer := buf\<lparr>bdata := Some d, bsize := size_add (bsize buf) (length bs)\<rparr>\<rparr>)) })"

lemma set_conn_again [simp]:
  "set_conn (sys_call (set_conn w c a)) c b = set_conn (sys_call w) c b"
  "set_conn (set_conn w c a) c b = set_conn w c b"
  by (simp_all add: set_conn_def sys_call_def)

lemma read_round_unfold:
  assumes cn: "cmem w c = Some cn"
  shows "do { cn \<leftarrow> cmem w c;
          let n = size_add (bsize (cbuffer cn)) READ_CHUNK;
          let (ret, buf) = (if n > bcap (cbuffer cn) then resize_buffer os (cbuffer cn) n else (OK, cbuffer cn));
          if ret \<noteq> OK
          then do { w \<leftarrow> set_cstate w c CONNECTION_STATE_ERROR; close_connection os w c }
          else do {
            let w = set_conn w c (cn\<lparr>cbuffer := buf\<rparr>);
            (case os_recv os (calls w) of
               Recv_again \<Rightarrow>
                 do { cn \<leftarrow> cmem w c;
                      (ret, cn) \<leftarrow> parse_request cn;
                      let w = set_conn (sys_call w) c cn;
                      if ret = REQ_OK then dispatch os rts call w c
                      else if ret = REQ_ERR then close_connection os w c
                      else f os rts call w c }
             | Recv_error \<Rightarrow>
                 do { w \<leftarrow> set_cstate (sys_call w) c CONNECTION_STATE_ERROR; close_connection os w c }
             | Recv bs \<Rightarrow>
                 if bs = []
                 then do { w \<leftarrow> set_cstate (sys_call w) c CONNECTION_STATE_CLOSED; close_connection os w c }
                 else do {
                   d \<leftarrow> memcpy (mem_of (bdata buf)) (bsize buf) bs (length bs);
                   f os rts call
                     (set_conn (sys_call w) c
                        (cn\<lparr>cbuffer := buf\<lparr>bdata := Some d, bsize := size_add (bsize buf) (length bs)\<rparr>\<rparr>)) c }) } }
    = read_round (\<lambda>w. f os rts call w c) os rts call w c cn" (is "?body = _")
proof -
  obtain ret buf where g: "grown os (cbuffer cn) = (ret, buf)" by fastforce
  then have g': "(if size_add (bsize (cbuffer cn)) READ_CHUNK > bcap (cbuffer cn)
      then resize_buffer os (cbuffer cn) (size_add (bsize (cbuffer cn)) READ_CHUNK) else (OK, cbuffer cn)) = (ret, buf)"
    by (simp add: grown_def Let_def)
  show ?thesis
    unfolding read_round_def g cn Option.bind.bind_lunit Let_def g' prod.case
    by (cases "os_recv os (calls w)") (simp_all add: set_cstate_def cn cong: if_cong)
qed

lemma read_data_round:
  "cmem w c = Some cn \<Longrightarrow>
     read_data os rts call w c = read_round (\<lambda>w. read_data os rts call w c) os rts call w c cn"
  by (subst read_data.simps) (rule read_round_unfold)

text \<open>Induction over the rounds of a call that returns.\<close>

lemma read_data_induct:
  assumes r: "read_data os rts call w c = Some w'"
    and step: "\<And>f os rts call w c cn w'.
      (\<And>os rts call w c w'. f os rts call w c = Some w' \<Longrightarrow> P os rts call w c w') \<Longrightarrow> cmem w c = Some cn \<Longrightarrow>
      read_round (\<lambda>w. f os rts call w c) os rts call w c cn = Some w' \<Longrightarrow> P os rts call w c w'"
  shows "P os rts call w c w'"
proof (rule read_data.raw_induct [where P = P, OF _ r])
  fix f os rts call w c w'
  assume IH: "\<And>os rts call w c w'. f os rts call w c = Some w' \<Longrightarrow> P os rts call w c w'"
    and body: "do { cn \<leftarrow> cmem w c;
          let n = size_add (bsize (cbuffer cn)) READ_CHUNK;
          let (ret, buf) = (if n > bcap (cbuffer cn) then resize_buffer os (cbuffer cn) n else (OK, cbuffer cn));
          if ret \<noteq> OK
          then do { w \<leftarrow> set_cstate w c CONNECTION_STATE_ERROR; close_connection os w c }
          else do {
            let w = set_conn w c (cn\<lparr>cbuffer := buf\<rparr>);
            (case os_recv os (calls w) of
               Recv_again \<Rightarrow>
                 do { cn \<leftarrow> cmem w c;
                      (ret, cn) \<leftarrow> parse_request cn;
                      let w = set_conn (sys_call w) c cn;
                      if ret = REQ_OK then dispatch os rts call w c
                      else if ret = REQ_ERR then close_connection os w c
                      else f os rts call w c }
             | Recv_error \<Rightarrow>
                 do { w \<leftarrow> set_cstate (sys_call w) c CONNECTION_STATE_ERROR; close_connection os w c }
             | Recv bs \<Rightarrow>
                 if bs = []
                 then do { w \<leftarrow> set_cstate (sys_call w) c CONNECTION_STATE_CLOSED; close_connection os w c }
                 else do {
                   d \<leftarrow> memcpy (mem_of (bdata buf)) (bsize buf) bs (length bs);
                   f os rts call
                     (set_conn (sys_call w) c
                        (cn\<lparr>cbuffer := buf\<lparr>bdata := Some d, bsize := size_add (bsize buf) (length bs)\<rparr>\<rparr>)) c }) } }
        = Some w'"
  then obtain cn where cn: "cmem w c = Some cn" by (cases "cmem w c") auto
  have "read_round (\<lambda>w. f os rts call w c) os rts call w c cn = Some w'"
    using body unfolding read_round_unfold [OF cn] .
  with IH cn show "P os rts call w c w'" by (rule step)
qed

section \<open>Callbacks that settle\<close>

locale route_client =
  fixes call :: "env \<Rightarrow> 'c \<Rightarrow> addr \<Rightarrow> 'a worker_scheme \<Rightarrow> 'a worker_scheme option"
  assumes call_settles:
    "send_sane os \<Longrightarrow> handling w cs t c \<Longrightarrow> length cs \<le> 2 \<Longrightarrow> call os cb c w = Some w' \<Longrightarrow> settled w cs c w'"
begin

lemma dispatch_settles:
  assumes sane: "send_sane os" and h: "handling w cs t c" and few: "length cs \<le> 2"
    and d: "dispatch os rts (call os) w c = Some w'"
  shows "settled w cs c w'"
proof -
  obtain cn where cn: "cmem w c = Some cn" by (rule worker_ok_conn [OF handlingD(1,2) [OF h]])
  obtain r :: "'c route option" where r: "(case r of Some r \<Rightarrow> call os (rtcb r) c w | None \<Rightarrow> route_404 os w c) = Some w'"
    using d unfolding dispatch_def bind_eq_Some_conv by blast
  show ?thesis
  proof (cases r)
    case None
    then have s: "send_response os w c HTTP_STATUS_404 None 0 = Some w'" using r by (simp add: route_404_def)
    then have "rversion (req cn) \<noteq> HTTP_VERSION_UNKNOWN"
      using cn by (auto simp: send_response_def response_buffer_def table_str_def g_http_versions_def)
    then show ?thesis using send_response_settled [OF sane h few cn, of HTTP_STATUS_404 0 None] s by fastforce
  next
    case (Some a)
    then show ?thesis using r call_settles [OF sane h few] by simp
  qed
qed

lemma read_round_settles:
  assumes sane: "send_sane os" and rd: "ready w cs t" "c \<in> set cs" and few: "length cs \<le> 2"
    and cn: "cmem w c = Some cn" and r: "read_round again os rts (call os) w c cn = Some w'"
    and IH: "\<And>w1. ready w1 cs t \<Longrightarrow> again w1 = Some w' \<Longrightarrow> settled w1 cs c w'"
  shows "settled w cs c w'"
proof -
  obtain ret buf where g: "grown os (cbuffer cn) = (ret, buf)" by fastforce
  obtain cn0 where b: "buffer_ok (cbuffer cn)" "efd w c = fd_of w c" "write_bytes cn \<le> bsize (cbuffer cn)"
    by (rule ready_conn [OF rd]) (use cn in simp)
  note G = grown_ok [OF g b(1)]
  note h = ready_handling [OF rd]
  have close: "settled w cs c w'"
    if x: "cfd cn' = cfd cn" "buffer_ok (cbuffer cn')" "close_connection os w1 c = Some w'"
      "w1 = set_conn w c cn' \<or> w1 = set_conn (sys_call w) c cn'" for cn' w1
  proof -
    have to: "touched w c cn' w1" using x(4) by auto
    have h1: "handling w1 cs t c" by (rule touched_handling [OF h to cn x(1,2)])
    obtain w2 where "close_connection os w1 c = Some w2" "settled w1 cs c w2"
      by (rule close_settled [OF h1 worker_few_lone [OF handlingD(1) [OF h1] few]])
        (use touched_parts [OF to cn x(1)] b(2) in simp)
    then show ?thesis using x(3) settled_trans [OF touched_frame [OF to cn x(1)]] by simp
  qed
  have go: "settled w cs c w'"
    if x: "cfd cn' = cfd cn" "buffer_ok (cbuffer cn')" "cstate cn' = cstate cn" "write_bytes cn' = write_bytes cn"
      "bsize (cbuffer cn) \<le> bsize (cbuffer cn')" "again (set_conn (sys_call w) c cn') = Some w'" for cn'
  proof -
    have to: "touched w c cn' (set_conn (sys_call w) c cn')" by simp
    have "ready (set_conn (sys_call w) c cn') cs t"
      by (rule touched_ready [OF rd to cn]) (use x b(3) in simp_all)
    then show ?thesis using IH [OF _ x(6)] settled_trans [OF touched_frame [OF to cn x(1)]] by blast
  qed
  note R = r [unfolded read_round_def g Let_def prod.case]
  show ?thesis
  proof (cases "ret = OK")
    case False
    then have "close_connection os (set_conn w c (cn\<lparr>cstate := CONNECTION_STATE_ERROR\<rparr>)) c = Some w'"
      using R by simp
    then show ?thesis by (rule close [OF _ _ _ disjI1 [OF refl], rotated 2]) (use b(1) in simp_all)
  next
    case ok: True
    show ?thesis
    proof (cases "os_recv os (calls w)")
      case Recv_error
      then have "close_connection os (set_conn (sys_call w) c (cn\<lparr>cbuffer := buf, cstate := CONNECTION_STATE_ERROR\<rparr>)) c = Some w'"
        using R ok by simp
      then show ?thesis by (rule close [OF _ _ _ disjI2 [OF refl], rotated 2]) (use G in simp_all)
    next
      case (Recv bs)
      show ?thesis
      proof (cases "bs = []")
        case True
        then have "close_connection os (set_conn (sys_call w) c (cn\<lparr>cbuffer := buf, cstate := CONNECTION_STATE_CLOSED\<rparr>)) c = Some w'"
          using R ok Recv by simp
        then show ?thesis by (rule close [OF _ _ _ disjI2 [OF refl], rotated 2]) (use G in simp_all)
      next
        case False
        then obtain d where d: "memcpy (mem_of (bdata buf)) (bsize buf) bs (length bs) = Some d"
          "again (set_conn (sys_call w) c (cn\<lparr>cbuffer := buf\<lparr>bdata := Some d, bsize := size_add (bsize buf) (length bs)\<rparr>\<rparr>)) = Some w'"
          using R ok Recv by (auto simp: bind_eq_Some_conv)
        note C = store_chunk [OF G(1) d(1) False]
        show ?thesis by (rule go [OF _ _ _ _ _ d(2)]) (use C G in simp_all)
      qed
    next
      case Recv_again
      then obtain q cn' where q: "parse_request (cn\<lparr>cbuffer := buf\<rparr>) = Some (q, cn')"
        "(if q = REQ_OK then dispatch os rts (call os) (set_conn (sys_call w) c cn') c
          else if q = REQ_ERR then close_connection os (set_conn (sys_call w) c cn') c
          else again (set_conn (sys_call w) c cn')) = Some w'"
        using R ok by (auto simp: bind_eq_Some_conv)
      have f: "cfd cn' = cfd cn" "cbuffer cn' = buf" "cstate cn' = cstate cn" "write_bytes cn' = write_bytes cn"
        by (subst parse_request_frame [OF q(1)], simp)+
      have to: "touched w c cn' (set_conn (sys_call w) c cn')" by simp
      have hd: "handling (set_conn (sys_call w) c cn') cs t c"
        by (rule touched_handling [OF h to cn f(1)]) (use f G in simp)
      show ?thesis
      proof (cases "q = REQ_OK")
        case True
        then show ?thesis
          using q(2) dispatch_settles [OF sane hd few] settled_trans [OF touched_frame [OF to cn f(1)]] by simp
      next
        case no: False
        show ?thesis
        proof (cases "q = REQ_ERR")
          case True
          then show ?thesis using q(2) close [OF f(1) _ _ disjI2 [OF refl]] f(2) G(1) by simp
        next
          case False
          then show ?thesis using q(2) no go [of cn'] f G by simp
        qed
      qed
    qed
  qed
qed

lemma read_data_settles:
  assumes sane: "send_sane os" and rd: "ready w cs t" "c \<in> set cs" and few: "length cs \<le> 2"
    and r: "read_data os rts (call os) w c = Some w'"
  shows "settled w cs c w'"
proof -
  let ?P = "\<lambda>os' rts' call' w c' w'. os' = os \<longrightarrow> rts' = rts \<longrightarrow> call' = call os \<longrightarrow> c' = c \<longrightarrow> ready w cs t
    \<longrightarrow> settled w cs c w'"
  have "?P os rts (call os) w c w'"
  proof (rule read_data_induct [where P = ?P, OF r], intro impI)
    fix f os' rts' call' w c' cn w'
    assume IH: "\<And>os' rts' call' w c' w'. f os' rts' call' w c' = Some w' \<Longrightarrow> ?P os' rts' call' w c' w'"
      and cn: "cmem w c' = Some cn" and round: "read_round (\<lambda>w. f os' rts' call' w c') os' rts' call' w c' cn = Some w'"
      and eqs: "os' = os" "rts' = rts" "call' = call os" "c' = c" "ready w cs t"
    show "settled w cs c w'"
      by (rule read_round_settles [OF sane eqs(5) rd(2) few cn [unfolded eqs] round [unfolded eqs]])
        (use IH in blast)
  qed
  then show ?thesis using rd(1) by simp
qed

theorem io_callback_settles:
  assumes sane: "send_sane os" and rd: "ready w cs t" "c \<in> set cs" and few: "length cs \<le> 2"
    and r: "io_callback os rts (call os) ev c w = Some w'"
  shows "settled w cs c w'"
proof -
  obtain cn where cn: "cmem w c = Some cn" "cstate cn = CONNECTION_STATE_IN \<or> cstate cn = CONNECTION_STATE_OUT"
    "efd w c = fd_of w c"
    by (rule ready_conn [OF rd]) simp
  obtain w1 where w1: "close_connection os w c = Some w1" "settled w cs c w1"
    by (rule close_settled [OF ready_handling [OF rd] worker_few_lone [OF readyD(1) [OF rd(1)] few] cn(3)])
  obtain w2 where w2: "send_data os w c = Some w2" "settled w cs c w2"
    by (rule send_data_settled [OF sane rd few])
  show ?thesis
    using r cn(1,2) w1 w2 read_data_settles [OF sane rd few, of rts w']
    by (auto simp: io_callback_def split: if_splits)
qed

end

section \<open>Gathering a request\<close>

text \<open>What \<^verbatim>\<open>recv\<close> delivers from its \<open>n\<close>-th call on: the chunks, then nothing more for now.\<close>

fun delivers :: "env \<Rightarrow> nat \<Rightarrow> bytes list \<Rightarrow> bool" where
  "delivers os n [] = (os_recv os n = Recv_again)"
| "delivers os n (x # xs) = (os_recv os n = Recv x \<and> x \<noteq> [] \<and> length x \<le> READ_CHUNK \<and> delivers os (Suc n) xs)"

lemma read_data_gathers:
  assumes A: "alloc_ok os" and cn: "cmem w c = Some cn" "buffer_ok (cbuffer cn)"
    and d: "delivers os (calls w) xs" and room: "bsize (cbuffer cn) + length (concat xs) + READ_CHUNK < 2 ^ 64"
  shows "\<exists>b. buffer_ok b \<and> contents b = contents (cbuffer cn) @ concat xs \<and> bsize b + READ_CHUNK \<le> bcap b \<and>
    read_data os rts call w c =
      do { (r, cn') \<leftarrow> parse_request (cn\<lparr>cbuffer := b\<rparr>);
           let w' = set_conn (w\<lparr>calls := calls w + length xs + 1\<rparr>) c cn';
           if r = REQ_OK then dispatch os rts call w' c
           else if r = REQ_ERR then close_connection os w' c
           else read_data os rts call w' c }"
  using cn d room
proof (induction xs arbitrary: w cn)
  case Nil
  obtain ret b where g: "grown os (cbuffer cn) = (ret, b)" by fastforce
  note G = grown_ok [OF g Nil.prems(2)]
  have "sys_call w = w\<lparr>calls := calls w + length [] + 1\<rparr>" by (simp add: sys_call_def)
  then show ?case using Nil.prems G(1-4) G(5) [OF A] g
    by (intro exI [of _ b]) (simp add: read_data_round read_round_def Let_def)
next
  case (Cons x xs)
  obtain ret b where g: "grown os (cbuffer cn) = (ret, b)" by fastforce
  note G = grown_ok [OF g Cons.prems(2)]
  have x: "os_recv os (calls w) = Recv x" "x \<noteq> []" "length x \<le> READ_CHUNK" "delivers os (Suc (calls w)) xs"
    using Cons.prems(3) by auto
  have cap: "bsize b + READ_CHUNK \<le> length (mem_of (bdata b))"
    using G(4) G(5) [OF A] Cons.prems(4) G(3) buffer_ok_size [OF G(1)] by simp
  then have "bsize b + length x \<le> length (mem_of (bdata b))" using x(3) by simp
  then obtain d where d: "memcpy (mem_of (bdata b)) (bsize b) x (length x) = Some d" by (simp add: memcpy_def)
  note C = store_chunk [OF G(1) d x(2)]
  let ?b = "b\<lparr>bdata := Some d, bsize := size_add (bsize b) (length x)\<rparr>"
  let ?w = "set_conn (sys_call w) c (cn\<lparr>cbuffer := ?b\<rparr>)"
  have step: "read_data os rts call w c = read_data os rts call ?w c"
    using Cons.prems(1) x(1,2) G(5) [OF A] g d by (simp add: read_data_round read_round_def Let_def)
  have same: "set_conn (?w\<lparr>calls := calls ?w + length xs + 1\<rparr>) c n = set_conn (w\<lparr>calls := calls w + length (x # xs) + 1\<rparr>) c n" for n
    by (simp add: set_conn_def sys_call_def)
  show ?case
    using Cons.IH [of ?w "cn\<lparr>cbuffer := ?b\<rparr>"] C G x(4) Cons.prems(4) step unfolding same
    by (simp add: add.assoc)
qed

text \<open>
  Nothing more to read and the request incomplete: the loop calls \<^verbatim>\<open>recv\<close> again at once.
\<close>

lemma read_data_not_spinning:
  assumes A: "alloc_ok os" and dry: "\<forall>n\<ge>n0. os_recv os n = Recv_again" and n0: "n0 \<le> calls w"
    and r: "read_data os rts call w c = Some w'"
    and cn: "cmem w c = Some cn" "bsize (cbuffer cn) + READ_CHUNK \<le> bcap (cbuffer cn)"
      "bsize (cbuffer cn) + READ_CHUNK < 2 ^ 64"
  shows "parse_request cn \<noteq> Some (REQ_UF, cn)"
proof -
  let ?P = "\<lambda>os' rts' call' w c' w'. os' = os \<longrightarrow> n0 \<le> calls w \<longrightarrow> cmem w c' = Some cn \<longrightarrow> parse_request cn \<noteq> Some (REQ_UF, cn)"
  have g: "grown os (cbuffer cn) = (OK, cbuffer cn)" using cn(2,3) by (simp add: grown_def Let_def)
  have "?P os rts call w c w'"
  proof (rule read_data_induct [where P = ?P, OF r], intro impI notI)
    fix f os' rts' call' w c' cn' w'
    assume IH: "\<And>os' rts' call' w c' w'. f os' rts' call' w c' = Some w' \<Longrightarrow> ?P os' rts' call' w c' w'"
      and cn': "cmem w c' = Some cn'" and round: "read_round (\<lambda>w. f os' rts' call' w c') os' rts' call' w c' cn' = Some w'"
      and eqs: "os' = os" "n0 \<le> calls w" "cmem w c' = Some cn" and uf: "parse_request cn = Some (REQ_UF, cn)"
    have "cn' = cn" using cn' eqs(3) by simp
    then have "f os rts' call' (set_conn (sys_call w) c' cn) c' = Some w'"
      using round g dry uf eqs(1,2) by (simp add: read_round_def Let_def)
    then show False using IH uf eqs(2) by fastforce
  qed
  then show ?thesis using cn(1) n0 by simp
qed

end
