(* ===== verification/Cask_Expiry.thy ===== *)
theory Cask_Expiry
  imports Cask_Serve
begin

text \<open>
  Timeouts: the connections of a worker meet the contract \<open>timer_client\<close> of \<^verbatim>\<open>run_timers\<close>, so one pass
  over the timers closes exactly the connections whose deadline has come, and nothing else.
\<close>

section \<open>The connections as a client of the timers\<close>

definition conn_side :: "'a worker_scheme \<Rightarrow> addr list \<Rightarrow> bool" where
  "conn_side w cs \<longleftrightarrow>
     ring (wlinks w) (conns w) cs \<and> dom (cmem w) = set cs \<and> dom (get_timer w) = set cs
     \<and> (\<forall>c\<in>set cs. conn_sound w c \<and> conn_ready w c) \<and> inj_on (fd_of w) (set cs)"

lemma ready_side: "ready w cs t \<longleftrightarrow> conn_side w cs \<and> timers_ok w t \<and> set (inord t) = set cs"
  by (auto simp: ready_def conn_side_def worker_ok_def)

text \<open>Of the connections \<open>cs\<close> those in \<open>as\<close> are left; the events were \<open>ev\<close> and the other descriptors are \<open>ow\<close>.\<close>

definition expiry_inv ::
  "addr list \<Rightarrow> (addr \<rightharpoonup> event) \<Rightarrow> int set \<times> int \<times> int \<Rightarrow> addr list \<Rightarrow> 'a worker_scheme \<Rightarrow> bool" where
  "expiry_inv cs ev ow as w \<longleftrightarrow>
     set as \<subseteq> set cs \<and> conn_side w (filter (\<lambda>c. c \<in> set as) cs)
     \<and> num_conns w = of_nat (length (filter (\<lambda>c. c \<in> set as) cs)) \<and> own w (filter (\<lambda>c. c \<in> set as) cs) = ow
     \<and> (\<forall>c. evs w c = (if c \<in> set cs \<and> c \<notin> set as then None else ev c))"

lemma filter_remove1:
  "distinct cs \<Longrightarrow> a \<notin> set as \<Longrightarrow> filter (\<lambda>c. c \<in> set as) cs = remove1 a (filter (\<lambda>c. c \<in> set (a # as)) cs)"
  by (induction cs) (auto simp: remove1_idem intro!: filter_cong)

lemma conn_side_disarm:
  assumes s: "conn_side w cs" and g: "get_timer w a = Some tm"
    and w': "w' = w\<lparr>timers := timers w'\<rparr>" "get_timer w' = (get_timer w)(a \<mapsto> disarmed tm)"
  shows "conn_side w' cs"
proof -
  have f: "cmem w' = cmem w" "evs w' = evs w" "wlinks w' = wlinks w" "conns w' = conns w" "fds w' = fds w"
    "interest w' = interest w"
    by (subst w'(1), simp)+
  have "conn_sound w' c \<and> conn_ready w' c" if "c \<in> set cs" for c
    using s that g f w'(2) by (cases "c = a") (auto simp: conn_side_def conn_sound_def conn_ready_def)
  moreover have "fd_of w' = fd_of w" using f(1) by (auto simp: fd_of_def)
  moreover have "dom (get_timer w') = dom (get_timer w)" using w'(2) g by auto
  ultimately show ?thesis using s f by (simp add: conn_side_def)
qed

lemma num_conns_frame:
  assumes "w' = w\<lparr>timers := timers w'\<rparr>"
  shows "num_conns w' = num_conns w" "evs w' = evs w" "own w' cs = own w cs"
proof -
  have "fd_of w' = fd_of w" by (subst assms) (simp add: fd_of_def fun_eq_iff)
  moreover have "fds w' = fds w" "sock w' = sock w" "epollfd w' = epollfd w" by (subst assms, simp)+
  ultimately show "own w' cs = own w cs" by (simp add: own_def)
qed (subst assms, simp)+

lemma timeout_ok:
  assumes ok: "timers_ok w t" and inv: "expiry_inv cs ev ow (a # inord t) w"
    and g: "get_timer w a = Some tm" "\<not> active tm" and d: "distinct cs"
  obtains w' t' where "call_timer os (tcb tm) (tdata tm) w = Some w'" "timers_ok w' t'" "inord t' = inord t"
    "expiry_inv cs ev ow (inord t) w'" "\<forall>c\<in>set (inord t). get_timer w' c = get_timer w c"
proof -
  let ?cs = "filter (\<lambda>c. c \<in> set (a # inord t)) cs"
  have a: "a \<notin> set (inord t)" using ok g by (auto simp: timers_ok_def)
  have sub: "set (inord t) \<subseteq> set ?cs" "a \<in> set ?cs" using inv by (auto simp: expiry_inv_def)
  note S = inv [unfolded expiry_inv_def, THEN conjunct2, THEN conjunct1]
  have wok: "worker_ok w ?cs t" using S ok sub by (simp add: conn_side_def worker_ok_def)
  have cr: "conn_ready w c" if "c \<in> set ?cs" for c using S that unfolding conn_side_def by blast
  have tm: "tcb tm = timeout_cb" "tdata tm = a" "efd w a = fd_of w a"
    using cr [OF sub(2)] g(1) by (auto simp: conn_ready_def efd_def fd_of_def)
  obtain w' t' where r: "close_connection os w a = Some w'" "worker_ok w' (remove1 a ?cs) t'"
    "inord t' = remove1 a (inord t)" "closed_from w a w'"
    by (rule close_connection_ok [OF wok sub(2)]) (use a in simp)
  have cs': "filter (\<lambda>c. c \<in> set (inord t)) cs = remove1 a ?cs" by (rule filter_remove1 [OF d a])
  have it: "inord t' = inord t" using r(3) a by (simp add: remove1_idem)
  have "conn_ready w' c" if c: "c \<in> set (remove1 a ?cs)" for c
  proof -
    have ca: "c \<in> set ?cs" "c \<noteq> a" using c d by (auto simp: set_remove1_eq)
    have "fd_of w c \<noteq> fd_of w a" using worker_okD(9) [OF wok] ca sub(2) by (auto dest: inj_onD)
    then show ?thesis using r(4) ca tm(3)
      by (intro conn_ready_cong [OF cr [OF ca(1)]]) (auto simp: closed_from_def)
  qed
  then have "conn_side w' (remove1 a ?cs)" using r(2) by (auto simp: conn_side_def worker_ok_def)
  moreover have "num_conns w' = of_nat (length (remove1 a ?cs))"
    using r(4) inv num_conns_remove1 [OF sub(2)] by (simp add: closed_from_def expiry_inv_def)
  moreover have "own w' (remove1 a ?cs) = ow"
    using closed_own [OF r(4) sub(2)] d inv by (simp add: expiry_inv_def)
  moreover have "evs w' c = (if c \<in> set cs \<and> c \<notin> set (inord t) then None else ev c)" for c
    using r(4) inv a sub(2) unfolding closed_from_def expiry_inv_def by (cases "c = a") auto
  ultimately have inv': "expiry_inv cs ev ow (inord t) w'"
    unfolding expiry_inv_def cs' using inv by (simp add: expiry_inv_def)
  have "\<forall>c\<in>set (inord t). get_timer w' c = get_timer w c" using r(4) a by (auto simp: closed_from_def)
  then show thesis
    using that [of w' t'] r(1) tm(1,2) worker_okD(2) [OF r(2)] it inv'
    by (simp add: call_timer_def timeout_callback_def)
qed

text \<open>The invariant is only about lists without repetition.\<close>

interpretation expire: timer_client "call_timer os" "\<lambda>as w. distinct cs \<and> expiry_inv cs ev ow as w" for os cs ev ow
proof
  fix w :: "'a worker_scheme" and t a tm
  assume "timers_ok w t" "distinct cs \<and> expiry_inv cs ev ow (a # inord t) w" "get_timer w a = Some tm" "\<not> active tm"
  then show "\<exists>w' t'. call_timer os (tcb tm) (tdata tm) w = Some w' \<and> timers_ok w' t' \<and> inord t' = inord t
      \<and> (distinct cs \<and> expiry_inv cs ev ow (inord t) w') \<and> (\<forall>c\<in>set (inord t). get_timer w' c = get_timer w c)"
    using timeout_ok [of w t cs ev ow a tm os] by metis
next
  fix as and w :: "'a worker_scheme" and a tm
  assume "distinct cs \<and> expiry_inv cs ev ow as w" "a \<in> set as" "get_timer w a = Some tm"
  then show "oneshot tm \<and> tcb tm \<noteq> NULL"
    by (fastforce simp: expiry_inv_def conn_side_def conn_ready_def timeout_cb_def)
next
  fix as and w w' :: "'a worker_scheme" and a tm
  assume "distinct cs \<and> expiry_inv cs ev ow as w" "get_timer w a = Some tm"
    "get_timer w' = (get_timer w)(a \<mapsto> disarmed tm)" "w' = w\<lparr>timers := timers w'\<rparr>"
  then show "distinct cs \<and> expiry_inv cs ev ow as w'"
    using conn_side_disarm [of w _ a tm w'] num_conns_frame [of w' w] by (simp add: expiry_inv_def)
qed

section \<open>One pass over the timers\<close>

lemma dropWhile_sorted:
  "sorted (map f xs) \<Longrightarrow> dropWhile (\<lambda>a. f a \<le> (n::'b::linorder)) xs = filter (\<lambda>a. n < f a) xs"
proof (induction xs)
  case (Cons x xs)
  show ?case
  proof (cases "f x \<le> n")
    case False
    then have "\<forall>y\<in>set xs. n < f y" using Cons.prems by fastforce
    then show ?thesis using False by (simp add: not_le)
  qed (use Cons in simp)
qed simp

lemma run_timers_expires:
  assumes s: "serving w cs t"
  obtains w' t' where "run_timers (call_timer os) w = Some w'"
    "serving w' (filter (\<lambda>c. now_of w < trig w c) cs) t'"
    "inord t' = filter (\<lambda>c. now_of w < trig w c) (inord t)"
    "\<forall>c. evs w' c = (if c \<in> set cs \<and> trig w c \<le> now_of w then None else evs w c)"
    "own w' (filter (\<lambda>c. now_of w < trig w c) cs) = own w cs"
proof -
  let ?w = "w\<lparr>ticks := Suc (ticks w)\<rparr>"
  have rd: "ready w cs t" "num_conns w = of_nat (length cs)" using s by (auto simp: serving_def)
  have set: "set (inord t) = set cs" by (rule readyD(2) [OF rd(1)])
  have D: "distinct cs" by (rule worker_okD(6) [OF readyD(1) [OF rd(1)]])
  have f: "filter (\<lambda>c. c \<in> set (inord t)) cs = cs" using set by simp
  have e: "get_timer ?w = get_timer w" "fd_of ?w = fd_of w" by (auto simp: get_timer_def fd_of_def)
  have side: "conn_side ?w cs"
    using rd(1) e by (simp add: ready_side conn_side_def conn_sound_def conn_ready_def)
  have ok: "timers_ok ?w t" using worker_okD(2) [OF readyD(1) [OF rd(1)]] by (simp add: timers_ok_def get_timer_def)
  have ow: "own ?w cs = own w cs" using e(2) by (simp add: own_def)
  have inv: "distinct cs \<and> expiry_inv cs (evs w) (own w cs) (inord t) ?w"
    using D side rd(2) set f ow by (simp add: expiry_inv_def)
  obtain w' t' where r: "run_timers_loop (call_timer os) (now_of w) ?w = Some w'"
    "timers_ok w' t'" "inord t' = dropWhile (\<lambda>a. trig ?w a \<le> now_of w) (inord t)"
    "expiry_inv cs (evs w) (own w cs) (inord t') w'"
    using expire.run_timers_loop_fires [OF ok inv] by blast
  have "sorted (map (trig w) (inord t))"
    using timers_okD(1) [OF worker_okD(2) [OF readyD(1) [OF rd(1)]]] by (simp add: tim.ordered_def)
  then have it: "inord t' = filter (\<lambda>c. now_of w < trig w c) (inord t)"
    using r(3) dropWhile_sorted [of "trig w" "inord t" "now_of w"] by simp
  have cs': "filter (\<lambda>c. c \<in> set (inord t')) cs = filter (\<lambda>c. now_of w < trig w c) cs"
    using it set by (auto intro: filter_cong)
  have "serving w' (filter (\<lambda>c. now_of w < trig w c) cs) t'"
    using r(2,4) it set unfolding serving_def ready_side expiry_inv_def cs' by auto
  moreover have "evs w' c = (if c \<in> set cs \<and> trig w c \<le> now_of w then None else evs w c)" for c
    using r(4) it set by (auto simp: expiry_inv_def not_le)
  moreover have "own w' (filter (\<lambda>c. now_of w < trig w c) cs) = own w cs"
    using r(4) unfolding expiry_inv_def cs' by simp
  ultimately show thesis using that r(1) it by (simp add: run_timers_def get_time_def now_of_def)
qed

end
