(* ===== verification/Cask_Loop.thy ===== *)
theory Cask_Loop
  imports Cask_Receive Cask_Expiry
begin

text \<open>
  Accepting connections, and the event loop of a worker as a whole: the state between two callbacks
  is an invariant of \<^verbatim>\<open>event_base_iter\<close> as long as the worker has at most two connections, the most for
  which no timer node has two children.
\<close>

section \<open>Accepting\<close>

text \<open>What a worker may rely on when it accepts: the descriptor and the object are new.\<close>

definition fresh_conn_at :: "'a worker_scheme \<Rightarrow> addr list \<Rightarrow> addr \<Rightarrow> bool" where
  "fresh_conn_at w cs c \<longleftrightarrow> c \<noteq> RBNIL \<and> c \<notin> set cs \<and> c \<noteq> conns w"

definition accept_sane :: "env \<Rightarrow> 'a worker_scheme \<Rightarrow> addr list \<Rightarrow> bool" where
  "accept_sane os w cs \<longleftrightarrow> os_accept os (calls w) \<notin> fds w
     \<and> (os_calloc os (calls w + 2) \<noteq> NULL \<longrightarrow> fresh_conn_at w cs (os_calloc os (calls w + 2)))"

text \<open>A descriptor that is opened and closed again.\<close>

lemma ready_fd_gone:
  assumes r: "ready w cs t" and fd: "fd \<notin> fds w"
    and w': "cmem w' = cmem w" "timers w' = timers w" "evs w' = evs w" "wlinks w' = wlinks w" "conns w' = conns w"
      "fds w' = fds w" "\<forall>f. f \<noteq> fd \<longrightarrow> interest w' f = interest w f"
  shows "ready w' cs t"
proof -
  have g: "get_timer w' = get_timer w" "timers_ok w' t = timers_ok w t" "fd_of w' = fd_of w"
    using w'(1) get_timer_cong [OF w'(2)] timers_ok_cong [OF w'(2)] by (simp_all add: fd_of_def fun_eq_iff)
  have wok: "worker_ok w' cs t"
    using readyD(1) [OF r] w' g by (simp add: worker_ok_def conn_sound_def)
  have "conn_ready w' c" if c: "c \<in> set cs" for c
  proof -
    obtain cn where "cmem w c = Some cn" "cfd cn \<in> fds w" by (rule worker_ok_conn [OF readyD(1) [OF r] c])
    then have "fd_of w c \<noteq> fd" using fd by (auto simp: fd_of_def)
    then show ?thesis using w' g by (intro conn_ready_cong [OF readyD(3) [OF r c]]) auto
  qed
  then show ?thesis using wok readyD(2) [OF r] by (simp add: ready_def)
qed

lemma calloc_conn_conns: "conns (calloc_conn w c fd buf) = conns w"
  by (simp add: calloc_conn_def)

lemma calloc_conn_handling:
  assumes r: "ready w cs t" and c: "c \<noteq> NULL" "fresh_conn_at w cs c" and fd: "fd \<notin> fds w" and b: "buffer_ok buf"
  obtains l where
    "list_add_tail (wlinks (calloc_conn (w\<lparr>fds := insert fd (fds w)\<rparr>) c fd buf)) (conns w) c = Some l"
    "handling ((calloc_conn (w\<lparr>fds := insert fd (fds w)\<rparr>) c fd buf)\<lparr>wlinks := l\<rparr>) (cs @ [c]) t c"
proof -
  note D = worker_okD [OF readyD(1) [OF r]]
  let ?w = "calloc_conn (w\<lparr>fds := insert fd (fds w)\<rparr>) c fd buf"
  let ?cn = "\<lparr>cbuffer = buf, cflags = 0, req = request0, cfd = fd, cstate = CONNECTION_STATE_IN, write_bytes = 0\<rparr>"
  have c': "c \<notin> set cs" "c \<noteq> RBNIL" "c \<noteq> conns w" "c \<notin> set (inord t)"
    using c(2) readyD(2) [OF r] by (auto simp: fresh_conn_at_def)
  have p: "cmem ?w = (cmem w)(c \<mapsto> ?cn)" "evs ?w = (evs w)(c \<mapsto> make_event 0 0 NULL NULL)"
    "wlinks ?w = (wlinks w)(c \<mapsto> \<lparr>prev = NULL, nxt = NULL\<rparr>)" "conns ?w = conns w" "fds ?w = insert fd (fds w)"
    "interest ?w = interest w" "get_timer ?w = (get_timer w)(c \<mapsto> make_timer 0 0 NULL NULL)"
    by (simp_all add: calloc_conn_def get_timer_def assign_timer_def fun_eq_iff)
  have "ring (wlinks ?w) (conns w) cs"
    by (rule ring_frame [OF D(1)]) (use c' p(3) in \<open>auto simp: get_next_def get_prev_def\<close>)
  then obtain l where l: "list_add_tail (wlinks ?w) (conns w) c = Some l" "ring l (conns w) (cs @ [c])"
    by (rule ring_add_tail [of _ _ _ c]) (use c' c(1) p(3) in auto)
  let ?w' = "?w\<lparr>wlinks := l\<rparr>"
  have q: "get_timer ?w' = get_timer ?w" "timers ?w' = timers ?w" "fd_of ?w' = (fd_of w)(c := fd)"
    using p(1) by (auto simp: get_timer_def fd_of_def)
  have na: "\<not> active (make_timer 0 0 NULL NULL)"
    by (simp add: active_def make_timer_def has_flag_def)
  have "timers_ok ?w t"
    unfolding calloc_conn_def
    by (rule timers_ok_assign [OF _ c'(4) c(1) c'(2) na])
      (use D(2) timers_ok_cong in \<open>simp add: timers_ok_def get_timer_def\<close>)
  then have tok: "timers_ok ?w' t" using timers_ok_cong [OF q(2)] by blast
  have old: "conn_ready ?w' d \<and> conn_sound ?w' d" if d: "d \<in> set cs" for d
  proof -
    obtain dn ev tm where x: "cmem w d = Some dn" "evs w d = Some ev" "get_timer w d = Some tm"
      "buffer_ok (cbuffer dn)" "cfd dn \<in> fds w"
      by (rule worker_ok_conn [OF readyD(1) [OF r] d])
    have "conn_ready ?w' d"
      by (rule conn_ready_cong [OF readyD(3) [OF r d]]) (use p q d c' in auto)
    then show ?thesis using x p q d c' by (auto simp: conn_sound_def)
  qed
  have new: "conn_sound ?w' c" using p q b by (simp add: conn_sound_def)
  have "fd \<notin> fd_of w ` set cs" using fd readyD(1) [OF r] by (auto simp: fd_of_def worker_ok_def conn_sound_def)
  then have "inj_on (fd_of ?w') (set (cs @ [c]))" using D(9) c'(1) q(3) by (auto simp: inj_on_def)
  then have "worker_ok ?w' (cs @ [c]) t"
    unfolding worker_ok_def using l(2) tok D(3,4,5) old new p q by auto
  moreover have "\<not> registered ?w' c" using p(2) by (simp add: registered_def make_event_def has_flag_def)
  ultimately have "handling ?w' (cs @ [c]) t c"
    unfolding handling_def using readyD(2) [OF r] old c' by auto
  then show thesis using that l(1) by blast
qed

lemma calloc_conn_own:
  assumes "c \<notin> set cs" "fd \<notin> fds w"
  shows "own ((calloc_conn (w\<lparr>fds := insert fd (fds w)\<rparr>) c fd buf)\<lparr>wlinks := l\<rparr>) (cs @ [c]) = own w cs"
  using assms by (auto simp: own_def calloc_conn_def fd_of_def)

lemma create_buffer_ok: "create_buffer A = Some b \<Longrightarrow> buffer_ok b"
  by (auto simp: create_buffer_def buffer_ok_def split: if_splits)

theorem on_accept_ok:
  assumes s: "serving w cs t" and few: "length cs \<le> 1" and sane: "accept_sane os w cs"
  obtains w' cs' t' where "on_accept os ev w = Some w'" "serving w' cs' t'"
    "cs' = cs \<or> cs' = cs @ [os_calloc os (calls w + 2)]" "conns w' = conns w"
    "\<forall>d. d \<noteq> os_calloc os (calls w + 2) \<longrightarrow> evs w' d = evs w d"
    "cs' = cs \<longrightarrow> evs w (os_calloc os (calls w + 2)) = None \<longrightarrow> evs w' (os_calloc os (calls w + 2)) = None"
    "own w' cs' = own w cs"
proof -
  have rd: "ready w cs t" and num: "num_conns w = of_nat (length cs)" using s by (auto simp: serving_def)
  let ?fd = "os_accept os (calls w)" and ?c = "os_calloc os (calls w + 2)"
  have fd: "?fd \<notin> fds w" using sane by (simp add: accept_sane_def)
  show thesis
  proof (cases "\<exists>w'. on_accept os ev w = Some w' \<and> ready w' cs t \<and> num_conns w' = num_conns w \<and> evs w' = evs w \<and> conns w' = conns w
      \<and> own w' cs = own w cs")
    case True
    then show thesis using that num by (auto simp: serving_def)
  next
    case False
    have dropped: "ready w' cs t" if "w' = (close_fd (w\<lparr>fds := insert ?fd (fds w), calls := n\<rparr>) ?fd)" for w' n
      by (rule ready_fd_gone [OF rd fd]) (use that fd in \<open>auto simp: close_fd_def\<close>)
    have same: "ready (w\<lparr>calls := n\<rparr>) cs t" for n
      by (rule ready_fd_gone [OF rd fd]) simp_all
    have ow: "own (w\<lparr>calls := n\<rparr>) cs = own w cs" "own (close_fd (w\<lparr>fds := insert ?fd (fds w), calls := n\<rparr>) ?fd) cs = own w cs" for n
      using fd by (auto simp: own_def fd_of_def close_fd_def)
    have go: "has_flag ev EPOLLIN" "0 \<le> ?fd" "0 \<le> os_fcntl os (Suc (calls w))" "?c \<noteq> NULL" "create_buffer os \<noteq> None"
      using False rd ow same [of "Suc (calls w)"] dropped [OF refl, of "Suc (Suc (calls w))"]
        dropped [OF refl, of "Suc (Suc (Suc (calls w)))"]
      by (auto simp: on_accept_def accept_connection_def sys_call_def Let_def close_fd_def split: if_splits option.splits)
    then obtain buf where buf: "create_buffer os = Some buf" by blast
    let ?w0 = "w\<lparr>calls := calls w + 3\<rparr>"
    have fr: "fresh_conn_at ?w0 cs ?c" using sane go(4) by (simp add: accept_sane_def fresh_conn_at_def)
    obtain l where l: "list_add_tail (wlinks (calloc_conn (?w0\<lparr>fds := insert ?fd (fds ?w0)\<rparr>) ?c ?fd buf)) (conns ?w0) ?c = Some l"
      "handling ((calloc_conn (?w0\<lparr>fds := insert ?fd (fds ?w0)\<rparr>) ?c ?fd buf)\<lparr>wlinks := l\<rparr>) (cs @ [?c]) t ?c"
      by (rule calloc_conn_handling [OF same go(4) fr _ create_buffer_ok [OF buf]]) (use fd in simp)
    let ?w1 = "(calloc_conn (?w0\<lparr>fds := insert ?fd (fds ?w0)\<rparr>) ?c ?fd buf)\<lparr>wlinks := l\<rparr>"
    have few2: "length (cs @ [?c]) \<le> 2" using few by simp
    obtain w2 where w2: "begin_read os ?w1 ?c = Some w2" "settled ?w1 (cs @ [?c]) ?c w2"
      by (rule begin_read_settled [OF l(2) few2])
    have w1: "num_conns ?w1 = num_conns w" "conns ?w1 = conns w" "\<forall>d. d \<noteq> ?c \<longrightarrow> evs ?w1 d = evs w d"
      by (simp_all add: calloc_conn_def)
    have ow1: "own ?w1 (cs @ [?c]) = own w cs"
      using calloc_conn_own [of ?c cs ?fd ?w0] fr fd by (simp add: fresh_conn_at_def own_def fd_of_def)
    let ?w3 = "w2\<lparr>num_conns := num_conns w2 + 1\<rparr>"
    have e1: "sys_call (sys_call ((sys_call w)\<lparr>fds := insert ?fd (fds w)\<rparr>)) = ?w0\<lparr>fds := insert ?fd (fds ?w0)\<rparr>"
      by (simp add: sys_call_def)
    have eq: "on_accept os ev w = Some ?w3"
      using go buf l(1) w2(1) unfolding on_accept_def accept_connection_def Let_def
      by (simp add: e1 calloc_conn_conns)
    have rdy: "ready ?w3 cs' t' = ready w2 cs' t'" for cs' t'
      by (simp add: ready_def worker_ok_def conn_sound_def conn_ready_def fd_of_def [abs_def] timers_ok_def get_timer_def [abs_def])
    have rm: "remove1 ?c (cs @ [?c]) = cs" using fr by (simp add: remove1_append fresh_conn_at_def)
    have ow3: "own ?w3 cs' = own w2 cs'" for cs' by (simp add: own_def fd_of_def)
    obtain t' where "ready w2 (cs @ [?c]) t' \<and> num_conns w2 = num_conns w \<and> own w2 (cs @ [?c]) = own w cs
        \<or> ready w2 cs t' \<and> num_conns w2 = num_conns w - 1 \<and> evs w2 ?c = None \<and> own w2 cs = own w cs"
      using w2(2) w1(1) ow1 unfolding settled_def rm by auto
    then have "serving ?w3 (cs @ [?c]) t' \<and> own ?w3 (cs @ [?c]) = own w cs
        \<or> serving ?w3 cs t' \<and> evs w2 ?c = None \<and> own ?w3 cs = own w cs"
      unfolding serving_def rdy ow3 using num by auto
    then obtain cs' t' where s3: "serving ?w3 cs' t'" "cs' = cs \<and> evs w2 ?c = None \<or> cs' = cs @ [?c]"
      "own ?w3 cs' = own w cs" by blast
    show thesis
      by (rule that [OF eq s3(1)]) (use s3(2,3) w2(2) w1 in \<open>auto simp: settled_def\<close>)
  qed
qed

text \<open>With a kernel that refuses nothing the connection is in the list, however many there are already.\<close>

lemma on_accept_accepts:
  assumes s: "serving w cs t" and sane: "accept_sane os w cs"
    and ok: "has_flag ev EPOLLIN" "0 \<le> os_accept os (calls w)" "0 \<le> os_fcntl os (calls w + 1)"
      "os_calloc os (calls w + 2) \<noteq> NULL" "\<not> alloc_fails os 24" "\<forall>n. os_ctl os n = 0"
  defines "fd \<equiv> os_accept os (calls w)" and "c \<equiv> os_calloc os (calls w + 2)"
  obtains w' t' where "on_accept os ev w = Some w'" "serving w' (cs @ [c]) t'"
    "cmem w' = (cmem w)(c \<mapsto> \<lparr>cbuffer = \<lparr>bsize = 0, bcap = 0, bdata = None\<rparr>, cflags = 0, req = request0, cfd = fd,
       cstate = CONNECTION_STATE_IN, write_bytes = 0\<rparr>)"
    "get_timer w' = (get_timer w)(c \<mapsto> armed (now_of w) (conn_timer c))" "fds w' = insert fd (fds w)" "outbox w' = outbox w"
    "worker.more w' = worker.more w" "conns w' = conns w"
proof -
  have rd: "ready w cs t" and num: "num_conns w = of_nat (length cs)" using s by (auto simp: serving_def)
  let ?b = "\<lparr>bsize = 0, bcap = 0, bdata = None\<rparr>"
  have buf: "create_buffer os = Some ?b" "buffer_ok ?b" using ok(5) by (simp_all add: create_buffer_def buffer_ok_def)
  have fr: "fd \<notin> fds w" "fresh_conn_at w cs c" using sane ok(4) by (simp_all add: accept_sane_def fd_def c_def)
  let ?w0 = "w\<lparr>calls := calls w + 3\<rparr>"
  have rd0: "ready ?w0 cs t" by (rule ready_fd_gone [OF rd fr(1)]) simp_all
  have fr0: "fresh_conn_at ?w0 cs c" using fr(2) by (simp add: fresh_conn_at_def)
  let ?w1 = "calloc_conn (?w0\<lparr>fds := insert fd (fds ?w0)\<rparr>) c fd ?b"
  obtain l where l: "list_add_tail (wlinks ?w1) (conns ?w0) c = Some l" "handling (?w1\<lparr>wlinks := l\<rparr>) (cs @ [c]) t c"
    by (rule calloc_conn_handling [OF rd0 _ fr0 _ buf(2)]) (use ok(4) fr(1) in \<open>simp_all add: c_def\<close>)
  let ?w2 = "?w1\<lparr>wlinks := l\<rparr>"
  let ?cn = "\<lparr>cbuffer = ?b, cflags = 0, req = request0, cfd = fd, cstate = CONNECTION_STATE_IN, write_bytes = 0\<rparr>"
  have w2: "cmem ?w2 = (cmem w)(c \<mapsto> ?cn)" "get_timer ?w2 = (get_timer w)(c \<mapsto> make_timer 0 0 NULL NULL)"
    "fds ?w2 = insert fd (fds w)" "outbox ?w2 = outbox w" "worker.more ?w2 = worker.more w" "num_conns ?w2 = num_conns w"
    "clock ?w2 = clock w" "ticks ?w2 = ticks w" "conns ?w2 = conns w"
    by (simp_all add: calloc_conn_def get_timer_def assign_timer_def fun_eq_iff)
  have lo: "lone ?w2 t c" using fr(2) readyD(2) [OF rd] by (simp add: lone_def fresh_conn_at_def)
  have cm: "cmem ?w2 c = Some ?cn" using w2(1) by simp
  let ?in = "\<lambda>cn. cn\<lparr>cbuffer := clear_buffer (cbuffer cn), cstate := CONNECTION_STATE_IN\<rparr>"
  obtain w3 t3 where w3: "begin_read os ?w2 c = Some w3" "ready w3 (cs @ [c]) t3"
    "waiting_from ?w2 c ?cn (mask_of CONNECTION_STATE_IN) True w3"
    unfolding begin_read_rearm
    by (rule rearm_handling [OF l(2) lo cm, of ?in CONNECTION_STATE_IN os Some])
      (use ok(6) buf(2) in \<open>auto simp: clear_buffer_def\<close>)
  note W = w3(3) [unfolded waiting_from_def]
  let ?w4 = "w3\<lparr>num_conns := num_conns w3 + 1\<rparr>"
  have e1: "sys_call (sys_call ((sys_call w)\<lparr>fds := insert fd (fds w)\<rparr>)) = ?w0\<lparr>fds := insert fd (fds ?w0)\<rparr>"
    by (simp add: sys_call_def)
  have c2: "os_calloc os (Suc (Suc (calls w))) = c" "os_accept os (calls w) = fd" by (simp_all add: c_def fd_def)
  have eq: "on_accept os ev w = Some ?w4"
    using ok buf(1) l(1) w3(1) unfolding on_accept_def accept_connection_def Let_def
    by (simp add: e1 calloc_conn_conns c2)
  have rdy: "ready ?w4 (cs @ [c]) t3"
    using w3(2) by (simp add: ready_def worker_ok_def conn_sound_def conn_ready_def fd_of_def [abs_def] timers_ok_def get_timer_def [abs_def])
  have nw: "now_of ?w2 = now_of w" using w2(7,8) by (simp add: now_of_def)
  have "serving ?w4 (cs @ [c]) t3" using rdy W w2(6) num by (simp add: serving_def)
  moreover have "get_timer ?w4 = get_timer w3" by (rule get_timer_cong) simp
  ultimately show thesis using that [OF eq] W w2 nw by simp
qed

section \<open>The invariant of the event loop\<close>

text \<open>
  A worker at address \<open>wa\<close> between two callbacks: at most two connections, the registered objects are
  its listening event and the events of its connections, and its descriptors are those of its
  connections, its socket and its epoll instance.
\<close>

definition worker_inv :: "addr \<Rightarrow> 'a worker_scheme \<Rightarrow> bool" where
  "worker_inv wa w \<longleftrightarrow>
     (\<exists>cs t e. serving w cs t \<and> length cs \<le> 2 \<and> evs w wa = Some e \<and> ecb e = accept_cb
        \<and> dom (evs w) = insert wa (set cs) \<and> wa \<notin> set cs
        \<and> fds w - fd_of w ` set cs = {sock w, epollfd w})"

text \<open>What the kernel and the allocator promise before an \<^verbatim>\<open>accept\<close>, and the bound on the connections.\<close>

definition may_accept :: "env \<Rightarrow> addr \<Rightarrow> 'a worker_scheme \<Rightarrow> bool" where
  "may_accept os wa w \<longleftrightarrow>
     (let c = os_calloc os (calls w + 2) in
      os_accept os (calls w) \<notin> fds w \<and> card (dom (cmem w)) \<le> 1
      \<and> c \<noteq> RBNIL \<and> cmem w c = None \<and> c \<noteq> conns w \<and> c \<noteq> wa)"

text \<open>One event of a batch, and what a batch has to meet: \<open>may_accept\<close> whenever the listening event comes up.\<close>

definition one_event ::
  "(addr \<Rightarrow> int \<Rightarrow> u32 \<Rightarrow> addr \<Rightarrow> 'a worker_scheme \<Rightarrow> 'a worker_scheme option)
     \<Rightarrow> u32 \<times> addr \<Rightarrow> 'a worker_scheme \<Rightarrow> 'a worker_scheme option" where
  "one_event call x w = do { ev \<leftarrow> evs w (snd x);
     if ecb ev = NULL then None else call (ecb ev) (evfd ev) (fst x) (edata ev) w }"

fun batch_ok ::
  "env \<Rightarrow> addr \<Rightarrow> (addr \<Rightarrow> int \<Rightarrow> u32 \<Rightarrow> addr \<Rightarrow> 'a worker_scheme \<Rightarrow> 'a worker_scheme option)
     \<Rightarrow> (u32 \<times> addr) list \<Rightarrow> 'a worker_scheme \<Rightarrow> bool" where
  "batch_ok os wa call [] w = True"
| "batch_ok os wa call (x # xs) w =
     ((snd x = wa \<longrightarrow> may_accept os wa w)
      \<and> (case one_event call x w of None \<Rightarrow> True | Some w' \<Rightarrow> batch_ok os wa call xs w'))"

lemma run_events_one:
  "i < length es \<Longrightarrow>
     run_events call es i (Suc k) w = do { w \<leftarrow> one_event call (es ! i) w; run_events call es (Suc i) k w }"
  by (cases "es ! i"; cases "evs w (snd (es ! i))") (simp_all add: one_event_def)

lemma own_same:
  "own w' cs' = own w cs \<Longrightarrow> fds w - fd_of w ` set cs = {sock w, epollfd w} \<Longrightarrow>
     fds w' - fd_of w' ` set cs' = {sock w', epollfd w'}"
  by (simp add: own_def)

lemma own_ends: "own w' cs' = own w cs \<Longrightarrow> sock w' = sock w \<and> epollfd w' = epollfd w"
  by (simp add: own_def)

lemma worker_inv_serving:
  assumes "serving w' cs' t'" "length cs' \<le> 2" "wa \<notin> set cs'" "evs w' wa = Some e" "ecb e = accept_cb"
    "\<forall>d. d \<noteq> wa \<longrightarrow> d \<notin> set cs' \<longrightarrow> evs w' d = None" "fds w' - fd_of w' ` set cs' = {sock w', epollfd w'}"
  shows "worker_inv wa w'"
proof -
  have "evs w' c \<noteq> None" if "c \<in> set cs'" for c
    using assms(1) that by (auto simp: serving_def ready_def conn_ready_def)
  then have "dom (evs w') = insert wa (set cs')" using assms(4,6) by auto
  then show ?thesis using assms unfolding worker_inv_def by blast
qed

lemma run_timers_keeps:
  assumes inv: "worker_inv wa w"
  obtains w' where "run_timers (call_timer os) w = Some w'" "worker_inv wa w'" "sock w' = sock w \<and> epollfd w' = epollfd w"
proof -
  obtain cs t e where I: "serving w cs t" "length cs \<le> 2" "evs w wa = Some e" "ecb e = accept_cb"
    "dom (evs w) = insert wa (set cs)" "wa \<notin> set cs" "fds w - fd_of w ` set cs = {sock w, epollfd w}"
    using inv unfolding worker_inv_def by blast
  let ?cs = "filter (\<lambda>c. now_of w < trig w c) cs"
  obtain w' t' where r: "run_timers (call_timer os) w = Some w'" "serving w' ?cs t'"
    "\<forall>c. evs w' c = (if c \<in> set cs \<and> trig w c \<le> now_of w then None else evs w c)" "own w' ?cs = own w cs"
    by (rule run_timers_expires [OF I(1)])
  have none: "evs w d = None" if "d \<noteq> wa" "d \<notin> set cs" for d using I(5) that by (metis domIff insertE)
  have "worker_inv wa w'"
  proof (rule worker_inv_serving [OF r(2)])
    show "length ?cs \<le> 2" using I(2) length_filter_le [of "\<lambda>c. now_of w < trig w c" cs] by linarith
    show "evs w' wa = Some e" using r(3) I(3,6) by auto
    show "\<forall>d. d \<noteq> wa \<longrightarrow> d \<notin> set ?cs \<longrightarrow> evs w' d = None" using r(3) none by (auto simp: not_less)
  qed (use I(4,6) own_same [OF r(4) I(7)] in auto)
  then show thesis using that r(1) own_ends [OF r(4)] by blast
qed

lemma run_io_ok: "run_io call epoll w n = Some (r, w') \<Longrightarrow> r = OK"
  by (auto simp: run_io_def Let_def bind_eq_Some_conv split: prod.splits if_splits)

text \<open>What \<^verbatim>\<open>epoll_wait\<close> has to return in an iteration.\<close>

definition iter_ok ::
  "env \<Rightarrow> addr \<Rightarrow> (addr \<Rightarrow> int \<Rightarrow> u32 \<Rightarrow> addr \<Rightarrow> 'a worker_scheme \<Rightarrow> 'a worker_scheme option)
     \<Rightarrow> (int \<Rightarrow> nat \<Rightarrow> int \<Rightarrow> 'a worker_scheme \<Rightarrow> int \<times> (u32 \<times> addr) list) \<Rightarrow> 'a worker_scheme \<Rightarrow> bool" where
  "iter_ok os wa call epoll_wait w \<longleftrightarrow>
     (case run_timers (call_timer os) w of None \<Rightarrow> True
      | Some w1 \<Rightarrow> (let (n, es) = epoll_wait (epollfd w1) MAX_IO_EVENTS IO_TIMEOUT w1 in
           nat n \<le> length es \<and> batch_ok os wa call es w1))"

context route_client
begin

lemma one_event_keeps:
  assumes inv: "worker_inv wa w" and sane: "send_sane os" and acc: "snd x = wa \<Longrightarrow> may_accept os wa w"
    and r: "one_event (call_event os rts (call os)) x w = Some w'"
  shows "worker_inv wa w' \<and> sock w' = sock w \<and> epollfd w' = epollfd w"
proof -
  obtain cs t e where I: "serving w cs t" "length cs \<le> 2" "evs w wa = Some e" "ecb e = accept_cb"
    "dom (evs w) = insert wa (set cs)" "wa \<notin> set cs" "fds w - fd_of w ` set cs = {sock w, epollfd w}"
    using inv unfolding worker_inv_def by blast
  note rd = I(1) [unfolded serving_def, THEN conjunct1]
  have D: "dom (cmem w) = set cs" "distinct cs" using worker_okD [OF readyD(1) [OF rd]] by auto
  obtain ev where ev: "evs w (snd x) = Some ev" using r by (auto simp: one_event_def bind_eq_Some_conv)
  have none: "evs w d = None" if "d \<noteq> wa" "d \<notin> set cs" for d using I(5) that by (metis domIff insertE)
  show ?thesis
  proof (cases "snd x = wa")
    case True
    let ?c = "os_calloc os (calls w + 2)"
    have a: "may_accept os wa w" by (rule acc [OF True])
    then have s: "accept_sane os w cs" "?c \<noteq> wa"
      using D(1) by (auto simp: may_accept_def accept_sane_def fresh_conn_at_def Let_def)
    have few: "length cs \<le> 1" using a D distinct_card [OF D(2)] by (simp add: may_accept_def Let_def)
    obtain w1 cs1 t1 where o: "on_accept os (fst x) w = Some w1" "serving w1 cs1 t1"
      "cs1 = cs \<or> cs1 = cs @ [?c]" "\<forall>d. d \<noteq> ?c \<longrightarrow> evs w1 d = evs w d"
      "cs1 = cs \<longrightarrow> evs w ?c = None \<longrightarrow> evs w1 ?c = None" "own w1 cs1 = own w cs"
      by (rule on_accept_ok [OF I(1) few s(1)])
    have "w' = w1" using r ev True I(3,4) o(1)
      by (simp add: one_event_def call_event_def accept_cb_def io_cb_def split: if_splits)
    moreover have "worker_inv wa w1"
    proof (rule worker_inv_serving [OF o(2)])
      show "evs w1 wa = Some e" using o(4) s(2) I(3) by auto
      show "length cs1 \<le> 2" "wa \<notin> set cs1" using o(3) few I(6) s(2) by auto
      show "\<forall>d. d \<noteq> wa \<longrightarrow> d \<notin> set cs1 \<longrightarrow> evs w1 d = None"
        using o(3-5) none s(2) by (metis Un_iff list.set_intros(1) set_append)
    qed (use I(4) own_same [OF o(6) I(7)] in simp_all)
    ultimately show ?thesis using own_ends [OF o(6)] by simp
  next
    case False
    then have c: "snd x \<in> set cs" using ev I(5) by auto
    have er: "ecb ev = io_cb" "edata ev = snd x"
      using readyD(3) [OF rd c] ev by (auto simp: conn_ready_def)
    have "io_callback os rts (call os) (fst x) (snd x) w = Some w'"
      using r ev er by (simp add: one_event_def call_event_def io_cb_def split: if_splits)
    then have st: "settled w cs (snd x) w'" by (rule io_callback_settles [OF sane rd c I(2)])
    have num: "num_conns w = of_nat (length cs)" using I(1) by (simp add: serving_def)
    obtain cs' t' where s': "serving w' cs' t'" "cs' = cs \<or> cs' = remove1 (snd x) cs \<and> evs w' (snd x) = None"
      "own w' cs' = own w cs"
      by (rule settled_serving [OF st c num])
    have evs': "evs w' d = evs w d" if "d \<noteq> snd x" for d using st that by (simp add: settled_def)
    have "worker_inv wa w'"
    proof (rule worker_inv_serving [OF s'(1)])
      show "length cs' \<le> 2" "wa \<notin> set cs'"
        using s'(2) I(2,6) length_remove1 [of "snd x" cs] set_remove1_subset [of "snd x" cs] by auto
      show "evs w' wa = Some e" using evs' False I(3) by metis
      show "\<forall>d. d \<noteq> wa \<longrightarrow> d \<notin> set cs' \<longrightarrow> evs w' d = None"
        using s'(2) evs' none c D(2) by (metis in_set_remove1)
    qed (use I(4) own_same [OF s'(3) I(7)] in simp_all)
    then show ?thesis using own_ends [OF s'(3)] by simp
  qed
qed

lemma batch_keeps:
  assumes sane: "send_sane os"
  shows "worker_inv wa w \<Longrightarrow> batch_ok os wa (call_event os rts (call os)) (drop i es) w \<Longrightarrow> i + k \<le> length es \<Longrightarrow>
    run_events (call_event os rts (call os)) es i k w = Some w' \<Longrightarrow>
    worker_inv wa w' \<and> sock w' = sock w \<and> epollfd w' = epollfd w"
proof (induction k arbitrary: i w)
  case (Suc k)
  let ?call = "call_event os rts (call os)"
  have i: "i < length es" using Suc.prems(3) by simp
  have b: "batch_ok os wa ?call (es ! i # drop (Suc i) es) w" using Suc.prems(2) Cons_nth_drop_Suc [OF i] by simp
  obtain w1 where w1: "one_event ?call (es ! i) w = Some w1" "run_events ?call es (Suc i) k w1 = Some w'"
    using Suc.prems(4) unfolding run_events_one [OF i] bind_eq_Some_conv by blast
  have "worker_inv wa w1 \<and> sock w1 = sock w \<and> epollfd w1 = epollfd w"
    by (rule one_event_keeps [OF Suc.prems(1) sane _ w1(1)]) (use b in simp)
  then show ?case using Suc.IH [of w1 "Suc i"] b w1 Suc.prems(3) by simp
qed simp

lemma event_base_iter_keeps:
  assumes inv: "worker_inv wa w" and sane: "send_sane os" and it: "iter_ok os wa (call_event os rts (call os)) epoll_wait w"
    and r: "event_base_iter (call_timer os) (call_event os rts (call os)) epoll_wait w = Some (ret, w')"
  shows "ret = OK \<and> worker_inv wa w' \<and> sock w' = sock w \<and> epollfd w' = epollfd w"
proof -
  let ?call = "call_event os rts (call os)"
  obtain w1 where w1: "run_timers (call_timer os) w = Some w1" "worker_inv wa w1" "sock w1 = sock w \<and> epollfd w1 = epollfd w"
    by (rule run_timers_keeps [OF inv])
  obtain n es where e: "epoll_wait (epollfd w1) MAX_IO_EVENTS IO_TIMEOUT w1 = (n, es)" by fastforce
  have b: "nat n \<le> length es" "batch_ok os wa ?call es w1" using it w1(1) e by (auto simp: iter_ok_def)
  have io: "run_io ?call epoll_wait w1 IO_TIMEOUT = Some (ret, w')" using r w1(1) by (simp add: event_base_iter_def)
  then have "run_events ?call es 0 (nat n) w1 = Some w' \<or> w' = w1"
    using e by (auto simp: run_io_def bind_eq_Some_conv split: if_splits)
  then have "worker_inv wa w' \<and> sock w' = sock w1 \<and> epollfd w' = epollfd w1"
    using batch_keeps [OF sane w1(2), of rts 0 es "nat n" w'] b w1(2) by auto
  then show ?thesis using run_io_ok [OF io] w1(3) by simp
qed

end

section \<open>Iterations as steps\<close>

text \<open>
  A step of a worker is one iteration of its loop with some answers of the kernel.
\<close>

inductive worker_step ::
  "addr \<Rightarrow> 'c routes \<Rightarrow> (env \<Rightarrow> 'c \<Rightarrow> addr \<Rightarrow> 'a worker_scheme \<Rightarrow> 'a worker_scheme option)
     \<Rightarrow> 'a worker_scheme \<Rightarrow> 'a worker_scheme \<Rightarrow> bool" for wa rts call where
  iterate: "send_sane os \<Longrightarrow> iter_ok os wa (call_event os rts (call os)) epoll_wait w \<Longrightarrow>
     event_base_iter (call_timer os) (call_event os rts (call os)) epoll_wait w = Some (ret, w') \<Longrightarrow>
     worker_step wa rts call w w'"

inductive_cases worker_stepE: "worker_step wa rts call w w'"

context route_client
begin

lemma worker_step_keeps:
  "worker_step wa rts call w w' \<Longrightarrow> worker_inv wa w \<Longrightarrow> worker_inv wa w' \<and> sock w' = sock w \<and> epollfd w' = epollfd w"
  by (erule worker_stepE) (use event_base_iter_keeps in blast)

lemma reachable_keeps:
  "(worker_step wa rts call)\<^sup>*\<^sup>* w w' \<Longrightarrow> worker_inv wa w \<Longrightarrow> worker_inv wa w' \<and> sock w' = sock w \<and> epollfd w' = epollfd w"
  by (induction rule: rtranclp_induct) (auto dest: worker_step_keeps)

end

end
