(* ===== verification/Cask_Worker.thy ===== *)
theory Cask_Worker
  imports Cask_Loop
begin

text \<open>
  \<^verbatim>\<open>src/worker.c\<close>, \<^verbatim>\<open>struct cask\<close> of \<^verbatim>\<open>src/cask.h\<close> and the loops over the workers in \<^verbatim>\<open>src/cask.c\<close>: starting a
  worker, its thread, its destruction and its shutdown.  The global \<^verbatim>\<open>struct cask\<close> carries the memory of
  the workers and the descriptors of the process that belong to none of them yet.  A worker embeds
  its list node, its listening event and the head of its connections, all addressed by the address
  of the worker.  The sections under \<^verbatim>\<open>worker_lock\<close> are atomic; a thread is the sequence of the
  iterations of its loop.
\<close>

section \<open>Data\<close>

record 'a cask =
  krunning :: bool
  started_at :: u64
  current_id :: u64
  num_workers :: u32
  workers :: addr
  klinks :: links
  wmem :: "addr \<rightharpoonup> 'a worker_scheme"
  ipcfd :: int
  kfds :: "int set"

text \<open>The answers of the system to one call of \<^verbatim>\<open>start_worker\<close>.\<close>

record start_env =
  sw_socket :: int
  sw_reuseaddr :: int
  sw_reuseport :: int
  sw_bind :: int
  sw_listen :: int
  sw_calloc :: addr
  sw_base_fails :: bool
  sw_epoll :: int
  sw_ctl :: int
  sw_pthread :: int
  sw_clock :: "nat \<Rightarrow> (u64 \<times> u64) option"

section \<open>Starting\<close>

text \<open>A \<^verbatim>\<open>struct worker\<close> as \<^verbatim>\<open>calloc\<close> returns it, with the static sentinel of the timers; \<open>x\<close> stands for the
  objects the routes of the program refer to.\<close>

definition calloc_worker :: "start_env \<Rightarrow> 'a \<Rightarrow> 'a worker_scheme" where
  "calloc_worker en x =
     \<lparr>epollfd = 0, timers = \<lparr>troot = NULL, nodesz = 0, tcmp = \<lambda>_ _. 0, nodes = [RBNIL \<mapsto> sentinel], pay = Map.empty\<rparr>,
      evs = Map.empty, interest = Map.empty, fds = {}, clock = sw_clock en, ticks = 0,
      wlinks = Map.empty, conns = NULL, cmem = Map.empty, num_conns = 0, sock = 0, running = False, wid = 0,
      outbox = \<lambda>_. [], calls = 0, \<dots> = x\<rparr>"

definition close_k :: "'a cask \<Rightarrow> int \<Rightarrow> 'a cask" where
  "close_k k fd = k\<lparr>kfds := kfds k - {fd}\<rparr>"

text \<open>\<^verbatim>\<open>destroy_event_base\<close> of a worker that is given up, seen from the process: a base without an epoll
  descriptor has 0 in its place.\<close>

definition drop_base :: "'a cask \<Rightarrow> 'a worker_scheme \<Rightarrow> 'a cask" where
  "drop_base k w = k\<lparr>kfds := kfds k \<union> fds (destroy_event_base w) - (if epollfd w \<ge> 0 then {epollfd w} else {})\<rparr>"

text \<open>The part of \<^verbatim>\<open>start_worker\<close> under the lock.  On success the descriptors belong to the worker.\<close>

definition launch :: "start_env \<Rightarrow> addr \<Rightarrow> 'a worker_scheme \<Rightarrow> 'a cask \<Rightarrow> (int \<times> 'a cask) option" where
  "launch en wa w k =
     do { let w = w\<lparr>wid := current_id k\<rparr>;
          let k = k\<lparr>current_id := current_id k + 1, klinks := (klinks k)(wa \<mapsto> \<lparr>prev = NULL, nxt = NULL\<rparr>)\<rparr>;
          l \<leftarrow> list_add_tail (klinks k) (workers k) wa;
          let k = k\<lparr>klinks := l\<rparr>;
          (ret, k) \<leftarrow>
            (if sw_pthread en \<noteq> 0
             then do { l \<leftarrow> list_del (klinks k) wa;
                       Some (ERR, (drop_base (close_k k (sock w)) (close_fd w (sock w)))\<lparr>klinks := l(wa := None)\<rparr>) }
             else Some (OK, (close_k k (sock w))\<lparr>wmem := (wmem k)(wa \<mapsto> w)\<rparr>));
          Some (ret, k\<lparr>num_workers := num_workers k + 1\<rparr>) }"

definition start_worker :: "start_env \<Rightarrow> 'a \<Rightarrow> 'a cask \<Rightarrow> (int \<times> 'a cask) option" where
  "start_worker en x k =
     (let s = sw_socket en in
      if s < 0 then Some (ERR, k)
      else let k = k\<lparr>kfds := insert s (kfds k)\<rparr> in
      if sw_reuseaddr en < 0 then Some (ERR, close_k k s)
      else if sw_reuseport en < 0 then Some (ERR, close_k k s)
      else if sw_bind en < 0 then Some (ERR, close_k k s)
      else if sw_listen en < 0 then Some (ERR, close_k k s)
      else let wa = sw_calloc en in
      if wa = NULL then Some (ERR, close_k k s)
      else case create_event_base (sw_base_fails en) (sw_epoll en) (calloc_worker en x) of
             None \<Rightarrow> Some (ERR, close_k k s)
           | Some w \<Rightarrow>
               do { let w = w\<lparr>fds := insert s (fds w), evs := (evs w)(wa \<mapsto> make_event s (EPOLLIN OR EPOLLET) accept_cb wa)\<rparr>;
                    (ret, w) \<leftarrow> add_event (sw_ctl en) w wa;
                    if ret \<noteq> OK then Some (ERR, drop_base (close_k k s) (close_fd w s))
                    else launch en wa (w\<lparr>sock := s, wlinks := LIST_INIT_HEAD (wlinks w) wa, conns := wa\<rparr>) k })"

section \<open>Destroying\<close>

text \<open>\<^verbatim>\<open>list_for_each_safe\<close> over the connections: \<open>p\<close> is the iterator and \<open>n\<close> the node after it.\<close>

partial_function (option) close_all :: "env \<Rightarrow> 'a worker_scheme \<Rightarrow> addr \<Rightarrow> addr \<Rightarrow> 'a worker_scheme option" where
  "close_all os w p n =
     (if p = conns w then Some w
      else do { w \<leftarrow> close_connection os w p;
                n' \<leftarrow> get_next (wlinks w) n;
                close_all os w n n' })"

declare close_all.simps [code]

definition destroy_worker :: "env \<Rightarrow> addr \<Rightarrow> 'a cask \<Rightarrow> 'a cask option" where
  "destroy_worker os wa k =
     do { w \<leftarrow> wmem k wa;
          p \<leftarrow> get_next (wlinks w) (conns w);
          n \<leftarrow> get_next (wlinks w) p;
          w \<leftarrow> close_all os w p n;
          let k = drop_base k (close_fd w (sock w));
          let k = k\<lparr>num_workers := num_workers k - 1\<rparr>;
          l \<leftarrow> list_del (klinks k) wa;
          Some (k\<lparr>klinks := l(wa := None), wmem := (wmem k)(wa := None)\<rparr>) }"

text \<open>
  The loop of \<^verbatim>\<open>worker_proc\<close>: \<open>stop i\<close> says that another thread has cleared \<^verbatim>\<open>running\<close> during iteration \<open>i\<close>.
  The result is the exit value of the thread.
\<close>

partial_function (option) worker_loop ::
  "('a worker_scheme \<Rightarrow> (int \<times> 'a worker_scheme) option) \<Rightarrow> (nat \<Rightarrow> bool) \<Rightarrow> nat \<Rightarrow> 'a worker_scheme
     \<Rightarrow> (int \<times> 'a worker_scheme) option" where
  "worker_loop iter stop i w =
     (if \<not> running w then Some (0, w)
      else do { (ret, w) \<leftarrow> iter w;
                if ret \<noteq> OK then Some (1, w\<lparr>running := False\<rparr>)
                else worker_loop iter stop (Suc i) (w\<lparr>running := running w \<and> \<not> stop i\<rparr>) })"

declare worker_loop.simps [code]

definition worker_proc ::
  "env \<Rightarrow> ('a worker_scheme \<Rightarrow> (int \<times> 'a worker_scheme) option) \<Rightarrow> (nat \<Rightarrow> bool) \<Rightarrow> addr \<Rightarrow> 'a cask
     \<Rightarrow> (int \<times> 'a cask) option" where
  "worker_proc os iter stop wa k =
     do { w \<leftarrow> wmem k wa;
          (ret, w) \<leftarrow> worker_loop iter stop 0 (w\<lparr>running := True\<rparr>);
          k \<leftarrow> destroy_worker os wa (k\<lparr>wmem := (wmem k)(wa \<mapsto> w)\<rparr>);
          Some (ret, k) }"

text \<open>
  \<^verbatim>\<open>shutdown_worker\<close> clears the flag and waits for the thread, which leaves its loop and destroys the
  worker.
\<close>

definition shutdown_worker :: "env \<Rightarrow> addr \<Rightarrow> 'a cask \<Rightarrow> 'a cask option" where
  "shutdown_worker os wa k =
     do { w \<leftarrow> wmem k wa;
          if running w
          then destroy_worker os wa (k\<lparr>wmem := (wmem k)(wa \<mapsto> w\<lparr>running := False\<rparr>)\<rparr>)
          else Some k }"

text \<open>The loop at the end of \<^verbatim>\<open>main\<close>.\<close>

partial_function (option) shutdown_all :: "env \<Rightarrow> 'a cask \<Rightarrow> addr \<Rightarrow> addr \<Rightarrow> 'a cask option" where
  "shutdown_all os k p n =
     (if p = workers k then Some k
      else do { k \<leftarrow> shutdown_worker os p k;
                n' \<leftarrow> get_next (klinks k) n;
                shutdown_all os k n n' })"

declare shutdown_all.simps [code]

section \<open>Closing all connections\<close>

lemma ring_next:
  assumes "ring h p (xs @ y # ys)"
  shows "get_next h y = Some (hd (ys @ [p]))"
  using assms seg_hd [of h y ys p] by (simp add: ring_def seg_append)

lemma ring_first: "ring h p xs \<Longrightarrow> get_next h p = Some (hd (xs @ [p]))"
  using seg_hd by (simp add: ring_def)

lemma ring_second:
  assumes "ring h p xs"
  obtains n where "get_next h (hd (xs @ [p])) = Some n" "xs \<noteq> [] \<longrightarrow> n = hd (tl xs @ [p])"
proof (cases xs)
  case Nil
  then show thesis using that ring_first [OF assms] by auto
next
  case (Cons y ys)
  then show thesis using that ring_next [of h p "[]" y ys] assms by auto
qed

lemma close_all_ok:
  "ready w cs t \<Longrightarrow> length cs \<le> 2 \<Longrightarrow> p = hd (cs @ [conns w]) \<Longrightarrow> (cs \<noteq> [] \<longrightarrow> n = hd (tl cs @ [conns w])) \<Longrightarrow>
     \<exists>w'. close_all os w p n = Some w' \<and> cmem w' = Map.empty \<and> fds w' = fds w - fd_of w ` set cs
       \<and> num_conns w' = num_conns w - of_nat (length cs) \<and> sock w' = sock w \<and> epollfd w' = epollfd w"
proof (induction cs arbitrary: w t p n)
  case Nil
  have "dom (cmem w) = {}" using worker_okD(4) [OF readyD(1) [OF Nil.prems(1)]] by simp
  then show ?case using Nil.prems(3) by (subst close_all.simps) auto
next
  case (Cons c cs)
  note R = readyD [OF Cons.prems(1)]
  note D = worker_okD [OF R(1)]
  have c: "c \<in> set (c # cs)" by simp
  have e: "efd w c = fd_of w c" by (rule ready_conn [OF Cons.prems(1) c]) simp
  obtain w1 t1 where w1: "close_connection os w c = Some w1" "ready w1 (remove1 c (c # cs)) t1" "closed_from w c w1"
    by (rule close_handling [OF ready_handling [OF Cons.prems(1) c] worker_few_lone [OF R(1) Cons.prems(2)] e])
  have r1: "ready w1 cs t1" using w1(2) by simp
  note F = w1(3) [unfolded closed_from_def]
  have pc: "p = c" "n = hd (cs @ [conns w])" "p \<noteq> conns w" using Cons.prems(3,4) D(8) by auto
  have rg: "ring (wlinks w1) (conns w1) cs" by (rule worker_okD(1) [OF readyD(1) [OF r1]])
  have c1: "conns w1 = conns w" using F by simp
  obtain n' where n': "get_next (wlinks w1) n = Some n'" "cs \<noteq> [] \<longrightarrow> n' = hd (tl cs @ [conns w1])"
    by (rule ring_second [OF rg]) (use pc(2) c1 in simp)
  have eq: "close_all os w p n = close_all os w1 n n'"
    using pc w1(1) n'(1) by (subst close_all.simps) simp
  have fd: "fd_of w1 ` set cs = fd_of w ` set cs"
    using F D(6) by (intro image_cong) (auto simp: fd_of_def)
  have few: "length cs \<le> 2" using Cons.prems(2) by simp
  have nn: "n = hd (cs @ [conns w1])" using pc(2) c1 by simp
  obtain w' where "close_all os w1 n n' = Some w'" "cmem w' = Map.empty" "fds w' = fds w1 - fd_of w1 ` set cs"
    "num_conns w' = num_conns w1 - of_nat (length cs)" "sock w' = sock w1" "epollfd w' = epollfd w1"
    using Cons.IH [OF r1 few nn n'(2)] by blast
  then show ?case using eq F fd by auto
qed

section \<open>Invariants of the process\<close>

definition cask_ok :: "'a cask \<Rightarrow> addr list \<Rightarrow> bool" where
  "cask_ok k ws \<longleftrightarrow> ring (klinks k) (workers k) ws \<and> dom (wmem k) = set ws \<and> num_workers k = of_nat (length ws)"

text \<open>The descriptors of a worker are those of its connections, its socket and its epoll instance.\<close>

definition fds_exact :: "'a worker_scheme \<Rightarrow> addr list \<Rightarrow> bool" where
  "fds_exact w cs \<longleftrightarrow> fds w = fd_of w ` set cs \<union> {sock w, epollfd w} \<and> 0 \<le> epollfd w"

lemma num_workers_remove1:
  assumes "a \<in> set ws"
  shows "(of_nat (length (remove1 a ws)) :: u32) = of_nat (length ws) - 1"
proof -
  obtain n where "length ws = Suc n" using assms by (cases ws) auto
  then show ?thesis using assms by (simp add: length_remove1)
qed

lemma destroy_worker_ok:
  assumes k: "cask_ok k ws" "wa \<in> set ws" and w: "wmem k wa = Some w"
    and r: "ready w cs t" "length cs \<le> 2" "fds_exact w cs"
    and own: "epollfd w \<notin> kfds k"
  obtains k' where "destroy_worker os wa k = Some k'" "cask_ok k' (remove1 wa ws)" "kfds k' = kfds k"
    "wmem k' = (wmem k)(wa := None)" "workers k' = workers k"
proof -
  have rg: "ring (wlinks w) (conns w) cs" by (rule worker_okD(1) [OF readyD(1) [OF r(1)]])
  let ?p = "hd (cs @ [conns w])"
  have p: "get_next (wlinks w) (conns w) = Some ?p" by (rule ring_first [OF rg])
  obtain n where n: "get_next (wlinks w) ?p = Some n" "cs \<noteq> [] \<longrightarrow> n = hd (tl cs @ [conns w])"
    by (rule ring_second [OF rg])
  obtain w' where w': "close_all os w ?p n = Some w'" "fds w' = fds w - fd_of w ` set cs" "sock w' = sock w"
    "epollfd w' = epollfd w"
    using close_all_ok [OF r(1,2) refl n(2)] by blast
  obtain l where l: "list_del (klinks k) wa = Some l" "ring l (workers k) (remove1 wa ws)"
    using k by (auto simp: cask_ok_def elim: ring_del)
  have dk: "distinct ws" "workers k \<noteq> wa" using k by (auto simp: cask_ok_def ring_def)
  have f: "fds (destroy_event_base (close_fd w' (sock w'))) \<subseteq> {}"
    using w'(2-4) r(3) by (auto simp: fds_exact_def close_fd_def destroy_event_base_def)
  let ?k = "drop_base k (close_fd w' (sock w'))"
  have dp: "?k = k"
    using f own w'(4) by (auto simp: drop_base_def close_fd_def)
  let ?k' = "k\<lparr>num_workers := num_workers k - 1, klinks := l(wa := None), wmem := (wmem k)(wa := None)\<rparr>"
  have eq: "destroy_worker os wa k = Some ?k'"
    using w p n(1) w'(1) l(1) by (simp add: destroy_worker_def Let_def dp)
  have "ring (l(wa := None)) (workers k) (remove1 wa ws)"
    by (rule ring_free [OF l(2)]) (use dk in \<open>auto simp: set_remove1_eq\<close>)
  then have "cask_ok ?k' (remove1 wa ws)"
    using k num_workers_remove1 [OF k(2)] dk by (auto simp: cask_ok_def set_remove1_eq)
  then show thesis using that [OF eq] by simp
qed

text \<open>What the shutdown of the program needs of every worker that runs.\<close>

definition can_stop :: "'a cask \<Rightarrow> addr \<Rightarrow> bool" where
  "can_stop k wa \<longleftrightarrow> (\<exists>w. wmem k wa = Some w \<and> running w \<and> worker_inv wa w \<and> 0 \<le> epollfd w \<and> epollfd w \<notin> kfds k)"

lemma worker_inv_fds:
  assumes "worker_inv wa w" "0 \<le> epollfd w"
  obtains cs t where "ready w cs t" "length cs \<le> 2" "fds_exact w cs"
proof -
  obtain cs t where I: "ready w cs t" "length cs \<le> 2" "fds w - fd_of w ` set cs = {sock w, epollfd w}"
    using assms(1) unfolding worker_inv_def serving_def by blast
  have "fd_of w ` set cs \<subseteq> fds w" using readyD(1) [OF I(1)] by (auto simp: worker_ok_def conn_sound_def fd_of_def)
  then have "fds_exact w cs" using I(3) assms(2) by (auto simp: fds_exact_def)
  then show thesis using that I by blast
qed

lemma ready_running: "ready (w\<lparr>running := b\<rparr>) cs t = ready w cs t"
proof -
  have e: "get_timer (w\<lparr>running := b\<rparr>) = get_timer w" "fd_of (w\<lparr>running := b\<rparr>) = fd_of w"
    by (auto simp: get_timer_def fd_of_def)
  show ?thesis using timers_ok_cong [of "w\<lparr>running := b\<rparr>" w]
    by (simp add: ready_def worker_ok_def conn_sound_def conn_ready_def e)
qed

lemma worker_inv_running: "worker_inv wa (w\<lparr>running := b\<rparr>) = worker_inv wa w"
proof -
  have "fd_of (w\<lparr>running := b\<rparr>) = fd_of w" by (auto simp: fd_of_def)
  then show ?thesis by (simp add: worker_inv_def serving_def ready_running)
qed

lemma shutdown_worker_ok:
  assumes k: "cask_ok k ws" "wa \<in> set ws" and s: "can_stop k wa"
  obtains k' where "shutdown_worker os wa k = Some k'" "cask_ok k' (remove1 wa ws)" "kfds k' = kfds k"
    "wmem k' = (wmem k)(wa := None)" "workers k' = workers k"
proof -
  obtain w cs t where w: "wmem k wa = Some w" "running w" "ready w cs t" "length cs \<le> 2"
    "fds_exact w cs" "epollfd w \<notin> kfds k"
    using s worker_inv_fds unfolding can_stop_def by metis
  let ?w = "w\<lparr>running := False\<rparr>"
  let ?k = "k\<lparr>wmem := (wmem k)(wa \<mapsto> ?w)\<rparr>"
  have fd: "fd_of ?w = fd_of w" by (auto simp: fd_of_def)
  have ok: "cask_ok ?k ws" using k by (auto simp: cask_ok_def)
  have "wmem ?k wa = Some ?w" "ready ?w cs t" "fds_exact ?w cs" "epollfd ?w \<notin> kfds ?k"
    using w ready_running [of False w cs t] fd by (simp_all add: fds_exact_def)
  then obtain k' where "destroy_worker os wa ?k = Some k'" "cask_ok k' (remove1 wa ws)" "kfds k' = kfds ?k"
    "wmem k' = (wmem ?k)(wa := None)" "workers k' = workers ?k"
    by (rule destroy_worker_ok [OF ok k(2) _ _ w(4)])
  then show thesis using that w(1,2) by (simp add: shutdown_worker_def)
qed

lemma shutdown_all_ok:
  "cask_ok k ws \<Longrightarrow> \<forall>wa\<in>set ws. can_stop k wa \<Longrightarrow> p = hd (ws @ [workers k]) \<Longrightarrow>
     (ws \<noteq> [] \<longrightarrow> n = hd (tl ws @ [workers k])) \<Longrightarrow>
     \<exists>k'. shutdown_all os k p n = Some k' \<and> cask_ok k' [] \<and> kfds k' = kfds k"
proof (induction ws arbitrary: k p n)
  case Nil
  then show ?case by (subst shutdown_all.simps) auto
next
  case (Cons wa ws)
  have a: "wa \<in> set (wa # ws)" by simp
  have dk: "distinct (wa # ws)" "workers k \<notin> set (wa # ws)" using Cons.prems(1) by (auto simp: cask_ok_def ring_def)
  obtain k1 where k1: "shutdown_worker os wa k = Some k1" "cask_ok k1 (remove1 wa (wa # ws))" "kfds k1 = kfds k"
    "wmem k1 = (wmem k)(wa := None)" "workers k1 = workers k"
    by (rule shutdown_worker_ok [OF Cons.prems(1) a]) (use Cons.prems(2) in simp)
  have ok1: "cask_ok k1 ws" using k1(2) by simp
  then have rg: "ring (klinks k1) (workers k1) ws" by (simp add: cask_ok_def)
  have pn: "p = wa" "n = hd (ws @ [workers k1])" "p \<noteq> workers k" using Cons.prems(3,4) dk k1(5) by auto
  obtain n' where n': "get_next (klinks k1) n = Some n'" "ws \<noteq> [] \<longrightarrow> n' = hd (tl ws @ [workers k1])"
    by (rule ring_second [OF rg]) (use pn(2) in simp)
  have st: "\<forall>wa\<in>set ws. can_stop k1 wa" using Cons.prems(2) k1(3,4) dk by (auto simp: can_stop_def)
  have "shutdown_all os k p n = shutdown_all os k1 n n'"
    using pn k1(1) n'(1) by (subst shutdown_all.simps) simp
  then show ?case using Cons.IH [OF ok1 st pn(2) n'(2)] k1(3) by auto
qed

lemma shutdown_list:
  assumes k: "cask_ok k ws" and s: "\<forall>wa\<in>set ws. can_stop k wa"
  shows "\<exists>p n k'. get_next (klinks k) (workers k) = Some p \<and> get_next (klinks k) p = Some n
    \<and> shutdown_all os k p n = Some k' \<and> cask_ok k' [] \<and> kfds k' = kfds k"
proof -
  have rg: "ring (klinks k) (workers k) ws" using k by (simp add: cask_ok_def)
  obtain n where n: "get_next (klinks k) (hd (ws @ [workers k])) = Some n" "ws \<noteq> [] \<longrightarrow> n = hd (tl ws @ [workers k])"
    by (rule ring_second [OF rg])
  then show ?thesis using shutdown_all_ok [OF k s refl n(2)] ring_first [OF rg] by blast
qed

section \<open>A started worker\<close>

text \<open>The worker \<^verbatim>\<open>start_worker\<close> builds before it takes the lock.\<close>

definition new_worker :: "start_env \<Rightarrow> 'a \<Rightarrow> 'a worker_scheme" where
  "new_worker en x =
     (calloc_worker en x)\<lparr>epollfd := sw_epoll en,
        timers := \<lparr>troot = RBNIL, nodesz = TIMER_SIZE, tcmp = timer_cmp, nodes = [RBNIL \<mapsto> sentinel], pay = Map.empty\<rparr>,
        evs := [sw_calloc en \<mapsto> (make_event (sw_socket en) (EPOLLIN OR EPOLLET) accept_cb (sw_calloc en))\<lparr>eflags := EVENT_FLAG_ACTIVE\<rparr>],
        interest := [sw_socket en \<mapsto> (EPOLLIN OR EPOLLET, sw_calloc en)],
        fds := {sw_socket en, sw_epoll en}, sock := sw_socket en,
        wlinks := LIST_INIT_HEAD Map.empty (sw_calloc en), conns := sw_calloc en\<rparr>"

lemma new_worker_serving:
  assumes "sw_calloc en \<noteq> NULL"
  shows "serving (new_worker en x) [] E"
proof -
  let ?w = "new_worker en x"
  have "holds (timers ?w) E"
    by (auto simp: holds_def focus_def nil_ok_def balanced_def pays_def new_worker_def sentinel_def intro: exI [of _ 0])
  then have "tim.ordered (timers ?w) E" by (simp add: tim.ordered_def new_worker_def)
  then have "timers_ok ?w E" by (simp add: timers_ok_def get_timer_def new_worker_def)
  moreover have "ring (wlinks ?w) (conns ?w) []" using ring_init [OF assms] by (simp add: new_worker_def)
  moreover have "dom (get_timer ?w) = {}" by (auto simp: get_timer_def new_worker_def)
  ultimately show ?thesis
    by (simp add: serving_def ready_def worker_ok_def) (simp add: new_worker_def calloc_worker_def)
qed

lemma new_worker_inv:
  assumes "sw_calloc en \<noteq> NULL"
  shows "worker_inv (sw_calloc en) ((new_worker en x)\<lparr>wid := i\<rparr>)"
proof -
  have s: "serving ((new_worker en x)\<lparr>wid := i\<rparr>) [] E"
  proof -
    let ?w = "new_worker en x" and ?w' = "(new_worker en x)\<lparr>wid := i\<rparr>"
    have e: "get_timer ?w' = get_timer ?w" by (auto simp: get_timer_def)
    show ?thesis using new_worker_serving [OF assms, of x] timers_ok_cong [of ?w' ?w]
      by (simp add: serving_def ready_def worker_ok_def e)
  qed
  show ?thesis
    by (rule worker_inv_serving [OF s, where e = "the (evs (new_worker en x) (sw_calloc en))"])
      (simp_all add: new_worker_def make_event_def)
qed

lemma launch_ok:
  assumes k: "cask_ok k ws" and wa: "wa \<notin> set (workers k # ws)" "wa \<noteq> NULL"
  obtains l where "launch en wa w k =
      (if sw_pthread en = 0
       then Some (OK, (close_k k (sock w))\<lparr>current_id := current_id k + 1, klinks := l, wmem := (wmem k)(wa \<mapsto> w\<lparr>wid := current_id k\<rparr>),
                         num_workers := num_workers k + 1\<rparr>)
       else Some (ERR, (drop_base (close_k k (sock w)) (close_fd w (sock w)))\<lparr>current_id := current_id k + 1, klinks := l,
                         num_workers := num_workers k + 1\<rparr>))"
    "ring l (workers k) (if sw_pthread en = 0 then ws @ [wa] else ws)"
proof -
  let ?h = "(klinks k)(wa \<mapsto> \<lparr>prev = NULL, nxt = NULL\<rparr>)"
  have r: "ring (klinks k) (workers k) ws" using k by (simp add: cask_ok_def)
  have "ring ?h (workers k) ws" by (rule ring_frame [OF r]) (use wa in \<open>auto simp: get_next_def get_prev_def\<close>)
  then obtain l where l: "list_add_tail ?h (workers k) wa = Some l" "ring l (workers k) (ws @ [wa])"
    by (rule ring_add_tail [of _ _ _ wa]) (use wa in auto)
  obtain l2 where l2: "list_del l wa = Some l2" "ring l2 (workers k) (remove1 wa (ws @ [wa]))"
    by (rule ring_del [OF l(2), of wa]) simp_all
  have rm: "remove1 wa (ws @ [wa]) = ws" using wa by (simp add: remove1_append)
  have "ring (l2(wa := None)) (workers k) ws" using ring_free [OF l2(2), of wa] wa unfolding rm by simp
  then show thesis
    using that [of "if sw_pthread en = 0 then l else l2(wa := None)"] l l2(1)
    by (cases "sw_pthread en = 0") (simp_all add: launch_def Let_def close_k_def drop_base_def close_fd_def destroy_event_base_def)
qed

lemma start_worker_launch:
  assumes "0 \<le> sw_socket en" "0 \<le> sw_reuseaddr en" "0 \<le> sw_reuseport en" "0 \<le> sw_bind en" "0 \<le> sw_listen en"
    "sw_calloc en \<noteq> NULL" "\<not> sw_base_fails en" "0 \<le> sw_epoll en" "sw_ctl en = 0"
  shows "start_worker en x k = launch en (sw_calloc en) (new_worker en x) (k\<lparr>kfds := insert (sw_socket en) (kfds k)\<rparr>)"
  using assms
  by (simp add: start_worker_def create_event_base_def add_event_def new_worker_def calloc_worker_def
      make_event_def rbtree_init_def Let_def)

text \<open>The system refuses nothing.\<close>

definition start_good :: "start_env \<Rightarrow> bool" where
  "start_good en \<longleftrightarrow> 0 \<le> sw_socket en \<and> 0 \<le> sw_reuseaddr en \<and> 0 \<le> sw_reuseport en \<and> 0 \<le> sw_bind en
     \<and> 0 \<le> sw_listen en \<and> sw_calloc en \<noteq> NULL \<and> \<not> sw_base_fails en \<and> 0 \<le> sw_epoll en \<and> sw_ctl en = 0"

lemma start_worker_success:
  fixes k :: "'a cask" and x :: 'a
  assumes k: "cask_ok k ws" and wa: "sw_calloc en \<notin> set (workers k # ws)" and fd: "sw_socket en \<notin> kfds k"
    and good: "start_good en" and th: "sw_pthread en = 0"
  defines "w \<equiv> (new_worker en x)\<lparr>wid := current_id k\<rparr>"
  obtains l where "start_worker en x k = Some (OK, k\<lparr>current_id := current_id k + 1, klinks := l,
      wmem := (wmem k)(sw_calloc en \<mapsto> w), num_workers := num_workers k + 1\<rparr>)"
    "ring l (workers k) (ws @ [sw_calloc en])" "worker_inv (sw_calloc en) w" "fds_exact w []"
proof -
  let ?k = "k\<lparr>kfds := insert (sw_socket en) (kfds k)\<rparr>"
  have ok: "cask_ok ?k ws" "sw_calloc en \<notin> set (workers ?k # ws)" using k wa by (simp_all add: cask_ok_def)
  obtain l where l: "launch en (sw_calloc en) (new_worker en x) ?k =
      Some (OK, (close_k ?k (sock (new_worker en x)))\<lparr>current_id := current_id k + 1, klinks := l,
        wmem := (wmem k)(sw_calloc en \<mapsto> w), num_workers := num_workers k + 1\<rparr>)"
    "ring l (workers k) (ws @ [sw_calloc en])"
    by (rule launch_ok [OF ok, of en "new_worker en x"]) (use good th in \<open>simp_all add: start_good_def w_def\<close>)
  have st: "start_worker en x k = launch en (sw_calloc en) (new_worker en x) ?k"
    by (rule start_worker_launch) (use good in \<open>simp_all add: start_good_def\<close>)
  have "fds_exact w []" "sock (new_worker en x) = sw_socket en"
    using good by (auto simp: fds_exact_def new_worker_def calloc_worker_def w_def start_good_def)
  moreover have "worker_inv (sw_calloc en) w" unfolding w_def by (rule new_worker_inv) (use good in \<open>simp add: start_good_def\<close>)
  ultimately show thesis using that st l fd by (simp add: close_k_def)
qed

text \<open>Everything before the lock that fails leaves the process as it was, but for descriptor 0 when there
  is no epoll instance.\<close>

lemma start_worker_fails:
  assumes "\<not> start_good en"
    and s: "sw_socket en \<notin> kfds k" and e: "sw_epoll en < 0 \<longrightarrow> sw_ctl en \<noteq> 0" "sw_epoll en \<notin> kfds k"
  shows "\<exists>k'. start_worker en x k = Some (ERR, k') \<and> k' = k\<lparr>kfds := kfds k'\<rparr>
    \<and> kfds k' \<supseteq> kfds k - {0} \<and> (0 \<le> sw_epoll en \<longrightarrow> kfds k' = kfds k)"
  using assms
  by (auto simp: start_good_def start_worker_def create_event_base_def add_event_def close_k_def drop_base_def Let_def
      close_fd_def destroy_event_base_def calloc_worker_def make_event_def split: if_splits)

section \<open>Properties\<close>


definition demo_start :: start_env where
  "demo_start = \<lparr>sw_socket = 4, sw_reuseaddr = 0, sw_reuseport = 0, sw_bind = 0, sw_listen = 0, sw_calloc = 20,
     sw_base_fails = False, sw_epoll = 5, sw_ctl = 0, sw_pthread = 0, sw_clock = \<lambda>n. Some (of_nat n, 0)\<rparr>"

lemma demo_start_simps [simp]:
  "sw_socket demo_start = 4" "sw_reuseaddr demo_start = 0" "sw_reuseport demo_start = 0" "sw_bind demo_start = 0"
  "sw_listen demo_start = 0" "sw_calloc demo_start = 20" "\<not> sw_base_fails demo_start" "sw_epoll demo_start = 5"
  "sw_ctl demo_start = 0" "sw_pthread demo_start = 0"
  by (simp_all add: demo_start_def)

definition demo_cask :: "'a cask" where
  "demo_cask = \<lparr>krunning = True, started_at = 0, current_id = 0, num_workers = 0, workers = 100,
     klinks = LIST_INIT_HEAD Map.empty 100, wmem = Map.empty, ipcfd = 3, kfds = {0, 1, 2, 3}\<rparr>"

lemma demo_cask_ok: "cask_ok demo_cask []"
  using ring_init [of 100 Map.empty] by (simp add: cask_ok_def demo_cask_def)


text \<open>C38. When \<^verbatim>\<open>pthread_create\<close> fails the worker is taken off the list, but \<^verbatim>\<open>num_workers\<close> is incremented all
  the same: the count is one more than the list is long.\<close>

theorem start_worker_thread_failure:
  assumes k: "cask_ok k ws" and wa: "sw_calloc en \<notin> set (workers k # ws)" "sw_calloc en \<noteq> NULL"
    and good: "0 \<le> sw_socket en" "0 \<le> sw_reuseaddr en" "0 \<le> sw_reuseport en" "0 \<le> sw_bind en" "0 \<le> sw_listen en"
      "\<not> sw_base_fails en" "0 \<le> sw_epoll en" "sw_ctl en = 0" and th: "sw_pthread en \<noteq> 0"
  shows "\<exists>k'. start_worker en x k = Some (ERR, k') \<and> list_for_each (klinks k') (workers k') = Some ws
    \<and> num_workers k' = of_nat (length ws) + 1"
proof -
  let ?k = "k\<lparr>kfds := insert (sw_socket en) (kfds k)\<rparr>"
  have ok: "cask_ok ?k ws" "sw_calloc en \<notin> set (workers ?k # ws)" using k wa by (simp_all add: cask_ok_def)
  obtain l where l: "launch en (sw_calloc en) (new_worker en x) ?k =
      Some (ERR, (drop_base (close_k ?k (sock (new_worker en x))) (close_fd (new_worker en x) (sock (new_worker en x))))
        \<lparr>current_id := current_id k + 1, klinks := l, num_workers := num_workers k + 1\<rparr>)"
    "ring l (workers k) ws"
    by (rule launch_ok [OF ok wa(2), of en "new_worker en x"]) (use th in simp_all)
  have "start_worker en x k = launch en (sw_calloc en) (new_worker en x) ?k"
    by (rule start_worker_launch) (use good wa in simp_all)
  then show ?thesis using l ring_for_each [OF l(2)] k by (auto simp: drop_base_def close_k_def cask_ok_def)
qed

theorem start_worker_thread_failure_witness:
  "\<exists>k'. start_worker (demo_start\<lparr>sw_pthread := 11\<rparr>) () demo_cask = Some (ERR, k')
     \<and> list_for_each (klinks k') (workers k') = Some [] \<and> num_workers k' = 1"
  using start_worker_thread_failure [OF demo_cask_ok, of "demo_start\<lparr>sw_pthread := 11\<rparr>" "()"]
  by (auto simp: demo_start_def demo_cask_def)

text \<open>When \<^verbatim>\<open>epoll_create1\<close> fails the event base is returned with descriptor 0, \<^verbatim>\<open>epoll_ctl\<close> refuses it, and
  giving the base up closes descriptor 0 of the process, its standard input.\<close>

theorem start_worker_epoll_failure:
  assumes "0 \<le> sw_socket en" "0 \<le> sw_reuseaddr en" "0 \<le> sw_reuseport en" "0 \<le> sw_bind en" "0 \<le> sw_listen en"
    "sw_calloc en \<noteq> NULL" "\<not> sw_base_fails en" "sw_epoll en < 0" "sw_ctl en \<noteq> 0" "sw_socket en \<notin> kfds k"
  shows "\<exists>k'. start_worker en x k = Some (ERR, k') \<and> kfds k' = kfds k - {0}"
  using assms
  by (auto simp: start_worker_def create_event_base_def add_event_def close_k_def drop_base_def Let_def
      close_fd_def destroy_event_base_def calloc_worker_def make_event_def)

theorem start_worker_epoll_failure_witness:
  "\<exists>k'. start_worker (demo_start\<lparr>sw_epoll := -1, sw_ctl := -1\<rparr>) () demo_cask = Some (ERR, k') \<and> kfds k' = {1, 2, 3}"
  using start_worker_epoll_failure [of "demo_start\<lparr>sw_epoll := -1, sw_ctl := -1\<rparr>" demo_cask "()"]
  by (auto simp: demo_start_def demo_cask_def)


text \<open>The process of the example with its worker running.\<close>

definition demo_running :: "unit cask" where
  "demo_running = (let k = snd (the (start_worker demo_start () demo_cask)) in
     k\<lparr>wmem := [20 \<mapsto> (the (wmem k 20))\<lparr>running := True\<rparr>]\<rparr>)"

lemma demo_running_worker:
  "wmem demo_running = [20 \<mapsto> (new_worker demo_start ())\<lparr>running := True\<rparr>]" "kfds demo_running = {0, 1, 2, 3}"
  "cask_ok demo_running [20]"
proof -
  have st: "start_worker demo_start () demo_cask = launch demo_start 20 (new_worker demo_start ()) (demo_cask\<lparr>kfds := {4, 0, 1, 2, 3}\<rparr>)"
    using start_worker_launch [of demo_start "()" demo_cask] by (simp add: demo_cask_def)
  have ok: "cask_ok (demo_cask\<lparr>kfds := {4, 0, 1, 2, 3}\<rparr>) []" using demo_cask_ok by (simp add: cask_ok_def)
  have w0: "(new_worker demo_start ())\<lparr>wid := 0\<rparr> = new_worker demo_start ()"
    by (simp add: new_worker_def calloc_worker_def)
  obtain l where l: "launch demo_start 20 (new_worker demo_start ()) (demo_cask\<lparr>kfds := {4, 0, 1, 2, 3}\<rparr>) =
      Some (OK, (close_k (demo_cask\<lparr>kfds := {4, 0, 1, 2, 3}\<rparr>) (sock (new_worker demo_start ())))
        \<lparr>current_id := 1, klinks := l, wmem := [20 \<mapsto> new_worker demo_start ()], num_workers := 1\<rparr>)" "ring l 100 [20]"
    by (rule launch_ok [OF ok, of 20 demo_start "new_worker demo_start ()"])
      (use w0 in \<open>simp_all add: demo_cask_def\<close>)
  have "sock (new_worker demo_start ()) = 4" by (simp add: new_worker_def demo_start_def)
  then show "wmem demo_running = [20 \<mapsto> (new_worker demo_start ())\<lparr>running := True\<rparr>]" "kfds demo_running = {0, 1, 2, 3}"
    "cask_ok demo_running [20]"
    using st l by (auto simp: demo_running_def Let_def close_k_def demo_cask_def cask_ok_def)
qed

lemma demo_can_stop: "can_stop demo_running 20"
proof -
  let ?w = "(new_worker demo_start ())\<lparr>running := True\<rparr>"
  have "worker_inv 20 ((new_worker demo_start ())\<lparr>wid := 0\<rparr>)" using new_worker_inv [of demo_start] by simp
  moreover have "(new_worker demo_start ())\<lparr>wid := 0\<rparr> = new_worker demo_start ()"
    by (simp add: new_worker_def calloc_worker_def)
  ultimately have "worker_inv 20 ?w" using worker_inv_running [of 20 True "new_worker demo_start ()"] by simp
  moreover have "epollfd ?w = 5" by (simp add: new_worker_def)
  ultimately show ?thesis using demo_running_worker unfolding can_stop_def by simp
qed


end
