(* ===== verification/Cask_Ipc.thy ===== *)
theory Cask_Ipc
  imports Cask_Worker
begin

text \<open>
  The monitor protocol: \<^verbatim>\<open>src/shared.h\<close>, \<^verbatim>\<open>setup_ipc\<close> and \<^verbatim>\<open>handle_ipc\<close> of \<^verbatim>\<open>src/cask.c\<close>, and the program
  \<^verbatim>\<open>src/caskmon/caskmon.c\<close>.  The packed structures are byte strings; the descriptors are byte streams
  whose reads and writes may be short.
\<close>

section \<open>Messages\<close>

definition UNIX_PATH_MAX :: nat where "UNIX_PATH_MAX = 108"
definition IPC_CMD_STATUS :: u32 where "IPC_CMD_STATUS = 0"

record ipc_request =
  command :: u32
  payload :: u32

record ipc_status =
  uptime :: u64
  st_workers :: u32

record worker_status =
  ws_id :: u64
  ws_running :: bool
  ws_conns :: u64

definition enc_request :: "ipc_request \<Rightarrow> bytes" where
  "enc_request r = enc32 (command r) @ enc32 (payload r)"

definition dec_request :: "bytes \<Rightarrow> ipc_request" where
  "dec_request bs = \<lparr>command = dec32 (take 4 bs), payload = dec32 (take 4 (drop 4 bs))\<rparr>"

definition enc_status :: "ipc_status \<Rightarrow> bytes" where
  "enc_status s = enc64 (uptime s) @ enc32 (st_workers s)"

definition dec_status :: "bytes \<Rightarrow> ipc_status" where
  "dec_status bs = \<lparr>uptime = dec64 (take 8 bs), st_workers = dec32 (take 4 (drop 8 bs))\<rparr>"

definition enc_worker :: "worker_status \<Rightarrow> bytes" where
  "enc_worker s = enc64 (ws_id s) @ [if ws_running s then CHR 0x01 else CHR 0x00] @ enc64 (ws_conns s)"

definition dec_worker :: "bytes \<Rightarrow> worker_status" where
  "dec_worker bs = \<lparr>ws_id = dec64 (take 8 bs), ws_running = (take 1 (drop 8 bs) \<noteq> [CHR 0x00]),
     ws_conns = dec64 (take 8 (drop 9 bs))\<rparr>"

interpretation req: codec enc_request dec_request 8
  by unfold_locales (simp_all add: enc_request_def dec_request_def)

interpretation sta: codec enc_status dec_status 12
  by unfold_locales (simp_all add: enc_status_def dec_status_def)

interpretation wst: codec enc_worker dec_worker 17
  by unfold_locales (auto simp: enc_worker_def dec_worker_def)

section \<open>The server side\<close>

record ipc_env =
  ipc_accept :: int
  ipc_read :: "bytes option"
  ipc_write :: "nat \<Rightarrow> nat \<Rightarrow> nat"
  ipc_time :: "(u64 \<times> u64) option"

text \<open>\<open>open\<close> and \<open>bind\<close> results of \<^verbatim>\<open>setup_ipc\<close>; the path is copied into the 108 bytes of \<^verbatim>\<open>sun_path\<close>.\<close>

definition setup_ipc :: "int \<Rightarrow> (bytes \<Rightarrow> int) \<Rightarrow> int \<Rightarrow> bytes \<Rightarrow> int set \<Rightarrow> (int \<times> int set) option" where
  "setup_ipc sock_res bind_res listen_res path F =
     (if sock_res < 0 then Some (ERR, F)
      else do {
        let F = insert sock_res F;
        l \<leftarrow> strlen path;
        addr \<leftarrow> memcpy (replicate UNIX_PATH_MAX NUL) 0 path l;
        if bind_res addr < 0 then Some (ERR, F - {sock_res})
        else if listen_res < 0 then Some (ERR, F - {sock_res})
        else Some (sock_res, F) })"

definition put :: "ipc_env \<Rightarrow> nat \<Rightarrow> bytes \<Rightarrow> bytes" where
  "put en i bs = take (ipc_write en i (length bs)) bs"

text \<open>The loop over the workers: \<open>n\<close> of them, the next one at \<open>p\<close>, the next write number \<open>i\<close>.\<close>

fun report_workers :: "ipc_env \<Rightarrow> 'a cask \<Rightarrow> nat \<Rightarrow> nat \<Rightarrow> addr \<Rightarrow> bytes option" where
  "report_workers en k 0 i p = Some []"
| "report_workers en k (Suc n) i p =
     do { w \<leftarrow> wmem k p;
          let out = put en i (enc_worker \<lparr>ws_id = wid w, ws_running = running w, ws_conns = num_conns w\<rparr>);
          p \<leftarrow> get_next (klinks k) p;
          rest \<leftarrow> report_workers en k n (Suc i) p;
          Some (out @ rest) }"

definition handle_ipc :: "ipc_env \<Rightarrow> 'a cask \<Rightarrow> (bytes \<times> 'a cask) option" where
  "handle_ipc en k =
     (let fd = ipc_accept en in
      if fd < 0 then Some ([], k)
      else let k = k\<lparr>kfds := insert fd (kfds k)\<rparr> in
      case ipc_read en of
        None \<Rightarrow> Some ([], k)
      | Some bs \<Rightarrow>
          if length bs \<noteq> 8 then Some ([], k)
          else do {
            out \<leftarrow> (if command (dec_request bs) = IPC_CMD_STATUS
                   then do {
                     let up = (time_of (ipc_time en) - started_at k) div 1000000000;
                     let out = put en 0 (enc32 IPC_CMD_STATUS)
                             @ put en 1 (enc_status \<lparr>uptime = up, st_workers = num_workers k\<rparr>);
                     p \<leftarrow> LIST_HEAD (klinks k) (workers k);
                     rest \<leftarrow> report_workers en k (unat (num_workers k)) 2 p;
                     Some (out @ rest) }
                   else Some []);
            Some (out, close_k k fd) })"

section \<open>The monitor\<close>

record mon_env =
  mon_socket :: int
  mon_junk :: bytes
  mon_connect :: "bytes \<Rightarrow> int"
  mon_write :: "nat \<Rightarrow> nat"
  mon_read :: "nat \<Rightarrow> nat \<Rightarrow> nat"

text \<open>The \<open>i\<close>-th \<^verbatim>\<open>read\<close> of \<open>n\<close> bytes from a stream.\<close>

definition mon_get :: "mon_env \<Rightarrow> nat \<Rightarrow> nat \<Rightarrow> bytes \<Rightarrow> bytes \<times> bytes" where
  "mon_get en i n s = (let m = min n (mon_read en i n) in (take m s, drop m s))"

definition status_report :: "ipc_status \<Rightarrow> bytes" where
  "status_report s = ''Status: '' @ [LF] @ ''Uptime: '' @ print_nat (unat (uptime s)) @ '' seconds'' @ [LF]
     @ ''Number of workers: '' @ print_nat (unat (st_workers s)) @ [LF]"

definition worker_report :: "worker_status \<Rightarrow> bytes" where
  "worker_report s = ''  Worker #'' @ print_nat (unat (ws_id s)) @ '':'' @ [LF]
     @ ''  Status: '' @ (if ws_running s then ''Running'' else ''Terminated'') @ [LF]
     @ ''  Number of connections: '' @ print_nat (unat (ws_conns s)) @ [LF, LF]"

fun mon_workers :: "mon_env \<Rightarrow> nat \<Rightarrow> nat \<Rightarrow> bytes \<Rightarrow> int \<times> bytes" where
  "mon_workers en 0 i s = (0, [])"
| "mon_workers en (Suc n) i s =
     (let (bs, s) = mon_get en i 17 s in
      if length bs \<noteq> 17 then (1, [])
      else let (r, out) = mon_workers en n (Suc i) s in (r, worker_report (dec_worker bs) @ out))"

text \<open>
  \<^verbatim>\<open>main\<close> of the monitor: \<open>opts\<close> are the options \<^verbatim>\<open>getopt\<close> finds, \<open>reply\<close> is what the server sends for a
  request.  The result is the exit code and the report printed.
\<close>

definition caskmon_main :: "mon_env \<Rightarrow> char list \<Rightarrow> bytes list \<Rightarrow> (bytes \<Rightarrow> bytes) \<Rightarrow> (int \<times> bytes) option" where
  "caskmon_main en opts argv reply =
     (if opts \<noteq> [] then Some (1, [])
      else if length argv < 2 then Some (1, [])
      else if mon_socket en < 0 then Some (1, [])
      else do {
        l \<leftarrow> strlen (argv ! 1);
        addr \<leftarrow> memcpy (mon_junk en) 0 (argv ! 1) l;
        if mon_connect en addr < 0 then Some (1, [])
        else let rq = enc_request \<lparr>command = IPC_CMD_STATUS, payload = 0\<rparr> in
        if mon_write en (length rq) \<noteq> length rq then Some (1, [])
        else let (bs, s) = mon_get en 0 4 (reply rq) in
        if length bs \<noteq> 4 then Some (1, [])
        else if dec32 bs \<noteq> IPC_CMD_STATUS then Some (1, [])
        else let (bs, s) = mon_get en 1 12 s in
        if length bs \<noteq> 12 then Some (1, [])
        else let status = dec_status bs; (r, out) = mon_workers en (unat (st_workers status)) 2 s in
        Some (r, status_report status @ out) })"

section \<open>Reports\<close>

definition status_of :: "'a worker_scheme \<Rightarrow> worker_status" where
  "status_of w = \<lparr>ws_id = wid w, ws_running = running w, ws_conns = num_conns w\<rparr>"

definition statuses :: "'a cask \<Rightarrow> addr list \<Rightarrow> worker_status list" where
  "statuses k ws = map (\<lambda>a. status_of (the (wmem k a))) ws"

definition full_writes :: "ipc_env \<Rightarrow> bool" where
  "full_writes en \<longleftrightarrow> (\<forall>i n. ipc_write en i n = n)"

lemma report_workers_ok:
  assumes "full_writes en"
  shows "ring (klinks k) (workers k) (xs @ ys) \<Longrightarrow> set ys \<subseteq> dom (wmem k) \<Longrightarrow> ys \<noteq> [] \<Longrightarrow>
    report_workers en k (length ys) i (hd ys) = Some (concat (map enc_worker (statuses k ys)))"
proof (induction ys arbitrary: xs i)
  case (Cons y ys)
  obtain w where w: "wmem k y = Some w" using Cons.prems(2) by auto
  have n: "get_next (klinks k) y = Some (hd (ys @ [workers k]))" using Cons.prems(1) by (rule ring_next)
  have "report_workers en k (length ys) (Suc i) (hd (ys @ [workers k])) = Some (concat (map enc_worker (statuses k ys)))"
    using Cons.IH [of "xs @ [y]"] Cons.prems by (cases "ys = []") (auto simp: statuses_def)
  then show ?case using w n assms by (simp add: put_def full_writes_def statuses_def status_of_def)
qed simp

text \<open>Running off the list ends at its head, which is no worker.\<close>

lemma report_workers_past:
  "ring (klinks k) (workers k) (xs @ ys) \<Longrightarrow> wmem k (workers k) = None \<Longrightarrow>
    report_workers en k (Suc (length ys)) i (hd (ys @ [workers k])) = None"
proof (induction ys arbitrary: xs i)
  case (Cons y ys)
  have n: "get_next (klinks k) y = Some (hd (ys @ [workers k]))" using Cons.prems(1) by (rule ring_next)
  have step: "report_workers en k (Suc m) i y = None" if "report_workers en k m (Suc i) (hd (ys @ [workers k])) = None" for m
    using n that by (cases "wmem k y") simp_all
  have "report_workers en k (Suc (length ys)) (Suc i) (hd (ys @ [workers k])) = None"
    by (rule Cons.IH [of "xs @ [y]"]) (use Cons.prems in simp_all)
  from step [OF this] show ?case by (simp del: report_workers.simps)
qed simp

lemma mon_workers_ok:
  assumes "\<forall>i n. mon_read en i n = n"
  shows "mon_workers en (length ss) i (concat (map enc_worker ss)) = (0, concat (map worker_report ss))"
proof (induction ss arbitrary: i)
  case (Cons s ss)
  have "mon_get en i 17 (concat (map enc_worker (s # ss))) = (enc_worker s, concat (map enc_worker ss))"
    using assms by (simp add: mon_get_def wst.enc_length)
  then show ?case using Cons by (simp add: wst.enc_length wst.dec_enc)
qed simp

lemma handle_ipc_ok:
  assumes k: "cask_ok k ws" "length ws < 2 ^ 32" and en: "full_writes en" "0 \<le> ipc_accept en" "ipc_accept en \<notin> kfds k"
    and rq: "ipc_read en = Some (enc_request \<lparr>command = IPC_CMD_STATUS, payload = p\<rparr>)"
  shows "handle_ipc en k = Some (enc32 IPC_CMD_STATUS
      @ enc_status \<lparr>uptime = (time_of (ipc_time en) - started_at k) div 1000000000, st_workers = of_nat (length ws)\<rparr>
      @ concat (map enc_worker (statuses k ws)), k)"
proof -
  have rg: "ring (klinks k) (workers k) ws" and dom: "dom (wmem k) = set ws" and n: "num_workers k = of_nat (length ws)"
    using k(1) by (auto simp: cask_ok_def)
  have u: "unat (num_workers k) = length ws" unfolding n using k(2) by (simp add: unat_of_nat)
  let ?k = "k\<lparr>kfds := insert (ipc_accept en) (kfds k)\<rparr>"
  have "report_workers en ?k (length ws) 2 (if ws = [] then NULL else hd ws) = Some (concat (map enc_worker (statuses ?k ws)))"
    using report_workers_ok [OF en(1), of ?k "[]" ws 2] rg dom by (cases "ws = []") (auto simp: statuses_def)
  moreover have "statuses ?k ws = statuses k ws" by (simp add: statuses_def)
  moreover have "close_k ?k (ipc_accept en) = k" using en(3) by (simp add: close_k_def)
  ultimately show ?thesis
    using en rq u n ring_ends(1) [OF rg]
    by (simp add: handle_ipc_def Let_def req.enc_length req.dec_enc put_def full_writes_def)
qed

section \<open>Properties\<close>

text \<open>C12. The monitor protocol: connected to a server whose list of workers and count agree, the monitor exits
  with success and prints the uptime in seconds, the number of workers and, in the order of the list,
  the id, the state and the number of connections of each; the server gives the descriptor back.\<close>

theorem ipc_roundtrip:
  assumes k: "cask_ok k ws" "length ws < 2 ^ 32" and en: "full_writes en" "0 \<le> ipc_accept en" "ipc_accept en \<notin> kfds k"
    and m: "\<forall>i n. mon_read me i n = n" "\<forall>n. mon_write me n = n" "0 \<le> mon_socket me" "\<forall>a. 0 \<le> mon_connect me a"
    and path: "NUL \<notin> set path" "length path \<le> length (mon_junk me)"
  shows "caskmon_main me [] [name, cstr path] (\<lambda>rq. fst (the (handle_ipc (en\<lparr>ipc_read := Some rq\<rparr>) k))) =
    Some (0, status_report \<lparr>uptime = (time_of (ipc_time en) - started_at k) div 1000000000, st_workers = of_nat (length ws)\<rparr>
       @ concat (map worker_report (statuses k ws)))
    \<and> snd (the (handle_ipc (en\<lparr>ipc_read := Some (enc_request \<lparr>command = IPC_CMD_STATUS, payload = 0\<rparr>)\<rparr>) k)) = k"
proof -
  let ?rq = "enc_request \<lparr>command = IPC_CMD_STATUS, payload = 0\<rparr>"
  let ?st = "\<lparr>uptime = (time_of (ipc_time en) - started_at k) div 1000000000, st_workers = of_nat (length ws)\<rparr>"
  let ?en = "en\<lparr>ipc_read := Some ?rq\<rparr>"
  have h: "handle_ipc ?en k = Some (enc32 IPC_CMD_STATUS @ enc_status ?st @ concat (map enc_worker (statuses k ws)), k)"
    using handle_ipc_ok [OF k, of ?en 0] en by (simp add: full_writes_def)
  have u: "unat (of_nat (length ws) :: u32) = length ws" using k(2) by (simp add: unat_of_nat)
  have l: "length (statuses k ws) = length ws" by (simp add: statuses_def)
  have w: "mon_workers me (length ws) 2 (concat (map enc_worker (statuses k ws))) = (0, concat (map worker_report (statuses k ws)))"
    using mon_workers_ok [OF m(1), of "statuses k ws" 2] l by simp
  have mc: "\<exists>a. memcpy (mon_junk me) 0 (cstr path) (length path) = Some a" using path(2) by (simp add: memcpy_def cstr_def)
  then have "caskmon_main me [] [name, cstr path] (\<lambda>rq. fst (the (handle_ipc (en\<lparr>ipc_read := Some rq\<rparr>) k))) =
    Some (0, status_report ?st @ concat (map worker_report (statuses k ws)))"
    using h w m path(1) u
    by (auto simp: caskmon_main_def strlen_cstr Let_def mon_get_def req.enc_length sta.enc_length sta.dec_enc not_less [symmetric])
  then show ?thesis using h by simp
qed

definition demo_ipc :: ipc_env where
  "demo_ipc = \<lparr>ipc_accept = 9, ipc_read = None, ipc_write = \<lambda>_ n. n, ipc_time = Some (7, 5)\<rparr>"

definition demo_mon :: mon_env where
  "demo_mon = \<lparr>mon_socket = 3, mon_junk = replicate 108 NUL, mon_connect = \<lambda>_. 0, mon_write = \<lambda>n. n, mon_read = \<lambda>_ n. n\<rparr>"

theorem ipc_roundtrip_witness:
  "caskmon_main demo_mon [] [''caskmon'', cstr ''cask.sock'']
     (\<lambda>rq. fst (the (handle_ipc (demo_ipc\<lparr>ipc_read := Some rq\<rparr>) demo_running))) =
   Some (0, ''Status: '' @ [LF] @ ''Uptime: 7 seconds'' @ [LF] @ ''Number of workers: 1'' @ [LF] @ ''  Worker #0:'' @ [LF]
     @ ''  Status: Running'' @ [LF] @ ''  Number of connections: 0'' @ [LF, LF])"
proof -
  have st: "started_at demo_running = 0" by code_simp
  have s: "statuses demo_running [20] = [\<lparr>ws_id = 0, ws_running = True, ws_conns = 0\<rparr>]"
    by (simp add: statuses_def status_of_def demo_running_worker new_worker_def calloc_worker_def)
  have up: "(time_of (ipc_time demo_ipc) - started_at demo_running) div 1000000000 = 7"
    unfolding st demo_ipc_def by code_simp
  have r: "status_report \<lparr>uptime = 7, st_workers = 1\<rparr> @ worker_report \<lparr>ws_id = 0, ws_running = True, ws_conns = 0\<rparr> =
      ''Status: '' @ [LF] @ ''Uptime: 7 seconds'' @ [LF] @ ''Number of workers: 1'' @ [LF] @ ''  Worker #0:'' @ [LF]
     @ ''  Status: Running'' @ [LF] @ ''  Number of connections: 0'' @ [LF, LF]"
    by code_simp
  have k: "length [20::addr] < 2 ^ 32" by simp
  show ?thesis
    using ipc_roundtrip [OF demo_running_worker(3) k, of demo_ipc demo_mon "''cask.sock''" "''caskmon''"] up s
      demo_running_worker(2) r
    by (simp add: full_writes_def demo_ipc_def demo_mon_def)
qed



end
