(* ===== verification/Cask_Db.thy ===== *)
theory Cask_Db
  imports Cask_Libc
begin

text \<open>
  \<^verbatim>\<open>src/db.h\<close> and \<^verbatim>\<open>src/db.c\<close>: the paste database, one file that holds a header, a table of
  buckets and the records.  The file is a byte list.  The header and the buckets are reached
  through a shared mapping of the first \<open>mapsize\<close> bytes, the records with \<^verbatim>\<open>pread\<close> and
  \<^verbatim>\<open>pwrite\<close>, and both see the same bytes.  The outcome of the system calls made during an
  operation is the argument \<open>os\<close>.  The lock makes each operation one step of the process.
\<close>

section \<open>Data and system calls\<close>

abbreviation (input) DBID_FREE :: u64 where "DBID_FREE \<equiv> - 1"

record db =
  dbfile :: bytes
  mapsize :: nat

record rec_hdr =
  vlen :: u32
  rid :: u64
  rnext :: u64

definition REC_HDR_SIZE :: nat where "REC_HDR_SIZE = 20"

record db_os = alloc +
  lock_init_fails :: bool
  lock_fails :: bool
  open_fails :: bool
  ftruncate_fails :: bool
  mmap_fails :: bool
  read_fails :: bool
  fstat_fails :: bool
  pread_fails :: "nat \<Rightarrow> nat \<Rightarrow> bool"
  pwrite_fails :: "nat \<Rightarrow> nat \<Rightarrow> bool"
  pwrite_max :: "nat \<Rightarrow> nat \<Rightarrow> nat"

definition os_ok :: "db_os \<Rightarrow> bool" where
  "os_ok os = (alloc_ok os \<and> \<not> lock_init_fails os \<and> \<not> lock_fails os \<and> \<not> open_fails os \<and>
     \<not> ftruncate_fails os \<and> \<not> mmap_fails os \<and> \<not> read_fails os \<and> \<not> fstat_fails os \<and>
     (\<forall>k n. \<not> pread_fails os k n \<and> \<not> pwrite_fails os k n \<and> n \<le> pwrite_max os k n))"

text \<open>The packed header of a record: what the first 20 bytes of \<^verbatim>\<open>struct record\<close> hold.\<close>

definition enc_hdr :: "rec_hdr \<Rightarrow> bytes" where
  "enc_hdr h = enc32 (vlen h) @ enc64 (rid h) @ enc64 (rnext h)"

definition dec_hdr :: "bytes \<Rightarrow> rec_hdr" where
  "dec_hdr bs = \<lparr>vlen = dec32 (take 4 bs), rid = dec64 (take 8 (drop 4 bs)), rnext = dec64 (take 8 (drop 12 bs))\<rparr>"

interpretation rec_hdr: codec enc_hdr dec_hdr REC_HDR_SIZE
  by unfold_locales (simp_all add: enc_hdr_def dec_hdr_def REC_HDR_SIZE_def)

text \<open>
  \<^verbatim>\<open>pread\<close> returns the bytes read, \<^term>\<open>None\<close> for -1; \<^verbatim>\<open>pwrite\<close> the number of bytes written.  A
  file offset is signed, so an offset of \<open>2 ^ 63\<close> or more is an error.
\<close>

definition pread :: "db_os \<Rightarrow> bytes \<Rightarrow> u64 \<Rightarrow> nat \<Rightarrow> bytes option" where
  "pread os f k n =
     (if 2 ^ 63 \<le> unat k \<or> pread_fails os (unat k) n then None else Some (take n (drop (unat k) f)))"

definition pwrite :: "db_os \<Rightarrow> bytes \<Rightarrow> u64 \<Rightarrow> bytes \<Rightarrow> nat option \<times> bytes" where
  "pwrite os f k bs =
     (if 2 ^ 63 \<le> unat k \<or> pwrite_fails os (unat k) (length bs) then (None, f)
      else let n = min (length bs) (pwrite_max os (unat k) (length bs))
           in (Some n, write_at f (unat k) (take n bs)))"

definition get_file_size :: "db_os \<Rightarrow> db \<Rightarrow> u64" where
  "get_file_size os db = (if fstat_fails os then 0 else of_nat (length (dbfile db)))"

text \<open>Loads and stores of 64-bit objects through the mapping; outside of it there is no object.\<close>

definition map_rd64 :: "db \<Rightarrow> nat \<Rightarrow> u64 option" where
  "map_rd64 db k = (if k + 8 \<le> mapsize db \<and> k + 8 \<le> length (dbfile db)
     then Some (dec64 (take 8 (drop k (dbfile db)))) else None)"

definition map_wr64 :: "db \<Rightarrow> nat \<Rightarrow> u64 \<Rightarrow> db option" where
  "map_wr64 db k w = (if k + 8 \<le> mapsize db \<and> k + 8 \<le> length (dbfile db)
     then Some (db\<lparr>dbfile := write_at (dbfile db) k (enc64 w)\<rparr>) else None)"

section \<open>Operations\<close>

definition write_record :: "db_os \<Rightarrow> bytes \<Rightarrow> rec_hdr \<Rightarrow> u64 \<Rightarrow> bytes \<Rightarrow> (int \<times> bytes) option" where
  "write_record os f rec offset val =
     (let n = REC_HDR_SIZE + unat (vlen rec) in
      if alloc_fails os n then Some (ERR, f)
      else if length val < unat (vlen rec) then None
      else let (res, f') = pwrite os f offset (enc_hdr rec @ take (unat (vlen rec)) val)
           in Some (if res = None then ERR else OK, f'))"

definition header_size :: "u64 \<Rightarrow> u64" where
  "header_size num_buckets = 16 + 8 * num_buckets"

text \<open>
  \<open>open_db os fs n\<close>: \<open>fs\<close> is the file at the path, if there is one.  The result is the handle
  (\<^term>\<open>None\<close> the null pointer) and the file afterwards.
\<close>

definition open_db :: "db_os \<Rightarrow> bytes option \<Rightarrow> u64 \<Rightarrow> (db option \<times> bytes option) option" where
  "open_db os fs num_buckets =
     (if alloc_fails os 84 \<or> lock_init_fails os then Some (None, fs)
      else case fs of
        None \<Rightarrow>
          (if open_fails os then Some (None, None)
           else let sz = header_size num_buckets in
             if 2 ^ 63 \<le> unat sz \<or> ftruncate_fails os then Some (None, Some [])
             else if mmap_fails os then Some (None, Some (replicate (unat sz) NUL))
             else if unat sz < 16 + unat (8 * num_buckets) then None
             else let f = enc64 0 @ enc64 num_buckets @ replicate (unat (8 * num_buckets)) (CHR 0xFF)
                  in Some (Some \<lparr>dbfile = f, mapsize = unat sz\<rparr>, Some f))
      | Some f \<Rightarrow>
          (if open_fails os then Some (None, fs)
           else if read_fails os \<or> length f < 16 then Some (None, fs)
           else let sz = header_size (dec64 (take 8 (drop 8 f))) in
             if mmap_fails os then Some (None, fs)
             else Some (Some \<lparr>dbfile = f, mapsize = unat sz\<rparr>, fs)))"

definition close_db :: "db \<Rightarrow> bytes option" where
  "close_db db = do { _ \<leftarrow> map_rd64 db 8; Some (dbfile db) }"

text \<open>The walk to the last link of a bucket's list; the inner \<^term>\<open>None\<close> is a failed read.\<close>

partial_function (option) last_link :: "db_os \<Rightarrow> bytes \<Rightarrow> u64 \<Rightarrow> u64 option option" where
  "last_link os f offset =
     (case pread os f offset REC_HDR_SIZE of
        None \<Rightarrow> Some None
      | Some bs \<Rightarrow>
          if length bs \<noteq> REC_HDR_SIZE then Some None
          else if rnext (dec_hdr bs) \<noteq> DBID_FREE then last_link os f (rnext (dec_hdr bs))
          else Some (Some offset))"

definition insert_record ::
  "db_os \<Rightarrow> db \<Rightarrow> u64 \<Rightarrow> u64 \<Rightarrow> bytes \<Rightarrow> u32 \<Rightarrow> (int \<times> u64 option \<times> db) option" where
  "insert_record os db i pos val n =
     do { (ret, f) \<leftarrow> write_record os (dbfile db) \<lparr>vlen = n, rid = i, rnext = DBID_FREE\<rparr> pos val;
          Some (ret, Some i, db\<lparr>dbfile := f\<rparr>) }"

definition db_insert :: "db_os \<Rightarrow> db \<Rightarrow> bytes \<Rightarrow> u32 \<Rightarrow> (int \<times> u64 option \<times> db) option" where
  "db_insert os db val n =
     (if lock_fails os then Some (ERR, None, db)
      else do {
        i \<leftarrow> map_rd64 db 0;
        db \<leftarrow> map_wr64 db 0 (i + 1);
        num_buckets \<leftarrow> map_rd64 db 8;
        if num_buckets = 0 then None
        else do {
          let index = i mod num_buckets;
          let pos = get_file_size os db;
          offset \<leftarrow> map_rd64 db (16 + 8 * unat index);
          if offset = DBID_FREE
          then do { db \<leftarrow> map_wr64 db (16 + 8 * unat index) pos;
                    insert_record os db i pos val n }
          else do {
            lnk \<leftarrow> last_link os (dbfile db) offset;
            (case lnk of
               None \<Rightarrow> Some (ERR, None, db)
             | Some l \<Rightarrow>
                 let (res, f) = pwrite os (dbfile db) (l + 20) (enc64 pos) in
                 if res \<noteq> Some 8 then Some (ERR, None, db\<lparr>dbfile := f\<rparr>)
                 else insert_record os (db\<lparr>dbfile := f\<rparr>) i pos val n) } } })"

text \<open>
  The search loop of \<^verbatim>\<open>db_get\<close>: the returned object and the value left in \<^verbatim>\<open>*vlen\<close>.
\<close>

partial_function (option) get_loop :: "db_os \<Rightarrow> bytes \<Rightarrow> u64 \<Rightarrow> u64 \<Rightarrow> (bytes option \<times> u32) option" where
  "get_loop os f i offset =
     (case pread os f offset REC_HDR_SIZE of
        None \<Rightarrow> Some (None, 0)
      | Some bs \<Rightarrow>
          if length bs \<noteq> REC_HDR_SIZE then Some (None, 0)
          else let rec = dec_hdr bs in
            if rid rec = i
            then (if alloc_fails os (unat (vlen rec)) then Some (None, 0)
                  else case pread os f (offset + 20) (unat (vlen rec)) of
                         None \<Rightarrow> Some (None, 0)
                       | Some v \<Rightarrow> if length v \<noteq> unat (vlen rec) then Some (None, 0)
                                   else Some (Some v, vlen rec))
            else if rnext rec \<noteq> DBID_FREE then get_loop os f i (rnext rec)
            else Some (None, 0))"

text \<open>Without the lock \<^verbatim>\<open>*vlen\<close> is not written: its value is then \<^term>\<open>None\<close>.\<close>

definition db_get :: "db_os \<Rightarrow> db \<Rightarrow> u64 \<Rightarrow> (bytes option \<times> u32 option) option" where
  "db_get os db i =
     (if lock_fails os then Some (None, None)
      else do {
        num_buckets \<leftarrow> map_rd64 db 8;
        if num_buckets = 0 then None
        else do {
          offset \<leftarrow> map_rd64 db (16 + 8 * unat (i mod num_buckets));
          if offset = DBID_FREE then Some (None, Some 0)
          else do { (v, n) \<leftarrow> get_loop os (dbfile db) i offset; Some (v, Some n) } } })"

end
