(* ===== verification/Cask_Store.thy ===== *)
theory Cask_Store
  imports Cask_Db
begin

text \<open>
  Correctness of \<^verbatim>\<open>src/db.c\<close>.  The abstract state of the database is the list of the pastes
  stored so far, paste \<open>i\<close> having id \<open>i\<close>; \<open>image nb vals\<close> is the file that represents it.  As long
  as every bucket holds at most one record the operations implement that list.  The locale
  \<open>paste_store\<close> states this contract for the callers in \<^verbatim>\<open>src/cask.c\<close>.
\<close>

section \<open>The file as a function of the stored pastes\<close>

definition rec_bytes :: "nat \<Rightarrow> bytes \<Rightarrow> bytes" where
  "rec_bytes i v = enc_hdr \<lparr>vlen = of_nat (length v), rid = of_nat i, rnext = DBID_FREE\<rparr> @ v"

definition log_bytes :: "bytes list \<Rightarrow> bytes" where
  "log_bytes vals = concat (map (\<lambda>(i, v). rec_bytes i v) (enumerate 0 vals))"

definition rec_pos :: "nat \<Rightarrow> bytes list \<Rightarrow> nat \<Rightarrow> nat" where
  "rec_pos nb vals i = 16 + 8 * nb + length (log_bytes (take i vals))"

definition bucket_table :: "nat \<Rightarrow> bytes list \<Rightarrow> u64 list" where
  "bucket_table nb vals =
     map (\<lambda>i. if i < length vals then of_nat (rec_pos nb vals i) else DBID_FREE) [0..<nb]"

definition meta_words :: "nat \<Rightarrow> bytes list \<Rightarrow> u64 list" where
  "meta_words nb vals = of_nat (length vals) # of_nat nb # bucket_table nb vals"

definition image :: "nat \<Rightarrow> bytes list \<Rightarrow> bytes" where
  "image nb vals = concat (map enc64 (meta_words nb vals)) @ log_bytes vals"

definition db_of :: "nat \<Rightarrow> bytes list \<Rightarrow> db" where
  "db_of nb vals = \<lparr>dbfile = image nb vals, mapsize = 16 + 8 * nb\<rparr>"

text \<open>The sizes for which the file offsets fit their types.\<close>

definition store_ok :: "nat \<Rightarrow> bytes list \<Rightarrow> bool" where
  "store_ok nb vals = (0 < nb \<and> length vals \<le> nb \<and> length (image nb vals) < 2 ^ 63 \<and>
     (\<forall>v \<in> set vals. length v < 2 ^ 32))"

lemma length_rec_bytes [simp, bytes_simps]: "length (rec_bytes i v) = 20 + length v"
  by (simp add: rec_bytes_def rec_hdr.enc_length REC_HDR_SIZE_def)

lemma rec_bytes_nonempty [simp]: "rec_bytes i v \<noteq> []"
  using length_rec_bytes [of i v] by (metis add_is_0 list.size(3) zero_neq_numeral)

lemma log_bytes_append [simp]: "log_bytes (vals @ [v]) = log_bytes vals @ rec_bytes (length vals) v"
  by (simp add: log_bytes_def enumerate_append_eq)

lemma log_bytes_Nil [simp]: "log_bytes [] = []"
  by (simp add: log_bytes_def)

lemma log_bytes_split:
  assumes "i < length vals"
  shows "\<exists>rest. log_bytes vals = log_bytes (take i vals) @ rec_bytes i (vals ! i) @ rest"
  using assms
proof (induction vals rule: rev_induct)
  case Nil
  then show ?case by simp
next
  case (snoc v vals)
  show ?case
  proof (cases "i = length vals")
    case True
    then show ?thesis by (intro exI [of _ "[]"]) simp
  next
    case False
    then obtain rest where "log_bytes vals = log_bytes (take i vals) @ rec_bytes i (vals ! i) @ rest"
      using snoc by auto
    with False snoc.prems show ?thesis by (simp add: nth_append)
  qed
qed

lemma length_meta [simp]: "length (meta_words nb vals) = nb + 2"
  by (simp add: meta_words_def bucket_table_def)

lemma meta_words_nonempty [simp]: "meta_words nb vals \<noteq> []"
  by (simp add: meta_words_def)

lemma length_image: "length (image nb vals) = 16 + 8 * nb + length (log_bytes vals)"
  by (simp add: image_def u64.array_length)

lemma rec_pos_le:
  assumes "i < length vals"
  shows "rec_pos nb vals i + 20 + length (vals ! i) \<le> length (image nb vals)"
  using log_bytes_split [OF assms] by (auto simp: rec_pos_def length_image)

lemma image_at_record:
  assumes "i < length vals"
  shows "\<exists>rest. drop (rec_pos nb vals i) (image nb vals) = rec_bytes i (vals ! i) @ rest"
proof -
  obtain rest where "log_bytes vals = log_bytes (take i vals) @ rec_bytes i (vals ! i) @ rest"
    using log_bytes_split [OF assms] by blast
  then have "drop (rec_pos nb vals i) (image nb vals) = rec_bytes i (vals ! i) @ rest"
    by (simp add: image_def rec_pos_def u64.array_length)
  then show ?thesis ..
qed

lemma rec_pos_append: "i < length vals \<Longrightarrow> rec_pos nb (vals @ [v]) i = rec_pos nb vals i"
  by (simp add: rec_pos_def)

lemma rec_pos_end: "rec_pos nb vals (length vals) = length (image nb vals)"
  by (simp add: rec_pos_def length_image)

lemma meta_words_append:
  assumes "length vals < nb"
  shows "meta_words nb (vals @ [v]) =
     (meta_words nb vals)[0 := of_nat (Suc (length vals)),
                          length vals + 2 := of_nat (length (image nb vals))]"
proof (rule nth_equalityI)
  fix j assume j: "j < length (meta_words nb (vals @ [v]))"
  consider "j = 0" | "j = 1" | k where "j = k + 2" "k < nb"
    using j by (cases j; cases "j - 1") auto
  then show "meta_words nb (vals @ [v]) ! j =
     ((meta_words nb vals)[0 := of_nat (Suc (length vals)),
                          length vals + 2 := of_nat (length (image nb vals))]) ! j"
  proof cases
    case 3
    have "rec_pos nb (vals @ [v]) (length vals) = length (image nb vals)"
      using rec_pos_end [of nb vals] by (simp add: rec_pos_def)
    with 3 show ?thesis
      by (cases "k = length vals")
         (auto simp: meta_words_def bucket_table_def rec_pos_append)
  qed (simp_all add: meta_words_def)
qed simp

section \<open>Loads and stores of the represented file\<close>

text \<open>A database whose mapped words are \<open>ws\<close> and whose remaining bytes are \<open>log\<close>.\<close>

definition wdb :: "u64 list \<Rightarrow> bytes \<Rightarrow> db" where
  "wdb ws log = \<lparr>dbfile = concat (map enc64 ws) @ log, mapsize = 8 * length ws\<rparr>"

lemma db_of_wdb: "db_of nb vals = wdb (meta_words nb vals) (log_bytes vals)"
  by (simp add: db_of_def wdb_def image_def)

lemma map_rd64_wdb: "j < length ws \<Longrightarrow> map_rd64 (wdb ws log) (8 * j) = Some (ws ! j)"
  using u64.array_read [of j ws log] by (simp add: map_rd64_def wdb_def u64.array_length)

lemma map_wr64_wdb: "j < length ws \<Longrightarrow> map_wr64 (wdb ws log) (8 * j) w = Some (wdb (ws[j := w]) log)"
  using u64.array_write [of j ws log w] by (simp add: map_wr64_def wdb_def u64.array_length)

lemma wdb_id: "ws \<noteq> [] \<Longrightarrow> map_rd64 (wdb ws log) 0 = Some (ws ! 0)"
  "ws \<noteq> [] \<Longrightarrow> map_wr64 (wdb ws log) 0 w = Some (wdb (ws[0 := w]) log)"
  using map_rd64_wdb [of 0 ws log] map_wr64_wdb [of 0 ws log w] by auto

lemma wdb_num_buckets: "1 < length ws \<Longrightarrow> map_rd64 (wdb ws log) 8 = Some (ws ! 1)"
  using map_rd64_wdb [of 1 ws log] by simp

lemma wdb_bucket: "k + 2 < length ws \<Longrightarrow> map_rd64 (wdb ws log) (16 + 8 * k) = Some (ws ! (k + 2))"
  "k + 2 < length ws \<Longrightarrow> map_wr64 (wdb ws log) (16 + 8 * k) w = Some (wdb (ws[k + 2 := w]) log)"
  using map_rd64_wdb [of "k + 2" ws log] map_wr64_wdb [of "k + 2" ws log w]
  by (simp_all add: algebra_simps)

lemmas wdb_access = wdb_id wdb_num_buckets wdb_bucket

lemma unat_of_nat_64: "n < 2 ^ 64 \<Longrightarrow> unat (of_nat n :: u64) = n"
  by (simp add: unat_of_nat)

lemma unat_of_nat_32: "n < 2 ^ 32 \<Longrightarrow> unat (of_nat n :: u32) = n"
  by (simp add: unat_of_nat)

lemma of_nat_inject_64: "n < 2 ^ 63 \<Longrightarrow> m < 2 ^ 63 \<Longrightarrow> ((of_nat n :: u64) = of_nat m) = (n = m)"
proof
  assume b: "n < 2 ^ 63" "m < 2 ^ 63" and e: "(of_nat n :: u64) = of_nat m"
  have u: "unat (of_nat n :: u64) = n" "unat (of_nat m :: u64) = m"
    using b by (intro unat_of_nat_64, simp)+
  show "n = m" using arg_cong [OF e, of unat] unfolding u .
qed simp

lemma of_nat_nonzero: "0 < n \<Longrightarrow> n < 2 ^ 63 \<Longrightarrow> (of_nat n :: u64) \<noteq> 0"
proof
  assume n: "0 < n" "n < 2 ^ 63" and "(of_nat n :: u64) = 0"
  then have "unat (of_nat n :: u64) = 0" by simp
  then show False using n unat_of_nat_64 [of n] by simp
qed

lemma of_nat_not_free: "n < 2 ^ 63 \<Longrightarrow> (of_nat n :: u64) \<noteq> DBID_FREE"
proof
  assume n: "n < 2 ^ 63" and "(of_nat n :: u64) = - 1"
  then have "unat (of_nat n :: u64) = unat (- 1 :: u64)" by simp
  moreover have "unat (- 1 :: u64) = 2 ^ 64 - 1"
    by (simp add: unsigned_minus_1_eq_mask mask_eq_exp_minus_1)
  ultimately show False using n unat_of_nat_64 [of n] by simp
qed

lemma pread_ok: "os_ok os \<Longrightarrow> unat k < 2 ^ 63 \<Longrightarrow> pread os f k n = Some (take n (drop (unat k) f))"
  by (simp add: pread_def os_ok_def)

definition writes_ok :: "db_os \<Rightarrow> bool" where
  "writes_ok os = (alloc_ok os \<and> (\<forall>k n. \<not> pwrite_fails os k n \<and> n \<le> pwrite_max os k n))"

lemma os_ok_writes: "os_ok os \<Longrightarrow> writes_ok os" "os_ok os \<Longrightarrow> writes_ok (os\<lparr>fstat_fails := b\<rparr>)"
  by (simp_all add: os_ok_def writes_ok_def alloc_ok_def)

lemma pwrite_ok:
  "writes_ok os \<Longrightarrow> unat k < 2 ^ 63 \<Longrightarrow> pwrite os f k bs = (Some (length bs), write_at f (unat k) bs)"
  by (auto simp: pwrite_def writes_ok_def Let_def min_def not_le)

lemma write_record_at:
  assumes "writes_ok os" and "p < 2 ^ 63" and "length v < 2 ^ 32" and "take (length v) val = v"
  shows "write_record os f \<lparr>vlen = of_nat (length v), rid = of_nat i, rnext = DBID_FREE\<rparr>
           (of_nat p) val = Some (OK, write_at f p (rec_bytes i v))"
proof -
  have u: "unat (of_nat p :: u64) = p" "unat (of_nat (length v) :: u32) = length v"
    using assms(2,3) unat_of_nat_64 unat_of_nat_32 by auto
  have "length v \<le> length val" using assms(4) by (metis length_take min.cobounded1)
  then show ?thesis
    using assms u pwrite_ok [OF assms(1), of "of_nat p" f]
    by (simp add: write_record_def Let_def rec_bytes_def writes_ok_def alloc_ok_def)
qed

lemma write_record_end:
  assumes "os_ok os" and "length f < 2 ^ 63" and "length v < 2 ^ 32" and "take (length v) val = v"
  shows "write_record os f \<lparr>vlen = of_nat (length v), rid = of_nat i, rnext = DBID_FREE\<rparr>
           (of_nat (length f)) val = Some (OK, f @ rec_bytes i v)"
  using write_record_at [OF os_ok_writes(1) [OF assms(1)] assms(2-4), of f i] by simp

section \<open>Insertion\<close>

lemma store_ok_appendD:
  assumes "store_ok nb (vals @ [v])"
  shows "length vals < nb" "store_ok nb vals" "length v < 2 ^ 32" "length (image nb vals) < 2 ^ 63"
    "nb < 2 ^ 63" "length vals < 2 ^ 63"
  using assms by (auto simp: store_ok_def length_image)

text \<open>Up to the record: the id is counted and the bucket points to the end of the file.\<close>

lemma db_insert_bucket:
  assumes os: "os_ok os" and ok: "store_ok nb (vals @ [v])"
  shows "db_insert os (db_of nb vals) val n =
           insert_record os (wdb (meta_words nb (vals @ [v])) (log_bytes vals)) (of_nat (length vals))
             (of_nat (length (image nb vals))) val n"
proof -
  let ?n = "length vals" and ?ws = "meta_words nb vals"
  note b = store_ok_appendD [OF ok]
  have nz: "(of_nat nb :: u64) \<noteq> 0" using of_nat_nonzero [of nb] b(1,5) by simp
  have idx: "unat ((of_nat ?n :: u64) mod of_nat nb) = ?n"
    using b unat_of_nat_64 [of ?n] unat_of_nat_64 [of nb] by (simp add: unat_mod_distrib)
  have ws: "?ws ! 0 = of_nat ?n" "?ws ! 1 = of_nat nb" "?ws ! (?n + 2) = DBID_FREE"
    using b(1) by (simp_all add: meta_words_def bucket_table_def)
  let ?ws1 = "?ws[0 := of_nat ?n + 1]"
  let ?p = "of_nat (length (image nb vals)) :: u64"
  have size: "get_file_size os (wdb ?ws1 (log_bytes vals)) = ?p"
    using os by (simp add: get_file_size_def os_ok_def wdb_def length_image u64.array_length)
  have ws2: "?ws1[?n + 2 := ?p] = meta_words nb (vals @ [v])"
    using b(1) by (simp add: meta_words_append add.commute)
  have "\<not> lock_fails os" using os by (simp add: os_ok_def)
  then show ?thesis
    using b(1) nz idx ws size ws2
    by (simp add: db_insert_def db_of_wdb [of nb vals] wdb_access Let_def)
qed

lemma db_insert_free:
  assumes os: "os_ok os" and ok: "store_ok nb (vals @ [v])" and v: "take (length v) val = v"
  shows "db_insert os (db_of nb vals) val (of_nat (length v)) =
           Some (OK, Some (of_nat (length vals)), db_of nb (vals @ [v]))"
proof -
  let ?w = "wdb (meta_words nb (vals @ [v])) (log_bytes vals)"
  note b = store_ok_appendD [OF ok]
  have "length (dbfile ?w) = length (image nb vals)" by (simp add: wdb_def u64.array_length length_image)
  then have "write_record os (dbfile ?w) \<lparr>vlen = of_nat (length v), rid = of_nat (length vals), rnext = DBID_FREE\<rparr>
      (of_nat (length (image nb vals))) val = Some (OK, dbfile ?w @ rec_bytes (length vals) v)"
    using write_record_end [OF os _ b(3) v, of "dbfile ?w" "length vals"] b(4) by simp
  then show ?thesis
    unfolding db_insert_bucket [OF os ok] by (simp add: insert_record_def db_of_wdb wdb_def)
qed

text \<open>A value that is longer than its object is not read.\<close>

lemma db_insert_short:
  assumes "os_ok os" "store_ok nb (vals @ [v])" "length val < unat n"
  shows "db_insert os (db_of nb vals) val n = None"
  using assms(1,3) unfolding db_insert_bucket [OF assms(1,2)]
  by (simp add: insert_record_def write_record_def os_ok_def alloc_ok_def Let_def)

section \<open>Lookup\<close>

text \<open>The words of the represented file that a lookup of id \<open>i\<close> reads.\<close>

lemma lookup_words:
  assumes ok: "store_ok nb vals" and i: "i < 2 ^ 63"
  shows "(of_nat nb :: u64) \<noteq> 0" "unat ((of_nat i :: u64) mod of_nat nb) = i mod nb"
    "meta_words nb vals ! 1 = of_nat nb"
    "meta_words nb vals ! (i mod nb + 2) =
       (if i mod nb < length vals then of_nat (rec_pos nb vals (i mod nb)) else DBID_FREE)"
proof -
  have nb: "0 < nb" "nb < 2 ^ 63" using ok by (auto simp: store_ok_def length_image)
  then show "(of_nat nb :: u64) \<noteq> 0" by (rule of_nat_nonzero)
  show "unat ((of_nat i :: u64) mod of_nat nb) = i mod nb"
    using nb i unat_of_nat_64 [of i] unat_of_nat_64 [of nb] by (simp add: unat_mod_distrib)
  have "i mod nb < nb" using nb by simp
  then show "meta_words nb vals ! (i mod nb + 2) =
       (if i mod nb < length vals then of_nat (rec_pos nb vals (i mod nb)) else DBID_FREE)"
    by (simp add: meta_words_def bucket_table_def)
qed (simp add: meta_words_def)

lemma get_loop_at:
  assumes os: "os_ok os" and at: "drop p f = enc_hdr h @ v @ rest" and len: "length f < 2 ^ 63"
    and h: "unat (vlen h) = length v" "rnext h = DBID_FREE"
  shows "get_loop os f i (of_nat p) = Some (if i = rid h then (Some v, vlen h) else (None, 0))"
proof -
  have "length (drop p f) = 20 + length v + length rest"
    by (simp add: at rec_hdr.enc_length REC_HDR_SIZE_def)
  then have p: "p + 20 \<le> length f" by simp
  have up: "unat (of_nat p :: u64) = p" using len p unat_of_nat_64 by simp
  then have "unat (of_nat p + 20 :: u64) = p + 20" using len p by (simp add: unat_word_ariths)
  then have v: "pread os f (of_nat p + 20) (length v) = Some v"
    using pread_ok [OF os, of "of_nat p + 20"] len p at
    by (simp add: add.commute [of p] rec_hdr.enc_length REC_HDR_SIZE_def flip: drop_drop)
  have hd: "pread os f (of_nat p) REC_HDR_SIZE = Some (enc_hdr h)"
    using pread_ok [OF os, of "of_nat p"] len p up at by (simp add: rec_hdr.enc_length)
  show ?thesis
    using hd v h os
    by (subst get_loop.simps)
       (auto simp: rec_hdr.enc_length rec_hdr.dec_enc Let_def os_ok_def alloc_ok_def)
qed

lemma last_link_at:
  assumes os: "os_ok os" and at: "drop p f = enc_hdr h @ rest" and len: "length f < 2 ^ 63"
    and h: "rnext h = DBID_FREE"
  shows "last_link os f (of_nat p) = Some (Some (of_nat p))"
proof -
  have "length (drop p f) = 20 + length rest" by (simp add: at rec_hdr.enc_length REC_HDR_SIZE_def)
  then have p: "p + 20 \<le> length f" by simp
  have "pread os f (of_nat p) REC_HDR_SIZE = Some (enc_hdr h)"
    using pread_ok [OF os, of "of_nat p"] len p at unat_of_nat_64 [of p] by (simp add: rec_hdr.enc_length)
  then show ?thesis
    using h by (subst last_link.simps) (simp add: rec_hdr.enc_length rec_hdr.dec_enc)
qed

lemma get_loop_record:
  assumes os: "os_ok os" and ok: "store_ok nb vals" and j: "j < length vals" and i: "i < 2 ^ 63"
  shows "get_loop os (image nb vals) (of_nat i) (of_nat (rec_pos nb vals j)) =
     Some (if i = j then (Some (vals ! j), of_nat (length (vals ! j))) else (None, 0))"
proof -
  let ?h = "\<lparr>vlen = of_nat (length (vals ! j)), rid = of_nat j, rnext = DBID_FREE\<rparr>"
  obtain rest where at: "drop (rec_pos nb vals j) (image nb vals) = enc_hdr ?h @ vals ! j @ rest"
    using image_at_record [OF j] by (auto simp: rec_bytes_def)
  have lens: "length (image nb vals) < 2 ^ 63" "length (vals ! j) < 2 ^ 32" "j < 2 ^ 63"
    using ok j by (auto simp: store_ok_def length_image)
  show ?thesis
    using get_loop_at [OF os at lens(1)] unat_of_nat_32 [OF lens(2)] of_nat_inject_64 [OF i lens(3)] by simp
qed

lemma db_get_image:
  assumes os: "os_ok os" and ok: "store_ok nb vals" and i: "i < 2 ^ 63"
  shows "db_get os (db_of nb vals) (of_nat i) =
     Some (if i < length vals then (Some (vals ! i), Some (of_nat (length (vals ! i)))) else (None, Some 0))"
proof -
  note w = lookup_words [OF ok i]
  have nb: "0 < nb" "length vals \<le> nb" using ok by (auto simp: store_ok_def)
  have idx: "i mod nb + 2 < length (meta_words nb vals)" using nb by simp
  have fl: "dbfile (wdb (meta_words nb vals) (log_bytes vals)) = image nb vals"
    by (simp add: wdb_def image_def)
  have lf: "\<not> lock_fails os" using os by (simp add: os_ok_def)
  show ?thesis
  proof (cases "i mod nb < length vals")
    case False
    then have "\<not> i < length vals" using nb by auto
    with False show ?thesis
      using w lf idx by (simp add: db_get_def db_of_wdb wdb_access)
  next
    case True
    have p: "rec_pos nb vals (i mod nb) < 2 ^ 63"
      using rec_pos_le [OF True, of nb] ok by (simp add: store_ok_def)
    have "i = i mod nb \<longleftrightarrow> i < length vals" using True nb by (metis less_le_trans mod_less)
    then show ?thesis
      using True w lf idx of_nat_not_free [OF p] get_loop_record [OF os ok True i]
      by (auto simp: db_get_def db_of_wdb wdb_access fl)
  qed
qed

section \<open>Opening and closing\<close>

lemma enc64_free: "enc64 DBID_FREE = replicate 8 (CHR 0xFF)"
  using le_bytes_ones [of 8] by (simp add: unsigned_minus_1_eq_mask mask_eq_exp_minus_1)

lemma concat_replicate_const: "concat (map (\<lambda>_. replicate k x) ys) = replicate (k * length ys) x"
  by (induction ys) (simp_all add: replicate_add)

lemma image_empty: "image nb [] = enc64 0 @ enc64 (of_nat nb) @ replicate (8 * nb) (CHR 0xFF)"
  by (simp add: image_def meta_words_def bucket_table_def enc64_free concat_replicate_const comp_def
      del: map_replicate_const)

lemma header_size_nat:
  assumes "16 + 8 * nb < 2 ^ 63"
  shows "unat (header_size (of_nat nb)) = 16 + 8 * nb" "unat (8 * of_nat nb :: u64) = 8 * nb"
proof -
  have e: "(8 * of_nat nb :: u64) = of_nat (8 * nb)" "header_size (of_nat nb) = of_nat (16 + 8 * nb)"
    by (simp_all add: header_size_def)
  show "unat (8 * of_nat nb :: u64) = 8 * nb" unfolding e(1) by (rule unat_of_nat_64) (use assms in simp)
  show "unat (header_size (of_nat nb)) = 16 + 8 * nb"
    unfolding e(2) by (rule unat_of_nat_64) (use assms in simp)
qed

lemma open_db_fresh:
  assumes "os_ok os" and "16 + 8 * nb < 2 ^ 63"
  shows "open_db os None (of_nat nb) = Some (Some (db_of nb []), Some (image nb []))"
  using assms header_size_nat [OF assms(2)]
  by (simp add: open_db_def os_ok_def alloc_ok_def Let_def db_of_def image_empty)

lemma open_db_existing:
  assumes "os_ok os" and "store_ok nb vals"
  shows "open_db os (Some (image nb vals)) n = Some (Some (db_of nb vals), Some (image nb vals))"
proof -
  have b: "16 + 8 * nb < 2 ^ 63" using assms(2) by (simp add: store_ok_def length_image)
  have "dec64 (take 8 (drop (8 * 1) (image nb vals))) = meta_words nb vals ! 1"
    unfolding image_def by (rule u64.array_read) simp
  then have "dec64 (take 8 (drop 8 (image nb vals))) = of_nat nb" by (simp add: meta_words_def)
  then show ?thesis
    using assms(1) header_size_nat(1) [OF b]
    by (simp add: open_db_def os_ok_def alloc_ok_def Let_def db_of_def length_image)
qed

lemma close_db_image: "0 < nb \<Longrightarrow> close_db (db_of nb vals) = Some (image nb vals)"
  using wdb_num_buckets [of "meta_words nb vals" "log_bytes vals"]
  by (simp add: close_db_def db_of_wdb) (simp add: wdb_def image_def)

section \<open>Interface: a paste store\<close>

text \<open>
  What the HTTP callbacks need of the database: an accepted paste gets the next id, and a lookup
  returns the paste with that id or nothing.  \<open>rep c s vals\<close> relates a state to the pastes it
  holds, \<open>fits c vals\<close> says that they fit the configuration \<open>c\<close>.
\<close>

datatype store_op = Post bytes | Get nat

datatype store_result = Posted nat | Got "bytes option" | Failed

fun abs_run :: "bytes list \<Rightarrow> store_op list \<Rightarrow> store_result list \<times> bytes list" where
  "abs_run vals [] = ([], vals)"
| "abs_run vals (Post v # ops) =
     (let (rs, vals') = abs_run (vals @ [v]) ops in (Posted (length vals) # rs, vals'))"
| "abs_run vals (Get i # ops) =
     (let (rs, vals') = abs_run vals ops
      in (Got (if i < length vals then Some (vals ! i) else None) # rs, vals'))"

fun conc_run ::
  "('s \<Rightarrow> bytes \<Rightarrow> (nat \<times> 's) option) \<Rightarrow> ('s \<Rightarrow> nat \<Rightarrow> bytes option) \<Rightarrow> 's \<Rightarrow> store_op list \<Rightarrow>
   store_result list \<times> 's" where
  "conc_run ins lkp s [] = ([], s)"
| "conc_run ins lkp s (Post v # ops) =
     (case ins s v of
        None \<Rightarrow> (let (rs, s') = conc_run ins lkp s ops in (Failed # rs, s'))
      | Some (i, s1) \<Rightarrow> (let (rs, s') = conc_run ins lkp s1 ops in (Posted i # rs, s')))"
| "conc_run ins lkp s (Get i # ops) =
     (let (rs, s') = conc_run ins lkp s ops in (Got (lkp s i) # rs, s'))"

locale paste_store =
  fixes ins :: "'e \<Rightarrow> 's \<Rightarrow> bytes \<Rightarrow> (nat \<times> 's) option"
    and lkp :: "'e \<Rightarrow> 's \<Rightarrow> nat \<Rightarrow> bytes option"
    and env_ok :: "'e \<Rightarrow> bool"
    and rep :: "'c \<Rightarrow> 's \<Rightarrow> bytes list \<Rightarrow> bool"
    and fits :: "'c \<Rightarrow> bytes list \<Rightarrow> bool"
    and bound :: nat
  assumes ins_appends: "env_ok e \<Longrightarrow> rep c s vals \<Longrightarrow> fits c (vals @ [v]) \<Longrightarrow>
      \<exists>s'. ins e s v = Some (length vals, s') \<and> rep c s' (vals @ [v])"
    and lkp_returns: "env_ok e \<Longrightarrow> rep c s vals \<Longrightarrow> fits c vals \<Longrightarrow> i < bound \<Longrightarrow>
      lkp e s i = (if i < length vals then Some (vals ! i) else None)"
    and fits_prefix: "fits c (vals @ ws) \<Longrightarrow> fits c vals"
begin

lemma get_after_post:
  assumes "env_ok e" and "rep c s vals" and "fits c (vals @ [v])" and "length vals < bound"
  shows "\<exists>s'. ins e s v = Some (length vals, s') \<and> lkp e s' (length vals) = Some v"
  using ins_appends [OF assms(1-3)] lkp_returns [OF assms(1) _ assms(3,4)] by auto

lemma abs_run_extends: "\<exists>ws. snd (abs_run vals ops) = vals @ ws"
  by (induction vals ops rule: abs_run.induct) (auto split: prod.splits)

lemma run_refines:
  assumes "env_ok e" and "rep c s vals" and "fits c (snd (abs_run vals ops))"
    and "\<forall>i. Get i \<in> set ops \<longrightarrow> i < bound"
  shows "fst (conc_run (ins e) (lkp e) s ops) = fst (abs_run vals ops) \<and>
         rep c (snd (conc_run (ins e) (lkp e) s ops)) (snd (abs_run vals ops))"
  using assms(2-4)
proof (induction vals ops arbitrary: s rule: abs_run.induct)
  case (1 vals)
  then show ?case by simp
next
  case (2 vals v ops)
  have fin: "fits c (snd (abs_run (vals @ [v]) ops))" using "2.prems" by (simp split: prod.splits)
  then have "fits c (vals @ [v])" using abs_run_extends [of "vals @ [v]" ops] fits_prefix by metis
  then obtain s' where s': "ins e s v = Some (length vals, s')" "rep c s' (vals @ [v])"
    using ins_appends [OF assms(1) "2.prems"(1)] by blast
  show ?case using "2.IH" [OF s'(2) fin] "2.prems"(3) s'(1) by (auto split: prod.splits)
next
  case (3 vals i ops)
  have fin: "fits c (snd (abs_run vals ops))" using "3.prems" by (simp split: prod.splits)
  then have "fits c vals" using abs_run_extends [of vals ops] fits_prefix by metis
  then have "lkp e s i = (if i < length vals then Some (vals ! i) else None)"
    using lkp_returns [OF assms(1) "3.prems"(1)] "3.prems"(3) by auto
  then show ?case using "3.IH" [OF "3.prems"(1) fin] "3.prems"(3) by (auto split: prod.splits)
qed

end

definition store_insert :: "db_os \<Rightarrow> db \<Rightarrow> bytes \<Rightarrow> (nat \<times> db) option" where
  "store_insert os db v = (case db_insert os db v (of_nat (length v)) of
      Some (ret, Some i, db') \<Rightarrow> if ret = OK then Some (unat i, db') else None
    | _ \<Rightarrow> None)"

definition store_lookup :: "db_os \<Rightarrow> db \<Rightarrow> nat \<Rightarrow> bytes option" where
  "store_lookup os db i = (case db_get os db (of_nat i) of Some (v, _) \<Rightarrow> v | None \<Rightarrow> None)"

lemma store_ok_prefix: "store_ok nb (vals @ ws) \<Longrightarrow> store_ok nb vals"
proof (induction ws rule: rev_induct)
  case (snoc w ws)
  then show ?case using store_ok_appendD(2) [of nb "vals @ ws" w] by simp
qed simp

interpretation pastes: paste_store store_insert store_lookup os_ok
  "\<lambda>nb db vals. db = db_of nb vals" store_ok "2 ^ 63"
proof unfold_locales
  fix os db nb and vals :: "bytes list" and v i
  show "\<exists>db'. store_insert os db v = Some (length vals, db') \<and> db' = db_of nb (vals @ [v])"
    if "os_ok os" "db = db_of nb vals" "store_ok nb (vals @ [v])"
    using db_insert_free [OF that(1,3), of v] store_ok_appendD [OF that(3)] that(2)
      unat_of_nat_64 [of "length vals"] by (simp add: store_insert_def)
  show "store_lookup os db i = (if i < length vals then Some (vals ! i) else None)"
    if "os_ok os" "db = db_of nb vals" "store_ok nb vals" "i < 2 ^ 63"
    using db_get_image [OF that(1,3,4)] that(2) by (simp add: store_lookup_def)
qed (rule store_ok_prefix)

section \<open>A second record in a bucket\<close>

text \<open>
  When every bucket is taken, the next insertion links the new record to record 0.  The link is
  written at the offset of the field \<^verbatim>\<open>offset\<close>, which is where the value of record 0 starts.
\<close>

lemma log_bytes_Cons:
  assumes "vals \<noteq> []"
  obtains rest where "log_bytes vals = rec_bytes 0 (vals ! 0) @ rest"
  using log_bytes_split [of 0 vals] assms by auto

lemma rec_pos_0 [simp]: "rec_pos nb vals 0 = 16 + 8 * nb"
  by (simp add: rec_pos_def)

abbreviation hdr_of :: "nat \<Rightarrow> bytes \<Rightarrow> rec_hdr" where
  "hdr_of i v \<equiv> \<lparr>vlen = of_nat (length v), rid = of_nat i, rnext = DBID_FREE\<rparr>"

lemma db_insert_full:
  assumes os: "os_ok os" and ok: "store_ok nb vals" and full: "length vals = nb"
    and v0: "8 \<le> length (vals ! 0)" and v: "length v < 2 ^ 32"
    and log: "log_bytes vals = rec_bytes 0 (vals ! 0) @ rest"
  shows "db_insert os (db_of nb vals) v (of_nat (length v)) =
     Some (OK, Some (of_nat nb),
       wdb ((meta_words nb vals)[0 := of_nat nb + 1])
         (enc_hdr (hdr_of 0 (vals ! 0)) @
          (enc64 (of_nat (length (image nb vals))) @ drop 8 (vals ! 0)) @ rest @ rec_bytes nb v))"
proof -
  let ?ws = "(meta_words nb vals)[0 := of_nat nb + 1]" and ?L = "length (image nb vals)"
  let ?h = "enc_hdr (hdr_of 0 (vals ! 0))" and ?p = "16 + 8 * nb"
  have nb: "0 < nb" "?L < 2 ^ 63" "nb < 2 ^ 63" using ok by (auto simp: store_ok_def length_image)
  note w = lookup_words [OF ok nb(3)]
  have v0s: "vals ! 0 = take 8 (vals ! 0) @ drop 8 (vals ! 0)" by simp
  have lh: "length ?h = 20" by (simp add: rec_hdr.enc_length REC_HDR_SIZE_def)
  have a: "length (concat (map enc64 ?ws)) = ?p" by (simp add: u64.array_length)
  have f1: "dbfile (wdb ?ws (log_bytes vals)) =
      (concat (map enc64 ?ws) @ ?h) @ take 8 (vals ! 0) @ (drop 8 (vals ! 0) @ rest)"
    using v0s by (simp add: wdb_def log rec_bytes_def del: append_take_drop_id)
  have len1: "length (dbfile (wdb ?ws (log_bytes vals))) = ?L"
    by (simp add: wdb_def u64.array_length length_image)
  have at: "drop ?p (dbfile (wdb ?ws (log_bytes vals))) = ?h @ (vals ! 0 @ rest)"
    by (simp add: wdb_def log rec_bytes_def u64.array_length)
  have link: "last_link os (dbfile (wdb ?ws (log_bytes vals))) (of_nat ?p) = Some (Some (of_nat ?p))"
    by (rule last_link_at [OF os at]) (use nb len1 in simp_all)
  have p20: "unat (of_nat ?p + 20 :: u64) = ?p + 20"
  proof -
    have "?p + 20 < 2 ^ 64" using nb(2) log by (simp add: length_image)
    then show ?thesis using unat_of_nat_64 [of "?p + 20"] by simp
  qed
  have pr: "?p + 20 < 2 ^ 63" using nb(2) log by (simp add: length_image)
  let ?f2 = "(concat (map enc64 ?ws) @ ?h) @ enc64 (of_nat ?L) @ (drop 8 (vals ! 0) @ rest)"
  have "length (concat (map enc64 ?ws) @ ?h) = ?p + 20" using a lh by simp
  then have "write_at (dbfile (wdb ?ws (log_bytes vals))) (?p + 20) (enc64 (of_nat ?L)) = ?f2"
    using write_at_inside [of "enc64 (of_nat ?L)" "take 8 (vals ! 0)" "concat (map enc64 ?ws) @ ?h"
        "drop 8 (vals ! 0) @ rest"] v0 f1 by (metis length_le_bytes length_take min.absorb2)
  then have wr: "pwrite os (dbfile (wdb ?ws (log_bytes vals))) (of_nat ?p + 20) (enc64 (of_nat ?L)) =
      (Some 8, ?f2)"
    using pwrite_ok [OF os_ok_writes(1) [OF os], of "of_nat ?p + 20"] p20 pr by simp
  have len2: "length ?f2 = ?L" using len1 v0 unfolding f1 by simp
  have "write_record os ?f2 (hdr_of nb v) (of_nat ?L) v = Some (OK, ?f2 @ rec_bytes nb v)"
    by (rule write_record_end [OF os _ v, of ?f2 v nb, unfolded len2]) (use nb(2) in simp_all)
  then have ins: "insert_record os ((wdb ?ws (log_bytes vals))\<lparr>dbfile := ?f2\<rparr>) (of_nat nb) (of_nat ?L) v
      (of_nat (length v)) = Some (OK, Some (of_nat nb),
       wdb ?ws (?h @ (enc64 (of_nat ?L) @ drop 8 (vals ! 0)) @ rest @ rec_bytes nb v))"
    by (simp add: insert_record_def wdb_def)
  have size: "get_file_size os (wdb ?ws (log_bytes vals)) = of_nat ?L"
    using os len1 by (simp add: get_file_size_def os_ok_def)
  have nf: "(of_nat ?p :: u64) \<noteq> DBID_FREE" by (rule of_nat_not_free) (use pr in simp)
  have ids: "meta_words nb vals ! 0 = of_nat nb" using full by (simp add: meta_words_def)
  have buck: "?ws ! 2 = of_nat ?p" "?ws ! 1 = of_nat nb" using w(3,4) nb(1) full by (simp_all add: numeral_2_eq_2)
  have "\<not> lock_fails os" using os by (simp add: os_ok_def)
  moreover have "map_rd64 (wdb ?ws (log_bytes vals)) 16 = Some (of_nat ?p)"
    using wdb_bucket(1) [of 0 ?ws "log_bytes vals"] nb(1) buck(1) by (simp add: numeral_2_eq_2)
  ultimately show ?thesis
    using w(1,2) ids buck(2) size nf link wr ins nb(1)
    by (simp add: db_insert_def db_of_wdb [of nb vals] wdb_id wdb_num_buckets Let_def del: append_assoc of_nat_add)
qed

lemma db_get_first:
  assumes os: "os_ok os" and ok: "store_ok nb vals" and full: "length vals = nb"
    and len: "16 + 8 * nb + length (enc_hdr h @ v @ rest) < 2 ^ 63"
    and h: "unat (vlen h) = length v" "rnext h = DBID_FREE" and i: "i < 2 ^ 63" "i mod nb = 0"
  shows "db_get os (wdb ((meta_words nb vals)[0 := n]) (enc_hdr h @ v @ rest)) (of_nat i) =
    Some (if of_nat i = rid h then (Some v, Some (vlen h)) else (None, Some 0))"
proof -
  let ?ws = "(meta_words nb vals)[0 := n]" and ?log = "enc_hdr h @ v @ rest"
  note w = lookup_words [OF ok i(1)]
  have nb: "0 < nb" using ok by (simp add: store_ok_def)
  have rd: "map_rd64 (wdb ?ws ?log) 8 = Some (of_nat nb)"
    "map_rd64 (wdb ?ws ?log) 16 = Some (of_nat (16 + 8 * nb))"
    using wdb_num_buckets [of ?ws ?log] wdb_bucket(1) [of 0 ?ws ?log] w nb full i(2)
    by (simp_all add: numeral_2_eq_2)
  have nf: "(of_nat (16 + 8 * nb) :: u64) \<noteq> DBID_FREE" by (rule of_nat_not_free) (use len in simp)
  have "get_loop os (dbfile (wdb ?ws ?log)) (of_nat i) (of_nat (16 + 8 * nb)) =
      Some (if of_nat i = rid h then (Some v, vlen h) else (None, 0))"
    by (rule get_loop_at [OF os, of _ _ _ _ rest])
       (use len h in \<open>auto simp: wdb_def u64.array_length\<close>)
  then show ?thesis
    using w(1,2) i(2) rd nf os by (auto simp: db_get_def os_ok_def simp del: of_nat_add)
qed

section \<open>Properties\<close>

definition good_os :: db_os where
  "good_os = \<lparr>alloc_fails = \<lambda>_. False, junk = \<lambda>_. NUL, lock_init_fails = False, lock_fails = False,
     open_fails = False, ftruncate_fails = False, mmap_fails = False, read_fails = False,
     fstat_fails = False, pread_fails = \<lambda>_ _. False, pwrite_fails = \<lambda>_ _. False,
     pwrite_max = \<lambda>_ n. n\<rparr>"

lemma good_os_ok [simp]: "os_ok good_os"
  by (simp add: os_ok_def alloc_ok_def good_os_def)

text \<open>C3. The database implements an append-only list of pastes: on a new database with \<open>nb\<close>
  buckets, any sequence of insertions and lookups, of at most \<open>nb\<close> insertions, returns what the
  list returns: consecutive ids, the paste of each id, and nothing for an id not yet given.\<close>

theorem db_history:
  assumes "os_ok os" and "open_db os None (of_nat nb) = Some (Some db, fs)"
    and "store_ok nb (snd (abs_run [] ops))" and "\<forall>i. Get i \<in> set ops \<longrightarrow> i < 2 ^ 63"
  shows "fst (conc_run (store_insert os) (store_lookup os) db ops) = fst (abs_run [] ops)"
proof -
  have "16 + 8 * nb < 2 ^ 63" using assms(3) by (simp add: store_ok_def length_image)
  then have "db = db_of nb []" using open_db_fresh [OF assms(1)] assms(2) by simp
  then show ?thesis using pastes.run_refines [OF assms(1) _ assms(3,4)] by blast
qed

theorem db_history_witness:
  "fst (conc_run (store_insert good_os) (store_lookup good_os) (db_of 3 [])
     [Post ''ab'', Get 0, Post ''c'', Get 1, Get 7]) =
   [Posted 0, Got (Some ''ab''), Posted 1, Got (Some ''c''), Got None]"
proof -
  have "open_db good_os None (of_nat 3) = Some (Some (db_of 3 []), Some (image 3 []))"
    by (rule open_db_fresh) simp_all
  then show ?thesis
    using db_history [of good_os 3 "db_of 3 []" "Some (image 3 [])"
      "[Post ''ab'', Get 0, Post ''c'', Get 1, Get 7]"]
    by (auto simp: store_ok_def length_image log_bytes_def)
qed

text \<open>C22. Persistence: closing a database and opening its file again, with whatever number of
  buckets, gives the same database.\<close>

theorem db_reopen:
  assumes "os_ok os" and "store_ok nb vals"
  shows "\<exists>f. close_db (db_of nb vals) = Some f \<and>
     open_db os (Some f) n = Some (Some (db_of nb vals), Some f)"
  using close_db_image [of nb vals] open_db_existing [OF assms] assms(2) by (simp add: store_ok_def)

theorem db_reopen_witness:
  "\<exists>f. close_db (db_of 2 [''x'']) = Some f \<and>
     open_db good_os (Some f) 100000 = Some (Some (db_of 2 [''x'']), Some f)"
  by (rule db_reopen) (simp_all add: store_ok_def length_image log_bytes_def)

text \<open>C35. The insertion that finds its bucket taken returns success, but the link to the new record is
  written over the value of the record already there: the new paste cannot be found, and the first
  eight bytes of paste 0 are replaced by the file offset of the new record.\<close>

theorem db_insert_collision:
  assumes "os_ok os" and "store_ok nb vals" and "length vals = nb" and "8 \<le> length (vals ! 0)"
    and "length v < 2 ^ 32" and "length (image nb vals) + 20 + length v < 2 ^ 63"
  shows "\<exists>db'. db_insert os (db_of nb vals) v (of_nat (length v)) = Some (OK, Some (of_nat nb), db') \<and>
     db_get os db' (of_nat nb) = Some (None, Some 0) \<and>
     (\<exists>n. db_get os db' 0 = Some (Some (enc64 (of_nat (length (image nb vals))) @ drop 8 (vals ! 0)), n))"
proof -
  have nb: "0 < nb" "nb < 2 ^ 63" using assms(2) by (auto simp: store_ok_def length_image)
  obtain rest where log: "log_bytes vals = rec_bytes 0 (vals ! 0) @ rest"
    using log_bytes_Cons [of vals] nb(1) assms(3) by auto
  let ?v0 = "enc64 (of_nat (length (image nb vals))) @ drop 8 (vals ! 0)"
  have "length (vals ! 0) < 2 ^ 32" using assms(2,3) nb(1) by (auto simp: store_ok_def)
  then have v0: "unat (vlen (hdr_of 0 (vals ! 0))) = length ?v0"
    using assms(4) unat_of_nat_32 [of "length (vals ! 0)"] by simp
  have len: "16 + 8 * nb + length (enc_hdr (hdr_of 0 (vals ! 0)) @ ?v0 @ rest @ rec_bytes nb v) < 2 ^ 63"
    using assms(4,6) log by (simp add: length_image rec_hdr.enc_length REC_HDR_SIZE_def)
  note get = db_get_first [OF assms(1-3) len v0]
  have "(of_nat nb :: u64) \<noteq> 0" using nb by (rule of_nat_nonzero)
  then show ?thesis
    using db_insert_full [OF assms(1-5) log] get [of nb] get [of 0] nb by simp
qed

theorem db_insert_collision_witness:
  "\<exists>db'. db_insert good_os (db_of 1 [''abcdefghij'']) ''new'' 3 = Some (OK, Some 1, db') \<and>
     db_get good_os db' 1 = Some (None, Some 0)"
  using db_insert_collision [of good_os 1 "[''abcdefghij'']" "''new''"]
  by (auto simp: store_ok_def length_image log_bytes_def)

text \<open>C36. A failing \<^verbatim>\<open>fstat\<close> is taken for an empty file: the insertion reports success and writes the new
  record over the header of the database.\<close>

theorem db_insert_fstat_failure:
  assumes "os_ok os" and "store_ok nb (vals @ [v])"
  shows "\<exists>db'. db_insert (os\<lparr>fstat_fails := True\<rparr>) (db_of nb vals) v (of_nat (length v)) =
       Some (OK, Some (of_nat (length vals)), db') \<and>
     take (20 + length v) (dbfile db') = rec_bytes (length vals) v"
proof -
  let ?n = "length vals" and ?os = "os\<lparr>fstat_fails := True\<rparr>" and ?ws = "meta_words nb vals"
  note b = store_ok_appendD [OF assms(2)]
  note w = lookup_words [OF b(2) b(6)]
  let ?ws2 = "?ws[0 := of_nat ?n + 1, ?n + 2 := 0]"
  let ?f = "dbfile (wdb ?ws2 (log_bytes vals))"
  have wr: "write_record ?os ?f \<lparr>vlen = of_nat (length v), rid = of_nat ?n, rnext = DBID_FREE\<rparr> 0 v =
      Some (OK, write_at ?f 0 (rec_bytes ?n v))"
    using write_record_at [OF os_ok_writes(2) [OF assms(1)], of 0 v v True ?f ?n] b(3) by simp
  have ids: "?ws ! 0 = of_nat ?n" by (simp add: meta_words_def)
  have "\<not> lock_fails ?os" using assms(1) by (simp add: os_ok_def)
  then have "db_insert ?os (db_of nb vals) v (of_nat (length v)) =
      Some (OK, Some (of_nat ?n), (wdb ?ws2 (log_bytes vals))\<lparr>dbfile := write_at ?f 0 (rec_bytes ?n v)\<rparr>)"
    using w b(1) ids wr
    by (simp add: db_insert_def insert_record_def db_of_wdb [of nb vals] wdb_access Let_def get_file_size_def)
  moreover have "take (20 + length v) (write_at ?f 0 (rec_bytes ?n v)) = rec_bytes ?n v"
    by (simp add: write_at_def)
  ultimately show ?thesis by simp
qed

theorem db_insert_fstat_failure_witness:
  "\<exists>db'. db_insert (good_os\<lparr>fstat_fails := True\<rparr>) (db_of 2 []) ''hi'' 2 = Some (OK, Some 0, db') \<and>
     take 22 (dbfile db') = rec_bytes 0 ''hi''"
  using db_insert_fstat_failure [of good_os 2 "[]" "''hi''"]
  by (simp add: store_ok_def length_image log_bytes_def)

end
