(* ===== verification/Cask_File.thy ===== *)
theory Cask_File
  imports Cask_Prelude
begin

text \<open>
  \<^verbatim>\<open>src/file.h\<close> and \<^verbatim>\<open>src/file.c\<close>: mapping a file into memory.  The results of \<^verbatim>\<open>stat\<close>, \<^verbatim>\<open>open\<close> and \<^verbatim>\<open>mmap\<close>
  are arguments; the resources of the process the functions touch are its open descriptors and the
  number of its mappings.
\<close>

definition FILE_ERROR_NOT_FOUND :: int where "FILE_ERROR_NOT_FOUND = 1"
definition FILE_ERROR_NO_PERM :: int where "FILE_ERROR_NO_PERM = 2"
definition FILE_ERROR_UNKNOWN :: int where "FILE_ERROR_UNKNOWN = 4"

record file_t =
  fsize :: nat
  fdata :: "bytes option"
  ferror :: int

datatype errno = ENOENT | EACCES | Errno_other

record resources =
  open_fds :: "int set"
  mappings :: nat

definition file_error :: "errno \<Rightarrow> int" where
  "file_error e = (case e of ENOENT \<Rightarrow> FILE_ERROR_NOT_FOUND | EACCES \<Rightarrow> FILE_ERROR_NO_PERM
     | Errno_other \<Rightarrow> FILE_ERROR_UNKNOWN)"

definition map_file ::
  "errno + nat \<Rightarrow> errno + int \<Rightarrow> (nat \<Rightarrow> bytes option) \<Rightarrow> resources \<Rightarrow> file_t \<times> resources" where
  "map_file stat_res open_res mmap R =
     (let res = \<lparr>fsize = 0, fdata = None, ferror = 0\<rparr> in
      case stat_res of
        Inl e \<Rightarrow> (res\<lparr>ferror := file_error e\<rparr>, R)
      | Inr st_size \<Rightarrow>
          (case open_res of
             Inl e \<Rightarrow> (res\<lparr>ferror := file_error e\<rparr>, R)
           | Inr fd \<Rightarrow>
               (let R = R\<lparr>open_fds := insert fd (open_fds R)\<rparr> in
                case mmap st_size of
                  None \<Rightarrow> (res\<lparr>ferror := FILE_ERROR_UNKNOWN\<rparr>, R)
                | Some d \<Rightarrow>
                    (res\<lparr>fsize := st_size, fdata := Some d\<rparr>,
                     R\<lparr>mappings := Suc (mappings R), open_fds := open_fds R - {fd}\<rparr>))))"

definition unmap_file :: "file_t \<Rightarrow> resources \<Rightarrow> resources" where
  "unmap_file f R = (if fdata f \<noteq> None then R\<lparr>mappings := mappings R - 1\<rparr> else R)"

text \<open>A file as \<^verbatim>\<open>map_file\<close> returns it: the mapping has the size of the file, or there is none.\<close>

definition file_ok :: "file_t \<Rightarrow> bool" where
  "file_ok f \<longleftrightarrow> (case fdata f of None \<Rightarrow> fsize f = 0 | Some d \<Rightarrow> length d = fsize f)"

lemma map_file_ok:
  "\<forall>n d. mmap n = Some d \<longrightarrow> length d = n \<Longrightarrow> file_ok (fst (map_file st op mmap R))"
  by (auto simp: map_file_def file_ok_def Let_def split: sum.splits option.splits)

text \<open>C31. \<^verbatim>\<open>map_file\<close> and \<^verbatim>\<open>unmap_file\<close> return what they take, and an error code whenever they return no
  data, except for the descriptor when \<^verbatim>\<open>mmap\<close> fails: after mapping and unmapping, the process has the
  mappings it had, and the descriptors it had plus exactly that one.\<close>

theorem map_file_resources:
  assumes "\<forall>fd. op = Inr fd \<longrightarrow> fd \<notin> open_fds R"
  shows "let (f, R') = map_file st op mmap R; R'' = unmap_file f R' in
    (fdata f = None \<longleftrightarrow> ferror f \<noteq> 0) \<and> mappings R'' = mappings R
    \<and> open_fds R'' = (case (st, op) of (Inr n, Inr fd) \<Rightarrow> if mmap n = None then insert fd (open_fds R) else open_fds R
         | _ \<Rightarrow> open_fds R)"
proof -
  have e: "file_error x \<noteq> 0" for x
    by (simp add: file_error_def FILE_ERROR_NOT_FOUND_def FILE_ERROR_NO_PERM_def FILE_ERROR_UNKNOWN_def split: errno.split)
  then show ?thesis using assms
    by (auto simp: map_file_def unmap_file_def Let_def FILE_ERROR_UNKNOWN_def split: sum.splits option.splits)
qed

theorem map_file_resources_witness:
  "let (f, R') = map_file (Inr 0) (Inr 5) (\<lambda>n. None) \<lparr>open_fds = {3}, mappings = 0\<rparr>; R'' = unmap_file f R' in
     ferror f \<noteq> 0 \<and> mappings R'' = 0 \<and> open_fds R'' = {3, 5}"
  using map_file_resources [of "Inr 5" "\<lparr>open_fds = {3}, mappings = 0\<rparr>" "Inr 0" "\<lambda>n. None"]
  by (auto simp: Let_def map_file_def split: prod.splits)

end
