(* ===== verification/Cask_App.thy ===== *)
theory Cask_App
  imports Cask_Loop Cask_Store Cask_File
begin

text \<open>
  The paste service of \<^verbatim>\<open>src/cask.c\<close>: the route callbacks \<^verbatim>\<open>index_callback\<close>, \<^verbatim>\<open>get_callback\<close> and
  \<^verbatim>\<open>post_callback\<close> and the table of routes \<^verbatim>\<open>main\<close> sets up.  The state of a worker is extended by the
  database and the index file, the objects behind the \<^verbatim>\<open>data\<close> pointers of the routes.  The callbacks
  meet the contract \<open>route_client\<close>; a \<^verbatim>\<open>POST\<close> stores its body and answers with the id, a \<^verbatim>\<open>GET\<close> of the id
  answers with the body.
\<close>

section \<open>The callbacks\<close>

record app = worker +
  adb :: db
  afile :: file_t

datatype route_cb = Index_cb | Get_cb | Post_cb

definition index_callback :: "env \<Rightarrow> addr \<Rightarrow> 'a app_scheme \<Rightarrow> 'a app_scheme option" where
  "index_callback os c w =
     (let f = afile w in
      if fsize f \<noteq> 0 then send_response os w c HTTP_STATUS_200 (fdata f) (fsize f)
      else send_response os w c HTTP_STATUS_200 (Some ''Index.'') 6)"

text \<open>The validation loop of \<^verbatim>\<open>get_callback\<close>, from index \<open>i\<close>.\<close>

function valid_uri :: "bytes \<Rightarrow> int \<Rightarrow> int \<Rightarrow> bool option" where
  "valid_uri uri l i =
     (if i < l
      then do { c \<leftarrow> rd uri i;
                if isdigit c then valid_uri uri l (i + 1)
                else Some (c = CHR ''/'' \<and> l > 2 \<and> i = l - 1) }
      else Some True)"
  by auto
termination by (relation "measure (\<lambda>(_, l, i). nat (l - i))") auto

declare valid_uri.simps [simp del]

definition get_callback :: "db_os \<Rightarrow> env \<Rightarrow> addr \<Rightarrow> 'a app_scheme \<Rightarrow> 'a app_scheme option" where
  "get_callback D os c w =
     do { cn \<leftarrow> cmem w c;
          (uri, l) \<leftarrow> get_uri cn;
          ok \<leftarrow> valid_uri uri l 1;
          if \<not> ok then send_response os w c HTTP_STATUS_404 None 0
          else do {
            p \<leftarrow> ptr uri 1;
            i \<leftarrow> strtoull p;
            (entry, entry_len) \<leftarrow> db_get D (adb w) i;
            (case entry of
               Some e \<Rightarrow> do { n \<leftarrow> entry_len; send_response os w c HTTP_STATUS_200 (Some e) (unat n) }
             | None \<Rightarrow> send_response os w c HTTP_STATUS_404 (Some ''Paste not found'') 15) } }"

definition post_callback :: "db_os \<Rightarrow> env \<Rightarrow> addr \<Rightarrow> 'a app_scheme \<Rightarrow> 'a app_scheme option" where
  "post_callback D os c w =
     do { cn \<leftarrow> cmem w c;
          (body, l) \<leftarrow> get_body cn;
          if l = 0 then send_response os w c HTTP_STATUS_400 (Some ''Error: Zero length paste'') 24
          else do {
            (ret, i, db) \<leftarrow> db_insert D (adb w) body (of_int l);
            let w = w\<lparr>adb := db\<rparr>;
            if ret \<noteq> OK then send_response os w c HTTP_STATUS_500 None 0
            else do {
              i \<leftarrow> i;
              let (n, tmp) = snprintf 20 (print_nat (unat i));
              send_response os w c HTTP_STATUS_200 (Some tmp) (nat n) } } }"

definition call_route :: "db_os \<Rightarrow> env \<Rightarrow> route_cb \<Rightarrow> addr \<Rightarrow> 'a app_scheme \<Rightarrow> 'a app_scheme option" where
  "call_route D os cb c w =
     (case cb of Index_cb \<Rightarrow> index_callback os c w | Get_cb \<Rightarrow> get_callback D os c w
      | Post_cb \<Rightarrow> post_callback D os c w)"

text \<open>The routes of \<^verbatim>\<open>main\<close>.\<close>

definition setup_routes :: "'b alloc_scheme \<Rightarrow> route_cb routes option" where
  "setup_routes A =
     do { rs \<leftarrow> add_route A None HTTP_METHOD_GET ROUTE_MATCH_EXACT (cstr ''/'') Index_cb;
          rs \<leftarrow> add_route A rs HTTP_METHOD_GET ROUTE_MATCH_PREFIX (cstr ''/'') Get_cb;
          add_route A rs HTTP_METHOD_POST ROUTE_MATCH_EXACT (cstr ''/'') Post_cb }"

section \<open>The callbacks settle\<close>

text \<open>Whatever is pushed, a buffer that comes back is sound.\<close>

lemma push_bytes_keeps:
  assumes "push_bytes b x n = Some (ret, b')" "buffer_ok b"
  shows "buffer_ok b'"
proof -
  obtain d d' where d: "bdata b = Some d" "memcpy d (bsize b) x n = Some d'"
    "b' = b\<lparr>bdata := Some d', bsize := size_add (bsize b) n\<rparr>"
    using assms(1) by (auto simp: push_bytes_def bind_eq_Some_conv)
  have m: "bsize b + n \<le> length d" "length d' = length d" "length d = bcap b" "bcap b < 2 ^ 64"
    using d assms(2) by (auto simp: memcpy_def buffer_ok_def split: if_splits)
  then have "size_add (bsize b) n = bsize b + n" by simp
  then show ?thesis using d(3) m by (simp add: buffer_ok_def)
qed

lemma push_buffer_keeps:
  assumes "push_buffer A b x n = Some (ret, b')" "buffer_ok b"
  shows "buffer_ok b'"
proof (cases "size_add (bsize b) n > bcap b")
  case True
  have N: "0 < size_add (bsize b) n" "size_add (bsize b) n < 2 ^ 64" using True by (auto simp: size_add_def)
  obtain r b1 where b1: "resize_buffer A b (size_add (bsize b) n) = (r, b1)" by fastforce
  have "buffer_ok b1" using resize_buffer_ok [OF b1 assms(2) N] by blast
  then show ?thesis using assms(1) True b1 push_bytes_keeps [of b1]
    by (auto simp: push_buffer_def split: if_splits)
next
  case False
  then show ?thesis using assms push_bytes_keeps by (auto simp: push_buffer_def)
qed

lemma push_line_keeps: "push_line A s b = Some b' \<Longrightarrow> buffer_ok b \<Longrightarrow> buffer_ok b'"
  by (auto simp: push_line_def snprintf_def bind_eq_Some_conv dest: push_buffer_keeps)

lemma push_lines_keep: "push_lines A ss b = Some b' \<Longrightarrow> buffer_ok b \<Longrightarrow> buffer_ok b'"
  by (induction ss arbitrary: b) (auto simp: bind_eq_Some_conv dest: push_line_keeps)

lemma response_buffer_keeps:
  assumes r: "response_buffer A cn st body n = Some b" and ok: "buffer_ok (cbuffer cn)"
  shows "buffer_ok b"
proof -
  have v: "rversion (req cn) \<noteq> HTTP_VERSION_UNKNOWN" "st \<noteq> HTTP_STATUS_UNKNOWN"
    using r by (auto simp: response_buffer_def table_str_def g_http_versions_def g_http_statuses_def bind_eq_Some_conv)
  show ?thesis using r ok unfolding response_buffer_lines [OF v]
    by (auto simp: bind_eq_Some_conv split: if_splits dest!: push_lines_keep dest: push_buffer_keeps)
qed

lemma response_settles:
  assumes sane: "send_sane os" and h: "handling w cs t c" and few: "length cs \<le> 2"
    and r: "send_response os w c st body n = Some w'"
  shows "settled w cs c w'"
proof -
  obtain cn where cn: "cmem w c = Some cn" "buffer_ok (cbuffer cn)"
    by (rule worker_ok_conn [OF handlingD(1,2) [OF h]])
  obtain b where b: "response_buffer os cn st body n = Some b" "begin_send os (set_conn w c (cn\<lparr>cbuffer := b\<rparr>)) c = Some w'"
    using r cn(1) by (auto simp: send_response_def bind_eq_Some_conv)
  let ?w = "set_conn w c (cn\<lparr>cbuffer := b\<rparr>)"
  have "handling ?w cs t c"
    by (rule touched_handling [where cn' = "cn\<lparr>cbuffer := b\<rparr>", OF h _ cn(1)])
      (use response_buffer_keeps [OF b(1) cn(2)] in simp_all)
  moreover have "conn_frame w c ?w"
    by (rule touched_frame [where cn' = "cn\<lparr>cbuffer := b\<rparr>", OF _ cn(1)]) simp_all
  ultimately show ?thesis
    by (metis begin_send_settled [OF sane _ few] b(2) option.inject settled_trans)
qed

lemma response_prefix:
  "send_response os w c st (Some (x @ y)) (length x) = send_response os w c st (Some x) (length x)"
  by (simp add: send_response_def response_buffer_def push_buffer_prefix cong: if_cong)

text \<open>The id as \<^verbatim>\<open>post_callback\<close> sends it: an id of twenty digits does not fit the array.\<close>

definition id_text :: "u64 \<Rightarrow> bytes" where
  "id_text i = (let s = print_nat (unat i) in if length s < 20 then s else take 19 s @ [NUL])"

lemma unat_u64_less: "unat (i :: u64) < 2 ^ 64" and unat_u32_less: "unat (j :: u32) < 2 ^ 63"
  using unsigned_less [of i, where ?'a = nat] unsigned_less [of j, where ?'a = nat] by simp_all

lemma length_id_text: "length (id_text i) = length (print_nat (unat i))"
proof -
  have "length (print_nat (unat i)) \<le> 20" by (rule print_nat_short) (rule unat_u64_less)
  then show ?thesis by (auto simp: id_text_def Let_def)
qed

lemma send_id:
  "send_response os w c st (Some (take 19 (print_nat (unat i)) @ [NUL])) (length (print_nat (unat i)))
   = send_response os w c st (Some (id_text i)) (length (id_text i))"
proof (cases "length (print_nat (unat i)) < 20")
  case True
  then have "take 19 (print_nat (unat i)) = print_nat (unat i)" "id_text i = print_nat (unat i)"
    by (simp_all add: id_text_def)
  then show ?thesis using response_prefix [of os w c st "print_nat (unat i)" "[NUL]"] by simp
next
  case False
  then show ?thesis using length_id_text [of i] by (simp add: id_text_def Let_def)
qed

lemma id_text_short: "length (id_text i) \<le> 20"
  unfolding length_id_text by (rule print_nat_short [OF unat_u64_less])

text \<open>The database is no part of what a worker's connections rest on.\<close>

lemma handling_db:
  assumes h: "handling w cs t c"
  shows "handling (w\<lparr>adb := d\<rparr>) cs t c"
proof -
  obtain cn where cn: "cmem w c = Some cn" "buffer_ok (cbuffer cn)"
    by (rule worker_ok_conn [OF handlingD(1,2) [OF h]])
  then show ?thesis
    by (intro touched_handling [where cn' = cn, OF h _ cn(1)]) (auto simp: touched_def)
qed

interpretation paste: route_client "call_route D" for D
proof
  fix os cs t c cb and w w' :: "'a app_scheme"
  assume A: "send_sane os" "handling w cs t c" "length cs \<le> 2" and r: "call_route D os cb c w = Some w'"
  note S = response_settles [OF A] response_settles [OF A(1) handling_db [OF A(2)] A(3)]
  have db: "settled (w\<lparr>adb := d\<rparr>) cs c w' \<Longrightarrow> settled w cs c w'" for d
    using settled_trans [of w c "w\<lparr>adb := d\<rparr>"] by (simp add: conn_frame_def fd_of_def fun_eq_iff)
  show "settled w cs c w'"
  proof (cases cb)
    case Index_cb
    then show ?thesis using r S(1) by (auto simp: call_route_def index_callback_def Let_def split: if_splits)
  next
    case Get_cb
    then show ?thesis using r S(1)
      by (auto simp: call_route_def get_callback_def bind_eq_Some_conv split: if_splits option.splits)
  next
    case Post_cb
    then show ?thesis using r S(1) db [OF S(2)]
      by (auto simp: call_route_def post_callback_def Let_def snprintf_def bind_eq_Some_conv split: if_splits)
  qed
qed

end
