(* ===== verification/Cask_Paste.thy ===== *)
theory Cask_Paste
  imports Cask_App
begin

text \<open>
  The service end to end: from the bytes a client sends to the bytes it gets back.  The request may
  arrive in any chunks; the database is the list of pastes of \<open>Cask_Store\<close>.
\<close>

section \<open>The routes\<close>

definition paste_routes :: "route_cb route list" where
  "paste_routes =
     [literal_route HTTP_METHOD_GET ROUTE_MATCH_EXACT ''/'' Index_cb,
      literal_route HTTP_METHOD_GET ROUTE_MATCH_PREFIX ''/'' Get_cb,
      literal_route HTTP_METHOD_POST ROUTE_MATCH_EXACT ''/'' Post_cb]"

lemma setup_routes_ok:
  assumes A: "alloc_ok A"
  obtains rs where "setup_routes A = Some rs" "arr_ok ROUTE_SIZE rs paste_routes"
proof -
  let ?r1 = "literal_route HTTP_METHOD_GET ROUTE_MATCH_EXACT ''/'' Index_cb"
  let ?r2 = "literal_route HTTP_METHOD_GET ROUTE_MATCH_PREFIX ''/'' Get_cb"
  let ?r3 = "literal_route HTTP_METHOD_POST ROUTE_MATCH_EXACT ''/'' Post_cb"
  have 0: "arr_ok ROUTE_SIZE None []" by (simp add: arr_ok_def)
  obtain a1 where a1: "array_push_back A ROUTE_SIZE None ?r1 = Some a1" "arr_ok ROUTE_SIZE a1 ([] @ [?r1])"
    by (rule array_push_back_ok [OF 0 _ _ A]) (simp_all add: fits_def ROUTE_SIZE_def HEADER_SIZE_def)
  obtain a2 where a2: "array_push_back A ROUTE_SIZE a1 ?r2 = Some a2" "arr_ok ROUTE_SIZE a2 (([] @ [?r1]) @ [?r2])"
    by (rule array_push_back_ok [OF a1(2) _ _ A]) (simp_all add: fits_def ROUTE_SIZE_def HEADER_SIZE_def)
  obtain a3 where a3: "array_push_back A ROUTE_SIZE a2 ?r3 = Some a3" "arr_ok ROUTE_SIZE a3 ((([] @ [?r1]) @ [?r2]) @ [?r3])"
    by (rule array_push_back_ok [OF a2(2) _ _ A]) (simp_all add: fits_def ROUTE_SIZE_def HEADER_SIZE_def)
  have "setup_routes A = Some a3"
    using a1(1) a2(1) a3(1) by (simp add: setup_routes_def add_route_literal)
  then show thesis using that a3(2) by (simp add: paste_routes_def)
qed

lemma paste_route:
  assumes a: "arr_ok ROUTE_SIZE rs paste_routes"
  shows "match_route rs m (CHR ''/'' # x) l = Some
    (if m = HTTP_METHOD_GET then Some (literal_route HTTP_METHOD_GET (if l = 1 then ROUTE_MATCH_EXACT else ROUTE_MATCH_PREFIX) ''/''
        (if l = 1 then Index_cb else Get_cb))
     else if m = HTTP_METHOD_POST \<and> l = 1 then Some (literal_route HTTP_METHOD_POST ROUTE_MATCH_EXACT ''/'' Post_cb)
     else None)"
proof -
  have "\<forall>r\<in>set paste_routes. route_ok (CHR ''/'' # x) r" by (simp add: paste_routes_def literal_route_ok)
  from match_route_chosen [OF a this] show ?thesis
    by (auto simp: paste_routes_def chosen_simps exact_hit_def prefix_hit_def better_def literal_route_def rt_text_def cstr_def)
qed

section \<open>A parsed request in memory\<close>

lemma parsed_uri:
  assumes p: "parsed_as m uri v hs body cn" and b: "buffer_ok (cbuffer cn)"
    and c: "contents (cbuffer cn) = render_request m uri v hs body"
  obtains rest where "ptr (mem_of (bdata (cbuffer cn))) (off (ruri (req cn))) = Some (uri @ SP # rest)"
    "len (ruri (req cn)) = int (length uri)"
proof -
  let ?d = "mem_of (bdata (cbuffer cn))"
  obtain rest where d: "?d = (method_name m @ [SP]) @ uri @ SP # rest"
    using c append_take_drop_id [of "bsize (cbuffer cn)" ?d]
    by (simp add: contents_def render_request_def render_head_def render_line_def) (metis append.assoc append_Cons)
  have o: "off (ruri (req cn)) = int (length (method_name m @ [SP]))" and r: "in_range ?d (ruri (req cn))"
    and s: "slice ?d (ruri (req cn)) = uri"
    using p by (simp_all add: parsed_as_def head_parsed_def Let_def)
  have "length (slice ?d (ruri (req cn))) = nat (len (ruri (req cn)))"
    using r by (auto simp: slice_def in_range_def min_def)
  then have "len (ruri (req cn)) = int (length uri)" using s r by (simp add: in_range_def)
  moreover have "ptr ?d (off (ruri (req cn))) = Some (uri @ SP # rest)"
    unfolding o d by (simp add: ptr_def nat_add_distrib)
  ultimately show thesis using that by blast
qed

lemma parsed_body:
  assumes p: "parsed_as m uri v hs body cn" and b: "buffer_ok (cbuffer cn)"
    and c: "contents (cbuffer cn) = render_request m uri v hs body" and ne: "body \<noteq> []"
  obtains rest where "get_body cn = Some (body @ rest, int (length body))"
proof -
  let ?d = "mem_of (bdata (cbuffer cn))"
  have d: "?d = render_head m uri v hs @ body @ drop (bsize (cbuffer cn)) ?d"
    using c append_take_drop_id [of "bsize (cbuffer cn)" ?d]
    by (metis append.assoc contents_def render_request_def)
  have "off (rbody (req cn)) = int (length (render_head m uri v hs))" "len (rbody (req cn)) = int (length body)"
    using p ne by (simp_all add: parsed_as_def head_parsed_def Let_def)
  then have "get_body cn = Some (body @ drop (bsize (cbuffer cn)) ?d, int (length body))"
    using d by (simp add: get_body_def ptr_def) (metis append_eq_conv_conj length_append le_add1)
  then show thesis using that by blast
qed

section \<open>From the wire to the callback\<close>

lemma app_more:
  fixes w w' :: "'a app_scheme"
  assumes "worker.more w' = worker.more w"
  shows "adb w' = adb w" "afile w' = afile w"
  using assms by (cases w rule: app.cases_scheme; cases w' rule: app.cases_scheme; simp)+

text \<open>A connection that waits for a request, and whether it is kept after a request of version \<open>v\<close>.\<close>

definition idle_conn :: "'a worker_scheme \<Rightarrow> addr \<Rightarrow> bool" where
  "idle_conn w c \<longleftrightarrow> (\<exists>cn. cmem w c = Some cn \<and> cstate cn = CONNECTION_STATE_IN \<and> req cn = request0
     \<and> contents (cbuffer cn) = [])"

definition kept :: "'a worker_scheme \<Rightarrow> addr \<Rightarrow> http_version \<Rightarrow> bool" where
  "kept w c v \<longleftrightarrow> v = HTTP_VERSION_11 \<or> has_flag (cflags (the (cmem w c))) CONNECTION_FLAG_KEEPALIVE"

text \<open>The client of \<open>c\<close> has sent a request, in chunks \<open>xs\<close>.\<close>

definition sends ::
  "env \<Rightarrow> 'a worker_scheme \<Rightarrow> addr \<Rightarrow> bytes list \<Rightarrow> http_method \<Rightarrow> bytes \<Rightarrow> http_version \<Rightarrow> (bytes \<times> bytes) list \<Rightarrow> bytes \<Rightarrow> bool" where
  "sends os w c xs m uri v hs body \<longleftrightarrow>
     idle_conn w c \<and> delivers os (calls w) xs \<and> concat xs = render_request m uri v hs body
     \<and> length (concat xs) < 2 ^ 31 \<and> head_ok m uri v hs \<and> announces hs (int (length body))"

lemma has_flag_keep [simp]: "has_flag (x OR 1) 1"
  using and_exp_eq_0_iff_not_bit [of "x OR 1" 0] by (simp add: has_flag_def bit_simps)

lemma request_dispatched:
  assumes os: "os_good os" and r: "ready w cs t" "c \<in> set cs" and s: "sends os w c xs m uri v hs body"
    and ev: "has_flag ev EPOLLIN"
  obtains cn w1 where "io_callback os rts call ev c w = dispatch os rts call w1 c" "ready w1 cs t"
    "cmem w1 c = Some cn" "parsed_as m uri v hs body cn" "buffer_ok (cbuffer cn)"
    "contents (cbuffer cn) = render_request m uri v hs body"
    "has_flag (cflags cn) CONNECTION_FLAG_KEEPALIVE = kept w c v" "rversion (req cn) = v" "rmethod (req cn) = m"
    "\<forall>cs text keep w'. answered w1 cs c text keep w' \<longrightarrow> answered w cs c text keep w'"
    "worker.more w1 = worker.more w"
proof -
  obtain cn where cn: "cmem w c = Some cn" "cstate cn = CONNECTION_STATE_IN" "req cn = request0" "contents (cbuffer cn) = []"
    using s by (auto simp: sends_def idle_conn_def)
  have b: "buffer_ok (cbuffer cn)" "write_bytes cn \<le> bsize (cbuffer cn)" using ready_conn [OF r] cn(1) by fastforce+
  have sz: "bsize (cbuffer cn) = 0" using length_contents [OF b(1)] cn(4) by simp
  have x: "delivers os (calls w) xs" "concat xs = render_request m uri v hs body" "length (concat xs) < 2 ^ 31"
    "head_ok m uri v hs" "announces hs (int (length body))" using s by (auto simp: sends_def)
  have A: "alloc_ok os" using os by (simp add: os_good_def)
  have room: "bsize (cbuffer cn) + length (concat xs) + READ_CHUNK < 2 ^ 64"
    using sz x(3) by (simp add: READ_CHUNK_def)
  obtain bf where bf: "buffer_ok bf" "contents bf = render_request m uri v hs body"
    and rd: "read_data os rts call w c =
      do { (r, cn') \<leftarrow> parse_request (cn\<lparr>cbuffer := bf\<rparr>);
           let w' = set_conn (w\<lparr>calls := calls w + length xs + 1\<rparr>) c cn';
           if r = REQ_OK then dispatch os rts call w' c
           else if r = REQ_ERR then close_connection os w' c
           else read_data os rts call w' c }"
    using read_data_gathers [OF A cn(1) b(1) x(1) room, of rts call] cn(4) x(2) by auto
  have bs: "bsize bf < 2 ^ 31" using x(2,3) length_contents [OF bf(1)] bf(2) by simp
  obtain cn' where p: "parse_request (cn\<lparr>cbuffer := bf\<rparr>) = Some (REQ_OK, cn')" "parsed_as m uri v hs body cn'"
    "cbuffer cn' = bf" "cflags cn' = (if v = HTTP_VERSION_11 then cflags cn OR CONNECTION_FLAG_KEEPALIVE else cflags cn)"
    using parse_rendered [of "cn\<lparr>cbuffer := bf\<rparr>" m uri v hs body] bf bs cn(3) x(4,5) by auto
  let ?w1 = "set_conn (w\<lparr>calls := calls w + length xs + 1\<rparr>) c cn'"
  have f: "cfd cn' = cfd cn" "cstate cn' = cstate cn" "write_bytes cn' = write_bytes cn"
    by (subst parse_request_frame [OF p(1)], simp)+
  have to: "touched w c cn' ?w1" by (simp add: touched_def set_conn_def)
  have rdy: "ready ?w1 cs t"
    by (rule touched_ready [OF r to cn(1)]) (use f bf(1) p(3) b(2) sz in simp_all)
  have eq: "io_callback os rts call ev c w = dispatch os rts call ?w1 c"
    using cn(1,2) ev rd p(1) by (simp add: io_callback_def)
  have fd: "fd_of ?w1 c = fd_of w c" using f(1) cn(1) by (simp add: fd_of_def)
  have ans: "\<forall>cs text keep w'. answered ?w1 cs c text keep w' \<longrightarrow> answered w cs c text keep w'"
    unfolding answered_def fd by auto
  show thesis
    by (rule that [OF eq rdy _ p(2) _ _ _ _ _ ans])
      (use p bf cn(1) in \<open>auto simp: kept_def parsed_as_def head_parsed_def Let_def\<close>)
qed

section \<open>The digits of an id\<close>

lemma valid_uri_digits:
  assumes "\<forall>d\<in>set ds. isdigit d" "int (length pre) = i"
  shows "valid_uri (pre @ ds @ x) (i + int (length ds)) i = Some True"
  using assms
proof (induction ds arbitrary: pre i)
  case Nil
  then show ?case by (simp add: valid_uri.simps)
next
  case (Cons d ds)
  have "rd (pre @ (d # ds) @ x) i = Some d" using Cons.prems(2) rd_nat [of "length pre" "pre @ (d # ds) @ x"] by simp
  moreover have "valid_uri ((pre @ [d]) @ ds @ x) (i + 1 + int (length ds)) (i + 1) = Some True"
    by (rule Cons.IH) (use Cons.prems in auto)
  ultimately show ?case using Cons.prems(1)
    by (subst valid_uri.simps) (simp add: algebra_simps)
qed

lemma id_text_small: "n < 2 ^ 63 \<Longrightarrow> id_text (of_nat n) = print_nat n"
proof -
  assume n: "n < 2 ^ 63"
  have "length (print_nat n) \<le> 19" by (rule length_print_nat_le) (use n in simp_all)
  moreover have "unat (of_nat n :: u64) = n" by (rule unat_of_nat_64) (use n in simp)
  ultimately show ?thesis by (simp add: id_text_def)
qed

section \<open>Serving a request\<close>

text \<open>The sizes of the responses are far below the address space.\<close>

lemma response_room:
  assumes "v \<noteq> HTTP_VERSION_UNKNOWN" "length body < 2 ^ 63"
  shows "length (response_text v st keep body) < 2 ^ 64"
proof -
  let ?ls = "response_lines v st keep (length body)"
  have n: "length body < 2 ^ 64" using assms(2) by simp
  have "length (concat ?ls) \<le> length ?ls * 128"
    unfolding length_concat using sum_list_mono [of ?ls length "\<lambda>_. 128"] response_lines_fit [OF n assms(1)]
    by (simp add: sum_list_triv less_imp_le)
  also have "\<dots> \<le> 512" by (simp add: response_lines_def)
  finally show ?thesis using assms(2) by (simp add: response_text_def)
qed

lemma callback_answers:
  assumes os: "os_good os" and r: "ready w cs t" "c \<in> set cs" and few: "length cs \<le> 2"
    and cn: "cmem w c = Some cn" "rversion (req cn) = v" "v \<noteq> HTTP_VERSION_UNKNOWN"
      "has_flag (cflags cn) CONNECTION_FLAG_KEEPALIVE = keep"
    and st: "st \<noteq> HTTP_STATUS_UNKNOWN" and body: "length body < 2 ^ 63"
  obtains w' where "send_response os w c st (Some body) (length body) = Some w'"
    "answered w cs c (response_text v st keep body) keep w'" "worker.more w' = worker.more w"
  by (rule send_response_answered [OF os ready_handling [OF r] few cn(1) _ st, of "length body" "Some body" keep])
    (use cn body response_room [OF cn(3) body] in \<open>simp_all\<close>)

lemma dispatch_route:
  assumes a: "arr_ok ROUTE_SIZE rts paste_routes" and cn: "cmem w c = Some cn"
    and u: "ptr (mem_of (bdata (cbuffer cn))) (off (ruri (req cn))) = Some (uri @ SP # rest)"
      "len (ruri (req cn)) = int (length uri)" "uri = CHR ''/'' # x" "length uri < 2 ^ 64"
  shows "dispatch os rts call w c =
    (if rmethod (req cn) = HTTP_METHOD_GET then call (if x = [] then Index_cb else Get_cb) c w
     else if rmethod (req cn) = HTTP_METHOD_POST \<and> x = [] then call Post_cb c w else route_404 os w c)"
proof -
  have l: "nat (int (length uri) mod 2 ^ 64) = length uri" using u(4) by simp
  show ?thesis
    unfolding dispatch_def cn Option.bind.bind_lunit u(1) u(2) l
    unfolding u(3) append_Cons paste_route [OF a] by (simp add: literal_route_def)
qed

lemma answered_db:
  "answered (w\<lparr>adb := d\<rparr>) cs c text keep w' = answered w cs c text keep w'"
  by (simp add: answered_def fd_of_def)

lemma ready_db: "ready w cs t \<Longrightarrow> ready (w\<lparr>adb := d\<rparr>) cs t"
proof -
  assume r: "ready w cs t"
  have e: "get_timer (w\<lparr>adb := d\<rparr>) = get_timer w" "fd_of (w\<lparr>adb := d\<rparr>) = fd_of w"
    by (auto simp: get_timer_def fd_of_def)
  show ?thesis using r timers_ok_cong [of "w\<lparr>adb := d\<rparr>" w]
    by (simp add: ready_def worker_ok_def conn_sound_def conn_ready_def e)
qed

lemma request_short:
  assumes "sends os w c xs m uri v hs body"
  shows "length uri < 2 ^ 31" "length body < 2 ^ 31" "v \<noteq> HTTP_VERSION_UNKNOWN"
proof -
  have "length uri + length body \<le> length (concat xs)"
    using assms by (simp add: sends_def render_request_def render_head_def render_line_def)
  then show "length uri < 2 ^ 31" "length body < 2 ^ 31" "v \<noteq> HTTP_VERSION_UNKNOWN"
    using assms by (auto simp: sends_def head_ok_def)
qed

theorem post_served:
  assumes os: "os_good os" and r: "ready w cs t" "c \<in> set cs" and few: "length cs \<le> 2"
    and s: "sends os w c xs HTTP_METHOD_POST ''/'' v hs body" and ev: "has_flag ev EPOLLIN"
    and a: "arr_ok ROUTE_SIZE rts paste_routes" and D: "os_ok D"
    and db: "adb w = db_of nb vals" "store_ok nb (vals @ [body])" and ne: "body \<noteq> []"
  obtains w' where "io_callback os rts (call_route D os) ev c w = Some w'" "adb w' = db_of nb (vals @ [body])"
    "afile w' = afile w"
    "answered w cs c (response_text v HTTP_STATUS_200 (kept w c v) (print_nat (length vals))) (kept w c v) w'"
proof -
  note sh = request_short [OF s]
  obtain cn w1 where q: "io_callback os rts (call_route D os) ev c w = dispatch os rts (call_route D os) w1 c"
    "ready w1 cs t" "cmem w1 c = Some cn" "parsed_as HTTP_METHOD_POST ''/'' v hs body cn" "buffer_ok (cbuffer cn)"
    "contents (cbuffer cn) = render_request HTTP_METHOD_POST ''/'' v hs body"
    "has_flag (cflags cn) CONNECTION_FLAG_KEEPALIVE = kept w c v" "rversion (req cn) = v" "rmethod (req cn) = HTTP_METHOD_POST"
    "\<forall>cs text keep w'. answered w1 cs c text keep w' \<longrightarrow> answered w cs c text keep w'" "worker.more w1 = worker.more w"
    by (rule request_dispatched [OF os r s ev])
  obtain rest where u: "ptr (mem_of (bdata (cbuffer cn))) (off (ruri (req cn))) = Some (''/'' @ SP # rest)"
    "len (ruri (req cn)) = int (length ''/'')"
    by (rule parsed_uri [OF q(4-6)])
  have d: "dispatch os rts (call_route D os) w1 c = post_callback D os c w1"
    using dispatch_route [OF a q(3) u refl] q(9) by (simp add: call_route_def)
  obtain rest2 where b: "get_body cn = Some (body @ rest2, int (length body))" by (rule parsed_body [OF q(4-6) ne])
  have ins: "db_insert D (adb w1) (body @ rest2) (of_nat (length body)) =
      Some (OK, Some (of_nat (length vals)), db_of nb (vals @ [body]))"
    using db_insert_free [OF D db(2), of "body @ rest2"] app_more(1) [OF q(11)] db(1) by simp
  let ?w2 = "w1\<lparr>adb := db_of nb (vals @ [body])\<rparr>"
  have nv: "length vals < 2 ^ 63" using store_ok_appendD [OF db(2)] by simp
  have idt: "id_text (of_nat (length vals)) = print_nat (length vals)" by (rule id_text_small [OF nv])
  have pb: "length (print_nat (length vals)) < 2 ^ 63" using print_nat_short [of "length vals"] nv by simp
  obtain w' where w': "send_response os ?w2 c HTTP_STATUS_200 (Some (print_nat (length vals))) (length (print_nat (length vals))) = Some w'"
    "answered ?w2 cs c (response_text v HTTP_STATUS_200 (kept w c v) (print_nat (length vals))) (kept w c v) w'"
    "worker.more w' = worker.more ?w2"
    by (rule callback_answers [OF os ready_db [OF q(2)] r(2) few _ q(8) sh(3) q(7) http_status.distinct(7) pb])
      (use q(3) in simp)
  have "post_callback D os c w1 = Some w'"
    using q(3) b ins ne w'(1) send_id [of os ?w2 c HTTP_STATUS_200 "of_nat (length vals)"] idt
    unfolding post_callback_def by (simp add: snprintf_def Let_def)
  moreover have "adb w' = db_of nb (vals @ [body])" "afile w' = afile w"
    using app_more [OF w'(3)] app_more(2) [OF q(11)] by simp_all
  ultimately show thesis using that [of w'] q(1,10) d w'(2) answered_db by metis
qed

text \<open>The answer to \<^verbatim>\<open>GET /i\<close>.\<close>

definition get_answer :: "bytes list \<Rightarrow> nat \<Rightarrow> http_status \<times> bytes" where
  "get_answer vals i = (if i < length vals then (HTTP_STATUS_200, vals ! i) else (HTTP_STATUS_404, ''Paste not found''))"

theorem get_served:
  assumes os: "os_good os" and r: "ready w cs t" "c \<in> set cs" and few: "length cs \<le> 2"
    and s: "sends os w c xs HTTP_METHOD_GET (CHR ''/'' # print_nat i) v hs body" and ev: "has_flag ev EPOLLIN"
    and a: "arr_ok ROUTE_SIZE rts paste_routes" and D: "os_ok D"
    and db: "adb w = db_of nb vals" "store_ok nb vals" and i: "i < 2 ^ 63"
  obtains w' where "io_callback os rts (call_route D os) ev c w = Some w'" "worker.more w' = worker.more w"
    "answered w cs c (response_text v (fst (get_answer vals i)) (kept w c v) (snd (get_answer vals i))) (kept w c v) w'"
proof -
  let ?uri = "CHR ''/'' # print_nat i"
  note sh = request_short [OF s]
  obtain cn w1 where q: "io_callback os rts (call_route D os) ev c w = dispatch os rts (call_route D os) w1 c"
    "ready w1 cs t" "cmem w1 c = Some cn" "parsed_as HTTP_METHOD_GET ?uri v hs body cn" "buffer_ok (cbuffer cn)"
    "contents (cbuffer cn) = render_request HTTP_METHOD_GET ?uri v hs body"
    "has_flag (cflags cn) CONNECTION_FLAG_KEEPALIVE = kept w c v" "rversion (req cn) = v" "rmethod (req cn) = HTTP_METHOD_GET"
    "\<forall>cs text keep w'. answered w1 cs c text keep w' \<longrightarrow> answered w cs c text keep w'" "worker.more w1 = worker.more w"
    by (rule request_dispatched [OF os r s ev])
  obtain rest where u: "ptr (mem_of (bdata (cbuffer cn))) (off (ruri (req cn))) = Some (?uri @ SP # rest)"
    "len (ruri (req cn)) = int (length ?uri)"
    by (rule parsed_uri [OF q(4-6)])
  have d: "dispatch os rts (call_route D os) w1 c = get_callback D os c w1"
    using dispatch_route [OF a q(3) u refl] q(9) sh(1) by (simp add: call_route_def)
  have vu: "valid_uri (?uri @ SP # rest) (int (length ?uri)) 1 = Some True"
    using valid_uri_digits [of "print_nat i" "''/''" 1 "SP # rest"] isdigit_print_nat by simp
  have ui: "unat (of_nat i :: u64) = i" by (rule unat_of_nat_64) (use i in simp)
  have sp: "\<not> isdigit SP" by (simp add: isdigit_def)
  have num: "strtoull (print_nat i @ SP # rest) = Some (of_nat i)"
    using strtoull_print_nat [OF sp, of "of_nat i" rest] ui by simp
  have p1: "ptr (?uri @ SP # rest) 1 = Some (print_nat i @ SP # rest)" by (simp add: ptr_def)
  have dg: "db_get D (adb w1) (of_nat i) =
     Some (if i < length vals then (Some (vals ! i), Some (of_nat (length (vals ! i)))) else (None, Some 0))"
    using db_get_image [OF D db(2) i] app_more(1) [OF q(11)] db(1) by simp
  have vl: "length (vals ! i) < 2 ^ 32" if "i < length vals" using db(2) that by (auto simp: store_ok_def)
  have lb: "length (snd (get_answer vals i)) < 2 ^ 63" using vl by (auto simp: get_answer_def)
  have stn: "fst (get_answer vals i) \<noteq> HTTP_STATUS_UNKNOWN" by (simp add: get_answer_def)
  obtain w' where w': "send_response os w1 c (fst (get_answer vals i)) (Some (snd (get_answer vals i)))
      (length (snd (get_answer vals i))) = Some w'"
    "answered w1 cs c (response_text v (fst (get_answer vals i)) (kept w c v) (snd (get_answer vals i))) (kept w c v) w'"
    "worker.more w' = worker.more w1"
    by (rule callback_answers [OF os q(2) r(2) few q(3) q(8) sh(3) q(7) stn lb])
  have pre: "get_callback D os c w1 =
    (if i < length vals then send_response os w1 c HTTP_STATUS_200 (Some (vals ! i)) (length (vals ! i))
     else send_response os w1 c HTTP_STATUS_404 (Some ''Paste not found'') 15)"
    using q(3) u vu p1 num dg vl unat_of_nat_32 [of "length (vals ! i)"]
    unfolding get_callback_def get_uri_def by auto
  have l15: "length ''Paste not found'' = 15" by simp
  have "get_callback D os c w1 = Some w'"
  proof (cases "i < length vals")
    case True
    then show ?thesis using pre w'(1) by (simp add: get_answer_def)
  next
    case False
    then show ?thesis using pre w'(1) by (simp only: get_answer_def fst_conv snd_conv if_False l15)
  qed
  then show thesis using that [of w'] q(1,10,11) d w'(2,3) by metis
qed

end
