(* ===== verification/Cask_Main.thy ===== *)
theory Cask_Main
  imports Cask_Ipc Cask_Paste
begin

text \<open>
  \<^verbatim>\<open>main\<close> of \<^verbatim>\<open>src/cask.c\<close>: options, start-up, the monitor loop and shutdown.  \<^verbatim>\<open>getopt\<close> is the sequence of its
  results; a call of \<^verbatim>\<open>pselect\<close> is what it returns together with what signals and other threads do
  meanwhile.
\<close>

section \<open>Options\<close>

definition NUM_WORKERS :: u32 where "NUM_WORKERS = 3"
definition PORT :: bytes where "PORT = cstr ''3000''"
definition DB_PATH :: bytes where "DB_PATH = cstr ''cask.db''"
definition DB_NUM_BUCKETS :: u64 where "DB_NUM_BUCKETS = 100000"
definition IPC_SOCK_PATH :: bytes where "IPC_SOCK_PATH = cstr ''cask.sock''"

record params =
  port :: bytes
  pworkers :: u32
  db_path :: bytes
  num_buckets :: u64
  ipc_sock_path :: bytes

definition default_params :: params where
  "default_params = \<lparr>port = PORT, pworkers = NUM_WORKERS, db_path = DB_PATH, num_buckets = DB_NUM_BUCKETS,
     ipc_sock_path = IPC_SOCK_PATH\<rparr>"

text \<open>One option of the loop: the exit code, or the parameters to go on with.\<close>

definition parse_opt :: "char \<Rightarrow> bytes \<Rightarrow> params \<Rightarrow> (int + params) option" where
  "parse_opt opt optarg p =
     (if opt = CHR ''p''
      then do { l \<leftarrow> strlen optarg;
                Some (if list_all isdigit (take l optarg) then Inr (p\<lparr>port := optarg\<rparr>) else Inl 1) }
      else if opt = CHR ''w''
      then do { n \<leftarrow> strtoull optarg;
                Some (if n > 4294967295 \<or> n = 0 then Inl 1 else Inr (p\<lparr>pworkers := ucast n\<rparr>)) }
      else if opt = CHR ''d'' then Some (Inr (p\<lparr>db_path := optarg\<rparr>))
      else if opt = CHR ''b''
      then do { n \<leftarrow> strtoull optarg;
                Some (if n = 0 then Inl 1 else Inr (p\<lparr>num_buckets := n\<rparr>)) }
      else if opt = CHR ''s''
      then do { l \<leftarrow> strlen optarg;
                Some (if l > UNIX_PATH_MAX then Inl 1 else Inr (p\<lparr>ipc_sock_path := optarg\<rparr>)) }
      else Some (Inl 1))"

fun parse_opts :: "(char \<times> bytes) list \<Rightarrow> params \<Rightarrow> (int + params) option" where
  "parse_opts [] p = Some (Inr p)"
| "parse_opts ((opt, optarg) # os) p =
     do { r \<leftarrow> parse_opt opt optarg p;
          (case r of Inl e \<Rightarrow> Some (Inl e) | Inr p \<Rightarrow> parse_opts os p) }"

section \<open>The monitor loop\<close>

definition sighandler :: "'a cask \<Rightarrow> 'a cask" where
  "sighandler k = k\<lparr>krunning := False\<rparr>"

record 'a wait =
  w_res :: int
  w_eintr :: bool
  w_signal :: bool
  w_isset :: bool
  w_ipc :: ipc_env
  w_others :: "'a cask \<Rightarrow> 'a cask"

text \<open>The result is the exit code, the answers given to monitors, and the state.  Without a further return
  of \<^verbatim>\<open>pselect\<close> the loop is still waiting.\<close>

fun monitor_loop :: "'a wait list \<Rightarrow> int \<Rightarrow> 'a cask \<Rightarrow> (int \<times> bytes list \<times> 'a cask) option" where
  "monitor_loop xs code k =
     (if \<not> krunning k then Some (code, [], k)
      else case xs of
        [] \<Rightarrow> None
      | x # xs \<Rightarrow>
          (let k = w_others x k; k = (if w_signal x then sighandler k else k) in
           if w_res x < 0 \<and> \<not> w_eintr x then Some (1, [], k)
           else if \<not> krunning k then Some (1, [], k)
           else if w_res x = 0 then monitor_loop xs code k
           else if w_isset x
           then do { (out, k) \<leftarrow> handle_ipc (w_ipc x) k;
                     (code, outs, k) \<leftarrow> monitor_loop xs code k;
                     Some (code, out # outs, k) }
           else monitor_loop xs code k))"

declare monitor_loop.simps [simp del]

section \<open>The program\<close>

fun start_workers :: "(nat \<Rightarrow> start_env) \<Rightarrow> 'a \<Rightarrow> nat \<Rightarrow> nat \<Rightarrow> 'a cask \<Rightarrow> (bool \<times> 'a cask) option" where
  "start_workers S x i 0 k = Some (True, k)"
| "start_workers S x i (Suc n) k =
     do { (ret, k) \<leftarrow> start_worker (S i) x k;
          if ret \<noteq> OK then Some (False, k) else start_workers S x (Suc i) n k }"

text \<open>The answers of the system to \<^verbatim>\<open>main\<close>.\<close>

record 'a main_env =
  m_clock :: "(u64 \<times> u64) option"
  m_mutex :: int
  m_sigmask :: int
  m_addrinfo :: "bytes \<Rightarrow> int"
  m_dbos :: db_os
  m_files :: "bytes \<Rightarrow> bytes option"
  m_socket :: int
  m_bind :: "bytes \<Rightarrow> int"
  m_listen :: int
  m_stat :: "errno + nat"
  m_open :: "errno + int"
  m_mmap :: "nat \<Rightarrow> bytes option"
  m_start :: "nat \<Rightarrow> start_env"
  m_os :: env
  m_waits :: "'a wait list"

text \<open>The object behind \<^verbatim>\<open>db\<close>: the workers have what their routes refer to, and without a worker nobody has
  changed it.\<close>

definition db_object :: "'b app_ext cask \<Rightarrow> db \<Rightarrow> db" where
  "db_object k db =
     (case get_next (klinks k) (workers k) of None \<Rightarrow> db
      | Some p \<Rightarrow> (case wmem k p of None \<Rightarrow> db | Some w \<Rightarrow> adb w))"

text \<open>The end of \<^verbatim>\<open>main\<close>, after the label \<^verbatim>\<open>out\<close>: the database file, the resources and the workers.\<close>

definition main_out ::
  "env \<Rightarrow> db \<Rightarrow> file_t \<Rightarrow> resources \<Rightarrow> 'a cask \<Rightarrow> (bytes \<times> resources \<times> 'a cask) option" where
  "main_out os db f R k =
     do { let k = close_k k (ipcfd k);
          let R = unmap_file f R;
          dbfile \<leftarrow> close_db db;
          p \<leftarrow> get_next (klinks k) (workers k);
          n \<leftarrow> get_next (klinks k) p;
          k \<leftarrow> shutdown_all os k p n;
          Some (dbfile, R, k) }"

datatype outcome = Exited int "bytes option" "bytes list"

text \<open>\<open>k0\<close> is the static \<^verbatim>\<open>struct cask\<close>, with the list head it contains; the descriptors of the process are
  those of \<open>k0\<close>.  The result has the exit code, the database file if it was opened, and the answers
  given to monitors.\<close>

definition cask_main :: "unit app_ext main_env \<Rightarrow> (char \<times> bytes) list \<Rightarrow> unit app_ext cask \<Rightarrow> (outcome \<times> unit app_ext cask) option" where
  "cask_main M opts k0 =
     do { let k = k0\<lparr>started_at := time_of (m_clock M), klinks := LIST_INIT_HEAD (klinks k0) (workers k0)\<rparr>;
          r \<leftarrow> parse_opts opts default_params;
          (case r of
             Inl e \<Rightarrow> Some (Exited e None [], k)
           | Inr p \<Rightarrow>
               if m_mutex M \<noteq> 0 then Some (Exited 1 None [], k)
               else if m_sigmask M < 0 then Some (Exited 1 None [], k)
               else if m_addrinfo M (port p) \<noteq> 0 then Some (Exited 1 None [], k)
               else do {
                 (db, dbf) \<leftarrow> open_db (m_dbos M) (m_files M (db_path p)) (num_buckets p);
                 (case db of
                    None \<Rightarrow> Some (Exited 1 dbf [], k)
                  | Some db \<Rightarrow> do {
                      (fd, F) \<leftarrow> setup_ipc (m_socket M) (m_bind M) (m_listen M) (ipc_sock_path p) (kfds k);
                      let k = k\<lparr>ipcfd := fd, kfds := F\<rparr>;
                      if fd < 0 then do { f \<leftarrow> close_db db; Some (Exited 1 (Some f) [], k) }
                      else do {
                        let (f, R) = map_file (m_stat M) (m_open M) (m_mmap M) \<lparr>open_fds = kfds k, mappings = 0\<rparr>;
                        let k = k\<lparr>kfds := open_fds R\<rparr>;
                        rts \<leftarrow> setup_routes (m_os M);
                        (ok, k) \<leftarrow> start_workers (m_start M) (app.fields db f) 0 (unat (pworkers p)) k;
                        (code, outs, k) \<leftarrow> (if ok then monitor_loop (m_waits M) 0 (k\<lparr>krunning := True\<rparr>)
                                           else Some (1, [], k));
                        (dbfile, R, k) \<leftarrow> main_out (m_os M) (db_object k db) f R k;
                        Some (Exited code (Some dbfile) outs, k) } }) }) }"

section \<open>Properties\<close>

text \<open>What the rest of the program relies on.\<close>

definition params_ok :: "params \<Rightarrow> bool" where
  "params_ok p \<longleftrightarrow>
     pworkers p \<noteq> 0 \<and> num_buckets p \<noteq> 0
     \<and> (\<exists>n. strlen (port p) = Some n \<and> list_all isdigit (take n (port p)))
     \<and> (\<exists>n. strlen (ipc_sock_path p) = Some n \<and> n \<le> UNIX_PATH_MAX)"

lemma ucast_nonzero:
  assumes "(n :: u64) \<noteq> 0" "\<not> 4294967295 < n"
  shows "(ucast n :: u32) \<noteq> 0"
proof -
  have "unat n < 2 ^ 32" using assms(2) by (simp add: word_less_nat_alt)
  then have "unat (ucast n :: u32) = unat n" by (simp add: unsigned_ucast_eq take_bit_nat_eq_self)
  then show ?thesis using assms(1) by (metis unat_eq_zero)
qed

lemma parse_opt_ok:
  "params_ok p \<Longrightarrow> parse_opt c s p = Some (Inr p') \<Longrightarrow> params_ok p'"
  using ucast_nonzero
  by (auto simp: parse_opt_def params_ok_def Let_def bind_eq_Some_conv split: if_splits)

lemma parse_opts_ok: "params_ok p \<Longrightarrow> parse_opts opts p = Some (Inr p') \<Longrightarrow> params_ok p'"
proof (induction opts p rule: parse_opts.induct)
  case (2 c s os p)
  then obtain r where r: "parse_opt c s p = Some r" "(case r of Inl e \<Rightarrow> Some (Inl e) | Inr p \<Rightarrow> parse_opts os p) = Some (Inr p')"
    by (auto simp: bind_eq_Some_conv)
  then obtain q where "r = Inr q" by (cases r) auto
  then show ?case using 2 r parse_opt_ok [of p c s q] by auto
qed simp

lemma default_params_ok: "params_ok default_params"
  by (simp add: params_ok_def default_params_def NUM_WORKERS_def DB_NUM_BUCKETS_def PORT_def IPC_SOCK_PATH_def
      strlen_def UNIX_PATH_MAX_def cstr_def isdigit_def)

text \<open>C27. Whatever options are given, the parameters the program runs with are within their bounds: at least one
  worker, at least one bucket, a port of digits and a socket path of at most 108 characters; in
  every other case the program exits before it opens anything.\<close>

theorem parse_opts_bounds:
  assumes "parse_opts opts default_params = Some (Inr p)"
  shows "0 < unat (pworkers p) \<and> 0 < unat (num_buckets p)
    \<and> (\<exists>n. strlen (port p) = Some n \<and> list_all isdigit (take n (port p)))
    \<and> (\<exists>n. strlen (ipc_sock_path p) = Some n \<and> n \<le> 108)"
  using parse_opts_ok [OF default_params_ok assms]
  by (simp add: params_ok_def UNIX_PATH_MAX_def unat_gt_0)

theorem parse_opts_bounds_witness:
  "\<exists>p. parse_opts [(CHR ''w'', cstr ''12''), (CHR ''p'', cstr ''80'')] default_params = Some (Inr p)
     \<and> pworkers p = 12 \<and> 0 < unat (num_buckets p) \<and> (\<exists>n. strlen (port p) = Some n \<and> list_all isdigit (take n (port p)))"
proof -
  let ?p = "default_params\<lparr>pworkers := 12, port := cstr ''80''\<rparr>"
  have p: "parse_opts [(CHR ''w'', cstr ''12''), (CHR ''p'', cstr ''80'')] default_params = Some (Inr ?p)"
    by (simp add: parse_opt_def strtoull_def scan_num_def strlen_def cstr_def isspace_def isdigit_def num_val_def
        digit_val_def Let_def)
  show ?thesis using p parse_opts_bounds [OF p] by (intro exI [of _ ?p]) (auto simp del: parse_opts.simps)
qed

end
