(* ===== verification/Cask_Conn_Spec.thy ===== *)
theory Cask_Conn_Spec
  imports Cask_Worker Cask_Paste
begin

text \<open>
  The properties of connections, of the event loop of a worker and of the paste service, with the
  example of a worker that has accepted one connection.
\<close>

section \<open>An example\<close>

definition demo_env :: env where
  "demo_env = \<lparr>alloc_fails = \<lambda>_. False, junk = \<lambda>_. NUL,
     os_recv = \<lambda>_. Recv_again,
     os_send = \<lambda>n l. Sent l, os_ctl = \<lambda>_. 0, os_accept = \<lambda>_. 7, os_fcntl = \<lambda>_. 0, os_calloc = \<lambda>_. 10\<rparr>"

definition demo_w :: app where
  "demo_w = new_worker demo_start (app.fields (db_of 3 []) \<lparr>fsize = 0, fdata = None, ferror = 0\<rparr>)"

definition demo_conn :: app where
  "demo_conn = the (on_accept demo_env EPOLLIN demo_w)"

lemma demo_env_good: "os_good demo_env" "send_sane demo_env"
  by (simp_all add: os_good_def send_sane_def alloc_ok_def demo_env_def)

lemma demo_w_serving: "serving demo_w [] E"
  unfolding demo_w_def by (rule new_worker_serving) simp

lemma demo_conn_serving:
  obtains t where "on_accept demo_env EPOLLIN demo_w = Some demo_conn" "serving demo_conn [10] t"
    "cmem demo_conn = [10 \<mapsto> \<lparr>cbuffer = \<lparr>bsize = 0, bcap = 0, bdata = None\<rparr>, cflags = 0, req = request0, cfd = 7,
       cstate = CONNECTION_STATE_IN, write_bytes = 0\<rparr>]"
    "get_timer demo_conn = [10 \<mapsto> armed (now_of demo_w) (conn_timer 10)]" "adb demo_conn = db_of 3 []"
    "outbox demo_conn = (\<lambda>_. [])" "fds demo_conn = {4, 5, 7}" "conns demo_conn = 20"
proof -
  have sane: "accept_sane demo_env demo_w []"
    by (auto simp: accept_sane_def fresh_conn_at_def demo_env_def demo_w_def new_worker_def)
  have w: "cmem demo_w = Map.empty" "get_timer demo_w = Map.empty" "outbox demo_w = (\<lambda>_. [])" "fds demo_w = {4, 5}"
    "conns demo_w = 20"
    by (auto simp: demo_w_def new_worker_def calloc_worker_def get_timer_def)
  have a: "adb demo_w = db_of 3 []" by (simp add: demo_w_def new_worker_def calloc_worker_def app.defs)
  obtain w' t' where r: "on_accept demo_env EPOLLIN demo_w = Some w'"
    "serving w' ([] @ [os_calloc demo_env (calls demo_w + 2)]) t'"
    "cmem w' = (cmem demo_w)(os_calloc demo_env (calls demo_w + 2) \<mapsto> \<lparr>cbuffer = \<lparr>bsize = 0, bcap = 0, bdata = None\<rparr>,
       cflags = 0, req = request0, cfd = os_accept demo_env (calls demo_w), cstate = CONNECTION_STATE_IN, write_bytes = 0\<rparr>)"
    "get_timer w' = (get_timer demo_w)(os_calloc demo_env (calls demo_w + 2) \<mapsto>
       armed (now_of demo_w) (conn_timer (os_calloc demo_env (calls demo_w + 2))))"
    "fds w' = insert (os_accept demo_env (calls demo_w)) (fds demo_w)" "outbox w' = outbox demo_w"
    "worker.more w' = worker.more demo_w" "conns w' = conns demo_w"
    by (rule on_accept_accepts [OF demo_w_serving sane, of EPOLLIN])
      (simp_all add: demo_env_def has_flag_def EPOLLIN_def)
  have "demo_conn = w'" using r(1) by (simp add: demo_conn_def)
  then show thesis using that r w a app_more(1) [OF r(7)] by (simp add: demo_env_def insert_commute)
qed

lemma demo_conn_idle: "idle_conn demo_conn 10" "fd_of demo_conn 10 = 7" "kept demo_conn 10 v = (v = HTTP_VERSION_11)"
  by (rule demo_conn_serving; simp add: idle_conn_def fd_of_def contents_def kept_def has_flag_def)+

text \<open>The kernel once the client has sent a request, in two pieces.\<close>

definition demo_os :: "bytes \<Rightarrow> env" where
  "demo_os s = demo_env\<lparr>os_recv := (\<lambda>n. if n = calls demo_conn then Recv (take 20 s)
     else if n = calls demo_conn + 1 then Recv (drop 20 s) else Recv_again)\<rparr>"

lemma demo_os_good: "os_good (demo_os s)" "send_sane (demo_os s)"
  using demo_env_good by (simp_all add: os_good_def send_sane_def alloc_ok_def demo_os_def)

lemma demo_sends:
  assumes "s = render_request m uri v hs body" "20 < length s" "length s \<le> 4096" "head_ok m uri v hs" "announces hs (int (length body))"
  shows "sends (demo_os s) demo_conn 10 [take 20 s, drop 20 s] m uri v hs body"
  using assms demo_conn_idle(1) by (auto simp: sends_def demo_os_def READ_CHUNK_def)


section \<open>The paste service\<close>

lemma setup_routes_arr:
  assumes "alloc_ok A" "setup_routes A = Some rts"
  shows "arr_ok ROUTE_SIZE rts paste_routes"
  by (rule setup_routes_ok [OF assms(1)]) (use assms(2) in simp)

definition served_routes :: "route_cb routes" where
  "served_routes = the (setup_routes demo_env)"

lemma served_routes: "setup_routes demo_env = Some served_routes"
proof -
  have "alloc_ok demo_env" using demo_env_good(1) by (simp add: os_good_def)
  then obtain rts where "setup_routes demo_env = Some rts" by (rule setup_routes_ok)
  then show ?thesis by (simp add: served_routes_def)
qed

lemma kept_11 [simp]: "kept w c HTTP_VERSION_11"
  by (simp add: kept_def)

text \<open>The state after an answer on a connection that is kept.\<close>

lemma answered_kept:
  assumes "answered w cs c text True w'"
  obtains t' where "ready w' cs t'" "outbox w' (fd_of w c) = outbox w (fd_of w c) @ text" "fd_of w' c = fd_of w c"
    "idle_conn w' c"
  using assms by (auto simp: answered_def idle_conn_def fd_of_def)


lemma demo_body: "store_ok 3 [''hello'']"
  by (simp add: store_ok_def length_image log_bytes_def)






abbreviation hello_get :: bytes where
  "hello_get \<equiv> render_request HTTP_METHOD_GET ''/0'' HTTP_VERSION_11 [(''Host'', ''cask'')] []"

lemma hello_get:
  "length hello_get = 31" "announces [(''Host'', ''cask'')] 0"
  "head_ok HTTP_METHOD_GET ''/0'' HTTP_VERSION_11 [(''Host'', ''cask'')]" "print_nat 0 = ''0''"
  by code_simp+


section \<open>Connections\<close>






text \<open>C15. \<^verbatim>\<open>read_data\<close> gathers whatever chunks the kernel delivers, in order and without loss, and looks at the
  request once nothing more is there: it hands a complete request to its route, closes the
  connection on a malformed one, and reads on while the request is incomplete.\<close>

theorem read_data_correct:
  assumes A: "alloc_ok os" and cn: "cmem w c = Some cn" "buffer_ok (cbuffer cn)"
    and d: "delivers os (calls w) xs" and room: "bsize (cbuffer cn) + length (concat xs) + READ_CHUNK < 2 ^ 64"
  shows "\<exists>b. buffer_ok b \<and> contents b = contents (cbuffer cn) @ concat xs \<and>
    read_data os rts call w c =
      do { (r, cn') \<leftarrow> parse_request (cn\<lparr>cbuffer := b\<rparr>);
           let w' = set_conn (w\<lparr>calls := calls w + length xs + 1\<rparr>) c cn';
           if r = REQ_OK then dispatch os rts call w' c
           else if r = REQ_ERR then close_connection os w' c
           else read_data os rts call w' c }"
  using read_data_gathers [OF assms] by blast

theorem read_data_correct_witness:
  "\<exists>b. contents b = hello ''hello'' \<and>
    read_data (demo_os (hello ''hello'')) served_routes (call_route good_os (demo_os (hello ''hello''))) demo_conn 10 =
      do { (r, cn') \<leftarrow> parse_request ((the (cmem demo_conn 10))\<lparr>cbuffer := b\<rparr>);
           let w' = set_conn (demo_conn\<lparr>calls := calls demo_conn + 3\<rparr>) 10 cn';
           if r = REQ_OK then dispatch (demo_os (hello ''hello'')) served_routes (call_route good_os (demo_os (hello ''hello''))) w' 10
           else if r = REQ_ERR then close_connection (demo_os (hello ''hello'')) w' 10
           else read_data (demo_os (hello ''hello'')) served_routes (call_route good_os (demo_os (hello ''hello''))) w' 10 }"
proof -
  let ?os = "demo_os (hello ''hello'')" and ?xs = "[take 20 (hello ''hello''), drop 20 (hello ''hello'')]"
  obtain t where t: "ready demo_conn [10] t" "cmem demo_conn 10 = Some (the (cmem demo_conn 10))"
    "contents (cbuffer (the (cmem demo_conn 10))) = []" "bsize (cbuffer (the (cmem demo_conn 10))) = 0"
    by (rule demo_conn_serving) (auto simp: serving_def contents_def)
  obtain cn where cn: "cmem demo_conn 10 = Some cn" "buffer_ok (cbuffer cn)" by (rule ready_conn [OF t(1)]) simp_all
  have A: "alloc_ok ?os" using demo_os_good(1) by (simp add: os_good_def)
  have s: "sends ?os demo_conn 10 ?xs HTTP_METHOD_POST ''/'' HTTP_VERSION_11 hello_headers ''hello''"
    by (rule demo_sends [OF refl]) (use hello_head hello_length in simp_all)
  then have d: "delivers ?os (calls demo_conn) ?xs" "concat ?xs = hello ''hello''" by (simp_all add: sends_def READ_CHUNK_def)
  have room: "bsize (cbuffer (the (cmem demo_conn 10))) + length (concat ?xs) + READ_CHUNK < 2 ^ 64"
    using t(4) hello_length unfolding d(2) by (simp add: READ_CHUNK_def)
  have b: "buffer_ok (cbuffer (the (cmem demo_conn 10)))" using cn by simp
  show ?thesis
    using read_data_correct [OF A t(2) b d(1) room, of served_routes "call_route good_os ?os"] t(3) unfolding d(2)
    by (auto simp: numeral_3_eq_3)
qed


text \<open>A status line that has not ended yet.\<close>

lemma parse_request_no_line:
  assumes b: "buffer_ok (cbuffer cn)" "bsize (cbuffer cn) < 2 ^ 31" and "rstate (req cn) = REQUEST_STATE_INIT"
    and lf: "LF \<notin> set (contents (cbuffer cn))"
  shows "parse_request cn = Some (REQ_UF, cn)"
proof -
  let ?d = "mem_of (bdata (cbuffer cn))" and ?n = "bsize (cbuffer cn)"
  have "?n \<le> length ?d" using buffer_ok_size [OF b(1)] by simp
  then have "span ?d LF (int ?n) 0 = Some (-1)"
    using span_spec [of ?n ?d 0 LF] lf by (simp add: Let_def contents_def)
  then show ?thesis using assms(2,3)
    by (simp add: parse_request_def parse_status_line_def Let_def)
qed

text \<open>C32. A client that sends part of a status line and then waits keeps the thread of the worker: \<^verbatim>\<open>read_data\<close> calls
  \<^verbatim>\<open>recv\<close> again and again and never returns to the event loop, so no other connection of the worker is
  served and the timeout of this one never fires.\<close>

theorem read_data_spins:
  assumes A: "alloc_ok os" and cn: "cmem w c = Some cn" "buffer_ok (cbuffer cn)" "rstate (req cn) = REQUEST_STATE_INIT"
    and d: "delivers os (calls w) xs" and dry: "\<forall>n\<ge>calls w + length xs. os_recv os n = Recv_again"
    and lf: "LF \<notin> set (contents (cbuffer cn) @ concat xs)"
    and room: "bsize (cbuffer cn) + length (concat xs) < 2 ^ 31"
  shows "read_data os rts call w c = None"
proof (rule ccontr)
  assume "read_data os rts call w c \<noteq> None"
  then obtain w' where w': "read_data os rts call w c = Some w'" by blast
  have room': "bsize (cbuffer cn) + length (concat xs) + READ_CHUNK < 2 ^ 64" using room by (simp add: READ_CHUNK_def)
  obtain b where b: "buffer_ok b" "contents b = contents (cbuffer cn) @ concat xs" "bsize b + READ_CHUNK \<le> bcap b"
    and rd: "read_data os rts call w c =
      do { (r, cn') \<leftarrow> parse_request (cn\<lparr>cbuffer := b\<rparr>);
           let w' = set_conn (w\<lparr>calls := calls w + length xs + 1\<rparr>) c cn';
           if r = REQ_OK then dispatch os rts call w' c
           else if r = REQ_ERR then close_connection os w' c
           else read_data os rts call w' c }"
    using read_data_gathers [OF A cn(1,2) d room', of rts call] by blast
  have sz: "bsize b = bsize (cbuffer cn) + length (concat xs)"
    using length_contents [OF b(1)] length_contents [OF cn(2)] b(2) by simp
  have uf: "parse_request (cn\<lparr>cbuffer := b\<rparr>) = Some (REQ_UF, cn\<lparr>cbuffer := b\<rparr>)"
    by (rule parse_request_no_line) (use b sz room cn(3) lf in simp_all)
  let ?w = "set_conn (w\<lparr>calls := calls w + length xs + 1\<rparr>) c (cn\<lparr>cbuffer := b\<rparr>)"
  have "read_data os rts call ?w c = Some w'"
    using w' unfolding rd uf by simp
  from read_data_not_spinning [OF A dry _ this, of "cn\<lparr>cbuffer := b\<rparr>"] show False
    using uf b(3) room sz by (simp add: READ_CHUNK_def)
qed

theorem read_data_spins_witness:
  "read_data (demo_env\<lparr>os_recv := \<lambda>n. if n = calls demo_conn then Recv ''GET /'' else Recv_again\<rparr>) served_routes
     (call_route good_os demo_env) demo_conn 10 = None"
proof -
  let ?os = "demo_env\<lparr>os_recv := \<lambda>n. if n = calls demo_conn then Recv ''GET /'' else Recv_again\<rparr>"
  obtain cn where cn: "cmem demo_conn 10 = Some cn" "cbuffer cn = \<lparr>bsize = 0, bcap = 0, bdata = None\<rparr>" "req cn = request0"
    by (rule demo_conn_serving) simp
  have b: "buffer_ok (cbuffer cn)" "contents (cbuffer cn) = []" using cn(2) by (simp_all add: buffer_ok_def contents_def)
  have "alloc_ok ?os" using demo_env_good(1) by (simp add: os_good_def alloc_ok_def)
  then show ?thesis
    using read_data_spins [of ?os demo_conn 10 cn "[''GET /'']"] cn b
    by (simp add: request0_def READ_CHUNK_def)
qed


section \<open>Opening and closing\<close>

text \<open>C19. An incoming connection: it is at the end of the list of the worker, counted, registered for input,
  with an empty buffer, and its timeout is armed five seconds from now; the other connections are
  untouched, however many there are.\<close>

theorem on_accept_correct:
  assumes "serving w cs t" "accept_sane os w cs" "has_flag ev EPOLLIN" "0 \<le> os_accept os (calls w)"
    "0 \<le> os_fcntl os (calls w + 1)" "os_calloc os (calls w + 2) = c" "c \<noteq> NULL" "\<not> alloc_fails os 24" "\<forall>n. os_ctl os n = 0"
  shows "\<exists>w' t' cn tm. on_accept os ev w = Some w' \<and> serving w' (cs @ [c]) t' \<and> cmem w' = (cmem w)(c \<mapsto> cn)
    \<and> cfd cn = os_accept os (calls w) \<and> cstate cn = CONNECTION_STATE_IN \<and> contents (cbuffer cn) = [] \<and> req cn = request0
    \<and> get_timer w' = (get_timer w)(c \<mapsto> tm) \<and> trigger tm = now_of w + ucast TIMEOUT * 1000000
    \<and> fds w' = insert (cfd cn) (fds w) \<and> outbox w' = outbox w"
proof -
  have c: "os_calloc os (calls w + 2) \<noteq> NULL" using assms(6,7) by simp
  let ?cn = "\<lparr>cbuffer = \<lparr>bsize = 0, bcap = 0, bdata = None\<rparr>, cflags = 0, req = request0, cfd = os_accept os (calls w),
    cstate = CONNECTION_STATE_IN, write_bytes = 0\<rparr>"
  obtain w' t' where w': "on_accept os ev w = Some w'" "serving w' (cs @ [c]) t'" "cmem w' = (cmem w)(c \<mapsto> ?cn)"
    "get_timer w' = (get_timer w)(c \<mapsto> armed (now_of w) (conn_timer c))" "fds w' = insert (os_accept os (calls w)) (fds w)"
    "outbox w' = outbox w"
    by (rule on_accept_accepts [OF assms(1-5) c assms(8,9), unfolded assms(6)])
  have tr: "trigger (armed (now_of w) (conn_timer c)) = now_of w + ucast TIMEOUT * 1000000"
    by (simp add: conn_timer_def make_timer_def)
  show ?thesis
    by (rule exI [of _ w'], rule exI [of _ t'], rule exI [of _ ?cn], rule exI [of _ "armed (now_of w) (conn_timer c)"])
      (use w' tr in \<open>simp add: contents_def\<close>)
qed

theorem on_accept_correct_witness:
  "\<exists>w' t'. on_accept demo_env EPOLLIN demo_w = Some w' \<and> serving w' [10] t' \<and> fds w' = {4, 5, 7}"
proof -
  have sane: "accept_sane demo_env demo_w []"
    by (auto simp: accept_sane_def fresh_conn_at_def demo_env_def demo_w_def new_worker_def)
  have w: "fds demo_w = {4, 5}" by (auto simp: demo_w_def new_worker_def)
  have os: "has_flag EPOLLIN EPOLLIN" "os_accept demo_env n = 7" "os_fcntl demo_env n = 0" "os_calloc demo_env n = 10"
    "\<not> alloc_fails demo_env 24" "os_ctl demo_env n = 0" for n
    by (simp_all add: demo_env_def has_flag_def EPOLLIN_def)
  have "\<exists>w' t' cn tm. on_accept demo_env EPOLLIN demo_w = Some w' \<and> serving w' ([] @ [10]) t' \<and> cmem w' = (cmem demo_w)(10 \<mapsto> cn)
    \<and> cfd cn = 7 \<and> cstate cn = CONNECTION_STATE_IN \<and> contents (cbuffer cn) = [] \<and> req cn = request0
    \<and> get_timer w' = (get_timer demo_w)(10 \<mapsto> tm) \<and> trigger tm = now_of demo_w + ucast TIMEOUT * 1000000
    \<and> fds w' = insert (cfd cn) (fds demo_w) \<and> outbox w' = outbox demo_w"
    using on_accept_correct [OF demo_w_serving sane os(1) _ _ os(4) _ os(5)] unfolding os by simp
  then show ?thesis using w by (auto simp: insert_commute)
qed

text \<open>C20. Closing a connection whose timer node has at most one child: it leaves the list and the tree of
  timers, its object, its event and its timer are freed, its descriptor is closed and taken out of
  the interest list, the count goes down by one, and every other connection is as before.\<close>

theorem close_connection_correct:
  assumes "worker_ok w cs t" "c \<in> set cs" "c \<notin> set (inord t) \<or> \<not> two_children (timers w) c"
  shows "\<exists>w' t'. close_connection os w c = Some w' \<and> worker_ok w' (remove1 c cs) t' \<and> inord t' = remove1 c (inord t)
    \<and> cmem w' = (cmem w)(c := None) \<and> get_timer w' = (get_timer w)(c := None) \<and> evs w' c = None
    \<and> (\<forall>d. d \<noteq> c \<longrightarrow> evs w' d = evs w d) \<and> fds w' = fds w - {fd_of w c} \<and> interest w' (fd_of w c) = None
    \<and> num_conns w' = num_conns w - 1 \<and> outbox w' = outbox w"
  by (rule close_connection_ok [OF assms]) (auto simp: closed_from_def)

theorem close_connection_correct_witness:
  "\<exists>w' t'. close_connection demo_env demo_conn 10 = Some w' \<and> worker_ok w' [] t' \<and> fds w' = {4, 5} \<and> cmem w' 10 = None"
proof -
  obtain t where t: "ready demo_conn [10] t" "fds demo_conn = {4, 5, 7}" by (rule demo_conn_serving) (auto simp: serving_def)
  have "lone demo_conn t 10" by (rule worker_few_lone [OF readyD(1) [OF t(1)]]) simp
  then show ?thesis
    using close_connection_correct [OF readyD(1) [OF t(1)], of 10 demo_env] t(2) demo_conn_idle(2)
    by (auto simp: lone_def)
qed

text \<open>C33. Closing a connection whose timer node has two children, which any worker with three connections has:
  the object is freed, but its node is still part of the tree of timers \<open>t'\<close>, so the next walk over the
  timers reads freed memory.\<close>

theorem close_connection_dangling:
  assumes ok: "worker_ok w cs t" and c: "c \<in> set (inord t)" and two: "two_children (timers w) c"
  shows "\<exists>w' s t'. close_connection os w c = Some w' \<and> cmem w' c = None \<and> holds s t' \<and> c \<in> set (inord t')
    \<and> timers w' = s\<lparr>nodes := (nodes s)(c := None), pay := (pay s)(c := None)\<rparr>"
proof -
  note D = worker_okD [OF ok]
  have cs: "c \<in> set cs" using D(3) c by blast
  obtain cn ev tm where m: "cmem w c = Some cn" "evs w c = Some ev" "get_timer w c = Some tm"
    by (rule worker_ok_conn [OF ok cs])
  let ?w0 = "w\<lparr>num_conns := num_conns w - 1\<rparr>"
  obtain r1 w1 where w1: "del_event (os_ctl os (calls ?w0)) ?w0 c = Some (r1, w1)" "timers w1 = timers ?w0"
    "w1 = ?w0\<lparr>evs := evs w1, interest := interest w1\<rparr>"
    by (rule del_event_eq [of ?w0 c ev "os_ctl os (calls ?w0)"]) (use m(2) in simp_all)
  let ?w1 = "sys_call w1"
  have t1: "timers ?w1 = timers w" using w1(2) by simp
  obtain w2 t2 xs ys where w2: "del_timer ?w1 c = Some (OK, w2)" "holds (timers w2) t2" "inord t2 = xs @ c # tl ys"
    "w2 = ?w1\<lparr>timers := timers w2\<rparr>"
    by (rule del_timer_tree [of ?w1 t c tm])
      (use D(2) c m(3) two timers_ok_cong [OF t1] get_timer_cong [OF t1] t1 in simp_all)
  have l2: "wlinks (close_fd w2 (cfd cn)) = wlinks w"
    unfolding close_fd_def by (subst w2(4), subst w1(3), simp add: sys_call_def)
  obtain l where "list_del (wlinks w) c = Some l" by (rule ring_del [OF D(1) cs])
  then have "close_connection os w c = Some (free_conn ((close_fd w2 (cfd cn))\<lparr>wlinks := l\<rparr>) c)"
    using m(1) w1(1) w2(1) l2 by (simp add: close_connection_def)
  then show ?thesis using w2(2,3)
    by (intro exI [of _ "free_conn ((close_fd w2 (cfd cn))\<lparr>wlinks := l\<rparr>) c"] exI [of _ "timers w2"] exI [of _ t2])
      (simp add: free_conn_def close_fd_def)
qed

text \<open>A tree of three nodes has two below its root.\<close>

lemma rb_ok_0:
  assumes "rb_ok 0 t"
  shows "tcol t = RBBLK \<Longrightarrow> t = E" "length (inord t) \<le> 1"
proof -
  have b: "u = E" if "rb_ok 0 u" "tcol u = RBBLK" for u using that by (cases u rule: tcol.cases) auto
  show "tcol t = RBBLK \<Longrightarrow> t = E" by (rule b [OF assms])
  show "length (inord t) \<le> 1"
  proof (cases t)
    case (N c l a r)
    then show ?thesis using assms b [of l] b [of r] by (cases c) auto
  qed simp
qed

lemma three_nodes:
  assumes "balanced t" "length (inord t) = 3"
  obtains c l a r where "t = N c l a r" "l \<noteq> E" "r \<noteq> E"
proof (cases t)
  case (N c l a r)
  obtain n where n: "rb_ok n l" "rb_ok n r"
  proof -
    obtain n where "rb_ok n (N c l a r)" using assms(1) N by (auto simp: balanced_def)
    then show thesis using that by (cases c; cases n) auto
  qed
  have "l = E \<Longrightarrow> length (inord r) \<le> 1" "r = E \<Longrightarrow> length (inord l) \<le> 1" using n rb_ok_0(2) by auto
  moreover have "length (inord l) + length (inord r) = 2" using assms(2) N by simp
  ultimately have "l \<noteq> E" "r \<noteq> E" by auto
  then show thesis using that N by blast
qed (use assms in simp)

text \<open>Two more connections.\<close>

definition demo_next :: "int \<Rightarrow> addr \<Rightarrow> env" where
  "demo_next fd c = demo_env\<lparr>os_accept := \<lambda>_. fd, os_calloc := \<lambda>_. c\<rparr>"

definition demo_three :: app where
  "demo_three = the (on_accept (demo_next 9 12) EPOLLIN (the (on_accept (demo_next 8 11) EPOLLIN demo_conn)))"

lemma demo_accept:
  assumes s: "serving w cs t" and a: "fd \<notin> fds w" "0 \<le> fd" "c \<notin> set (conns w # RBNIL # NULL # cs)"
  obtains w' t' where "on_accept (demo_next fd c) EPOLLIN w = Some w'" "serving w' (cs @ [c]) t'" "fds w' = insert fd (fds w)"
    "conns w' = conns w"
proof -
  have sane: "accept_sane (demo_next fd c) w cs" using a by (simp add: accept_sane_def fresh_conn_at_def demo_next_def)
  have os: "has_flag EPOLLIN EPOLLIN" "os_accept (demo_next fd c) n = fd" "os_fcntl (demo_next fd c) n = 0"
    "os_calloc (demo_next fd c) n = c" "\<not> alloc_fails (demo_next fd c) 24" "os_ctl (demo_next fd c) n = 0" for n
    by (simp_all add: demo_next_def demo_env_def has_flag_def EPOLLIN_def)
  show thesis
    by (rule on_accept_accepts [OF s sane os(1) _ _ _ os(5), unfolded os]) (use a that in auto)
qed

lemma demo_three_serving: "\<exists>t. serving demo_three [10, 11, 12] t"
proof -
  obtain t where t: "serving demo_conn [10] t" "fds demo_conn = {4, 5, 7}" by (rule demo_conn_serving) simp
  have c: "conns demo_conn = 20" by (rule demo_conn_serving) simp
  obtain w2 t2 where w2: "on_accept (demo_next 8 11) EPOLLIN demo_conn = Some w2" "serving w2 ([10] @ [11]) t2"
    "fds w2 = insert 8 (fds demo_conn)" "conns w2 = conns demo_conn"
    by (rule demo_accept [OF t(1), of 8 11]) (use t(2) c in simp_all)
  obtain w3 t3 where w3: "on_accept (demo_next 9 12) EPOLLIN w2 = Some w3" "serving w3 (([10] @ [11]) @ [12]) t3"
    by (rule demo_accept [OF w2(2), of 9 12]) (use t(2) w2(3,4) c in simp_all)
  have "demo_three = w3" using w2(1) w3(1) by (simp add: demo_three_def)
  then show ?thesis using w3(2) by auto
qed

theorem close_connection_dangling_witness:
  "\<exists>c w' s t'. c \<in> {10, 11, 12} \<and> close_connection demo_env demo_three c = Some w' \<and> cmem w' c = None \<and> holds s t'
    \<and> c \<in> set (inord t') \<and> timers w' = s\<lparr>nodes := (nodes s)(c := None), pay := (pay s)(c := None)\<rparr>"
proof -
  obtain t where t: "ready demo_three [10, 11, 12] t" using demo_three_serving by (auto simp: serving_def)
  note ok = readyD(1) [OF t]
  have h: "holds (timers demo_three) t" using timers_okD(1) [OF worker_okD(2) [OF ok]] by (simp add: tim.ordered_def)
  have "length (inord t) = card (set (inord t))"
    using timers_okD(5) [OF worker_okD(2) [OF ok]] by (simp add: distinct_card)
  then have len: "length (inord t) = 3" using readyD(2) [OF t] by simp
  have b: "balanced t" using h by (simp add: holds_def)
  obtain k l a r where n: "t = N k l a r" "l \<noteq> E" "r \<noteq> E"
    by (rule three_nodes [OF b len])
  have f: "rep (timers demo_three) (N k l a r)" using h n(1) by (simp add: holds_def)
  have "ptr_of l \<noteq> RBNIL" "ptr_of r \<noteq> RBNIL" using n f by (cases l; cases r; auto simp: focus_def)+
  then have two: "two_children (timers demo_three) a" using focus_get(2,3) [OF f] by (simp add: two_children_def)
  have a: "a \<in> set (inord t)" using n(1) by simp
  then have "a \<in> {10, 11, 12}" using readyD(2) [OF t] by simp
  then show ?thesis using close_connection_dangling [OF ok a two, of demo_env] by blast
qed


section \<open>Timeouts\<close>

lemma serving_clock: "serving (w\<lparr>clock := f\<rparr>) cs t = serving w cs t"
proof -
  have e: "get_timer (w\<lparr>clock := f\<rparr>) = get_timer w" "fd_of (w\<lparr>clock := f\<rparr>) = fd_of w"
    by (auto simp: get_timer_def fd_of_def)
  show ?thesis using timers_ok_cong [of "w\<lparr>clock := f\<rparr>" w]
    by (simp add: serving_def ready_def worker_ok_def conn_sound_def conn_ready_def e)
qed

text \<open>C10. One pass over the timers returns and closes exactly the connections whose deadline has come, any number
  of them; the others stay in their order, with their events, and the count is right.\<close>

theorem run_timers_closes_expired:
  assumes "serving w cs t"
  shows "\<exists>w' t'. run_timers (call_timer os) w = Some w' \<and> serving w' (filter (\<lambda>c. now_of w < trig w c) cs) t'
    \<and> inord t' = filter (\<lambda>c. now_of w < trig w c) (inord t)
    \<and> (\<forall>c. evs w' c = (if c \<in> set cs \<and> trig w c \<le> now_of w then None else evs w c))"
  by (rule run_timers_expires [OF assms]) blast

theorem run_timers_closes_expired_witness:
  "\<exists>w' t'. run_timers (call_timer demo_env) (demo_conn\<lparr>clock := \<lambda>_. Some (100, 0)\<rparr>) = Some w' \<and> serving w' [] t'"
proof -
  let ?w = "demo_conn\<lparr>clock := \<lambda>_. Some (100, 0)\<rparr>"
  obtain t where t: "serving demo_conn [10] t" "get_timer demo_conn = [10 \<mapsto> armed (now_of demo_w) (conn_timer 10)]"
    by (rule demo_conn_serving) simp
  have n: "now_of demo_w = 0"
    by (simp add: now_of_def demo_w_def new_worker_def calloc_worker_def demo_start_def time_of_def)
  have g: "trig ?w 10 = 5000000000"
    using fun_cong [OF t(2), of 10] n by (simp add: tim.node_key_def val_def get_timer_def conn_timer_def make_timer_def TIMEOUT_def)
  have "now_of ?w = 100000000000" by (simp add: now_of_def time_of_def)
  then have "filter (\<lambda>c. now_of ?w < trig ?w c) [10] = []" using g by simp
  then show ?thesis
    using run_timers_closes_expired [of ?w "[10]" t demo_env] t(1) unfolding serving_clock by metis
qed


section \<open>The event loop\<close>

lemma run_timers_none:
  "troot (timers w) = RBNIL \<Longrightarrow> run_timers call w = Some (w\<lparr>ticks := Suc (ticks w)\<rparr>)"
  by (simp add: run_timers_def get_time_def run_timers_loop.simps rbtree_leftmost_def)

text \<open>C4. The invariant of a worker: from its start on, through any number of iterations of its loop with any
  answers of the kernel and any requests, the worker has its list, its tree of timers, its events and
  the count of its connections in agreement after every iteration, and its descriptors are exactly the
  listening socket, the epoll instance and those of the connections on its list, as long as it never
  has more than two connections at a time.\<close>

theorem worker_invariant:
  assumes "sw_calloc en \<noteq> NULL"
    and "(worker_step (sw_calloc en) rts (call_route D))\<^sup>*\<^sup>* ((new_worker en x)\<lparr>wid := i, running := True\<rparr>) w"
  shows "worker_inv (sw_calloc en) w \<and> sock w = sw_socket en \<and> epollfd w = sw_epoll en
    \<and> (\<exists>cs. list_for_each (wlinks w) (conns w) = Some cs \<and> num_conns w = of_nat (length cs)
         \<and> fds w - fd_of w ` set cs = {sw_socket en, sw_epoll en})"
proof -
  let ?w = "(new_worker en x)\<lparr>wid := i, running := True\<rparr>"
  have "worker_inv (sw_calloc en) ?w" using new_worker_inv [OF assms(1)] worker_inv_running by metis
  then have inv: "worker_inv (sw_calloc en) w \<and> sock w = sw_socket en \<and> epollfd w = sw_epoll en"
    using paste.reachable_keeps [OF assms(2)] by (simp add: new_worker_def)
  then obtain cs t where I: "serving w cs t" "fds w - fd_of w ` set cs = {sw_socket en, sw_epoll en}"
    unfolding worker_inv_def by metis
  then have "ring (wlinks w) (conns w) cs" "num_conns w = of_nat (length cs)"
    using worker_okD(1) [OF readyD(1)] by (auto simp: serving_def)
  then show ?thesis using ring_for_each inv I(2) by blast
qed

text \<open>The first iteration of the example: a client connects.\<close>

lemma demo_first_step:
  "\<exists>w. worker_step 20 served_routes (call_route good_os) (demo_w\<lparr>wid := 0, running := True\<rparr>) w \<and> dom (cmem w) = {10}"
proof -
  let ?w = "demo_w\<lparr>wid := 0, running := True\<rparr>" and ?epoll = "\<lambda>_ _ _ _. (1, [(EPOLLIN, 20)])"
  let ?ce = "call_event demo_env served_routes (call_route good_os demo_env)"
  let ?w1 = "?w\<lparr>ticks := Suc (ticks ?w)\<rparr>"
  have rt: "run_timers (call_timer demo_env) ?w = Some ?w1"
    by (rule run_timers_none) (simp add: demo_w_def new_worker_def)
  have w1: "fds ?w1 = {4, 5}" "cmem ?w1 = Map.empty" "conns ?w1 = 20" "calls ?w1 = 0"
    "evs ?w1 20 = Some ((make_event 4 (EPOLLIN OR EPOLLET) accept_cb 20)\<lparr>eflags := EVENT_FLAG_ACTIVE\<rparr>)"
    by (auto simp: demo_w_def new_worker_def calloc_worker_def)
  have s1: "serving ?w1 [] E"
  proof -
    have "get_timer ?w1 = get_timer demo_w" by (auto simp: get_timer_def)
    then show ?thesis using demo_w_serving timers_ok_cong [of ?w1 demo_w]
      by (simp add: serving_def ready_def worker_ok_def)
  qed
  have "accept_sane demo_env ?w1 []" using w1 by (simp add: accept_sane_def fresh_conn_at_def demo_env_def)
  then obtain w' where w': "on_accept demo_env EPOLLIN ?w1 = Some w'" "dom (cmem w') = {10}"
    by (rule on_accept_accepts [OF s1, of demo_env EPOLLIN]) (use w1 in \<open>simp_all add: demo_env_def has_flag_def EPOLLIN_def\<close>)
  have one: "one_event ?ce (EPOLLIN, 20) ?w1 = Some w'"
    using w1(5) w'(1) by (simp add: one_event_def make_event_def call_event_def accept_cb_def io_cb_def)
  have it: "iter_ok demo_env 20 ?ce ?epoll ?w"
    using rt one w1 by (simp add: iter_ok_def may_accept_def Let_def demo_env_def)
  have "run_events ?ce [(EPOLLIN, 20)] 0 (Suc 0) ?w1 = Some w'"
    using one by (subst run_events_one) simp_all
  then have "event_base_iter (call_timer demo_env) ?ce ?epoll ?w = Some (OK, w')"
    using rt by (simp add: event_base_iter_def run_io_def del: run_events.simps)
  then have "worker_step 20 served_routes (call_route good_os) ?w w'"
    by (rule worker_step.iterate [where call = "call_route good_os" and os = demo_env, OF demo_env_good(2) it])
  then show ?thesis using w'(2) by blast
qed

theorem worker_invariant_witness:
  "\<exists>w. worker_step 20 served_routes (call_route good_os) (demo_w\<lparr>wid := 0, running := True\<rparr>) w \<and> worker_inv 20 w \<and> dom (cmem w) = {10}"
proof -
  obtain w where w: "worker_step 20 served_routes (call_route good_os) (demo_w\<lparr>wid := 0, running := True\<rparr>) w" "dom (cmem w) = {10}"
    using demo_first_step by blast
  then have "worker_inv 20 w"
    using worker_invariant [where en = demo_start and rts = served_routes and D = good_os
        and x = "app.fields (db_of 3 []) \<lparr>fsize = 0, fdata = None, ferror = 0\<rparr>" and i = 0 and w = w] by (auto simp: demo_w_def)
  then show ?thesis using w by blast
qed

lemma worker_loop_zero:
  assumes "\<And>w r w'. iter w = Some (r, w') \<Longrightarrow> r = OK" "worker_loop iter stop i w = Some (r, w')"
  shows "r = 0"
proof -
  let ?P = "\<lambda>iter' stop i w x. iter' = iter \<longrightarrow> fst x = (0::int)"
  have "?P iter stop i w (r, w')"
  proof (rule worker_loop.raw_induct [where P = ?P, OF _ assms(2)], intro impI)
    fix f iter' stop i w x
    assume IH: "\<And>iter' stop i w x. f iter' stop i w = Some x \<Longrightarrow> ?P iter' stop i w x"
      and body: "(if \<not> running w then Some (0, w)
        else do { (ret, w) \<leftarrow> iter' w;
                  if ret \<noteq> OK then Some (1, w\<lparr>running := False\<rparr>)
                  else f iter' stop (Suc i) (w\<lparr>running := running w \<and> \<not> stop i\<rparr>) }) = Some x"
      and eq: "iter' = iter"
    have IH': "fst x = 0" if "f iter s j v = Some x" for s j v x using IH that by blast
    show "fst x = 0"
      using body eq assms(1) by (auto simp: bind_eq_Some_conv split: if_splits dest: IH')
  qed
  then show ?thesis by simp
qed

text \<open>C40. An error of \<^verbatim>\<open>epoll_wait\<close> is taken for an empty batch of events: the iteration reports success, so a worker
  whose epoll instance has failed stays in its loop, and the exit value 1 of the thread is never
  returned.\<close>

theorem epoll_error_ignored:
  assumes "run_timers ct w = Some w1" "epoll_wait (epollfd w1) MAX_IO_EVENTS IO_TIMEOUT w1 = (n, es)" "n < 0"
  shows "event_base_iter ct ce epoll_wait w = Some (OK, w1)
    \<and> (\<forall>stop i w r w'. worker_loop (event_base_iter ct ce epoll_wait) stop i w = Some (r, w') \<longrightarrow> r = 0)"
proof -
  have "event_base_iter ct ce epoll_wait w = Some (r, w') \<Longrightarrow> r = OK" for w r w'
    using run_io_ok by (auto simp: event_base_iter_def bind_eq_Some_conv)
  then show ?thesis
    using assms worker_loop_zero [of "event_base_iter ct ce epoll_wait"] by (auto simp: event_base_iter_def run_io_def)
qed

theorem epoll_error_ignored_witness:
  "event_base_iter (call_timer demo_env) (call_event demo_env served_routes (call_route good_os demo_env)) (\<lambda>_ _ _ _. (- 1, [])) demo_w
     = Some (OK, demo_w\<lparr>ticks := 1\<rparr>)"
proof -
  have t: "troot (timers demo_w) = RBNIL" "ticks demo_w = 0" by (simp_all add: demo_w_def new_worker_def calloc_worker_def)
  show ?thesis
    using epoll_error_ignored [OF run_timers_none [OF t(1), of "call_timer demo_env"],
        of "\<lambda>_ _ _ _. (- 1, [])" "- 1" "[]" "call_event demo_env served_routes (call_route good_os demo_env)"] t(2) by simp
qed

end
