(* ===== verification/Cask_History.thy ===== *)
theory Cask_History
  imports Cask_Paste
begin

text \<open>
  What the threads share.  Apart from the callbacks of the routes, no function of a worker touches the
  objects the routes refer to; the contract \<open>shared_client\<close> lifts a relation between the states before
  and after a callback to whole iterations of the loop.  For the callbacks of the program the
  relation is a history of calls of \<^verbatim>\<open>db_insert\<close>.
\<close>

section \<open>Weakest liberal preconditions\<close>

text \<open>\<open>wlp r Q\<close>: if the computation \<open>r\<close> has a result, \<open>Q\<close> holds of it.  Rules for the operations of a worker
  are collected in \<open>wlp_rules\<close>.\<close>

definition wlp :: "'r option \<Rightarrow> ('r \<Rightarrow> bool) \<Rightarrow> bool" where
  "wlp r Q \<longleftrightarrow> (\<forall>y. r = Some y \<longrightarrow> Q y)"

named_theorems wlp_rules

lemma wlp_simps [simp]:
  "wlp None Q" "wlp (Some y) Q = Q y" "wlp (r \<bind> f) Q = wlp r (\<lambda>y. wlp (f y) Q)"
  "wlp (if b then x else z) Q = (if b then wlp x Q else wlp z Q)"
  "wlp (case p of (a, b) \<Rightarrow> g a b) Q = (case p of (a, b) \<Rightarrow> wlp (g a b) Q)"
  by (auto simp: wlp_def bind_eq_Some_conv split: prod.splits)

lemma wlpI: "(\<And>y. r = Some y \<Longrightarrow> Q y) \<Longrightarrow> wlp r Q"
  by (simp add: wlp_def)

lemma wlpD: "wlp r Q \<Longrightarrow> r = Some y \<Longrightarrow> Q y"
  by (simp add: wlp_def)

lemma wlp_True [simp]: "wlp r (\<lambda>_. True)"
  by (simp add: wlp_def)

text \<open>A number that does not matter.\<close>

lemma wlp_let_nat: "(\<And>n :: nat. wlp (f n) Q) \<Longrightarrow> wlp (Let t f) Q"
  by simp

section \<open>What the loop leaves alone\<close>

lemma worker_more_simps [simp]:
  "worker.more (set_conn w c cn) = worker.more w" "worker.more (sys_call w) = worker.more w"
  "worker.more (close_fd w fd) = worker.more w" "worker.more (free_conn w c) = worker.more w"
  "worker.more (assign_timer w c tm) = worker.more w" "worker.more (calloc_conn w c fd buf) = worker.more w"
  by (simp_all add: set_conn_def sys_call_def close_fd_def free_conn_def assign_timer_def calloc_conn_def)

text \<open>Reads do not change the state.\<close>

lemmas wlp_reads [wlp_rules] =
  wlpI [of "cmem w c" for w c] wlpI [of "evs w c" for w c] wlpI [of "get_timer w c" for w c]
  wlpI [of "list_del l c" for l c] wlpI [of "list_add_tail l p c" for l p c]
  wlpI [of "response_buffer A cn st b l" for A cn st b l] wlpI [of "ptr d k" for d k]
  wlpI [of "rbtree_leftmost s t" for s t] wlpI [of "match_route rts m u n" for rts m u n]
  wlpI [of "get_uri cn" for cn] wlpI [of "get_body cn" for cn] wlpI [of "valid_uri u l i" for u l i]
  wlpI [of "strtoull s" for s] wlpI [of "db_get D db i" for D db i] wlpI [of "db_insert D db b n" for D db b n]
  wlpI [of "n" for n :: "u32 option"] wlpI [of "n" for n :: "u64 option"]
  wlpI [of "parse_request cn" for cn] wlpI [of "memcpy d k s n" for d k s n]

lemma timer_more [wlp_rules]:
  fixes w :: "'a worker_scheme"
  shows "(\<And>w'. worker.more w' = worker.more w \<Longrightarrow> Q w') \<Longrightarrow> wlp (update_trigger w c) Q"
    "(\<And>r w'. worker.more w' = worker.more w \<Longrightarrow> P (r, w')) \<Longrightarrow> wlp (add_timer w c) P"
    "(\<And>r w'. worker.more w' = worker.more w \<Longrightarrow> P (r, w')) \<Longrightarrow> wlp (del_timer w c) P"
  by (auto simp: update_trigger_def add_timer_def del_timer_def get_time_def put_timer_def Let_def intro!: wlpI)

lemma event_more [wlp_rules]:
  fixes w :: "'a worker_scheme"
  shows "(\<And>r w'. worker.more w' = worker.more w \<Longrightarrow> P (r, w')) \<Longrightarrow> wlp (add_event ctl w c) P"
    "(\<And>r w'. worker.more w' = worker.more w \<Longrightarrow> P (r, w')) \<Longrightarrow> wlp (del_event ctl w c) P"
  by (auto simp: add_event_def del_event_def intro!: wlpI)

lemma close_connection_more [wlp_rules]:
  "(\<And>w'. worker.more w' = worker.more w \<Longrightarrow> Q w') \<Longrightarrow> wlp (close_connection os w c) Q"
  unfolding close_connection_def by (auto simp: Let_def intro!: wlp_rules)

lemma set_cstate_more [wlp_rules]:
  "(\<And>w'. worker.more w' = worker.more w \<Longrightarrow> Q w') \<Longrightarrow> wlp (set_cstate w c st) Q"
  unfolding set_cstate_def by (auto intro!: wlp_rules)

lemma reset_connection_more [wlp_rules]:
  "(\<And>r w'. worker.more w' = worker.more w \<Longrightarrow> P (r, w')) \<Longrightarrow> wlp (reset_connection os w c) P"
  unfolding reset_connection_def by (auto simp: Let_def intro!: wlp_rules)

lemma begin_read_more [wlp_rules]:
  "(\<And>w'. worker.more w' = worker.more w \<Longrightarrow> Q w') \<Longrightarrow> wlp (begin_read os w c) Q"
  unfolding begin_read_def by (auto simp: Let_def intro!: wlp_rules)

text \<open>For a loop the rule of a recursive call is the induction hypothesis.\<close>

lemma wlp_call:
  fixes w :: "'a worker_scheme"
  assumes "\<And>w'. r = Some w' \<Longrightarrow> worker.more w' = worker.more w" "\<And>w'. worker.more w' = worker.more w \<Longrightarrow> Q w'"
  shows "wlp r Q"
  using assms by (auto intro: wlpI)

lemma send_data_keeps: "send_data os w c = Some w' \<Longrightarrow> worker.more w' = worker.more w"
  apply (erule send_data.raw_induct [rotated, where P = "\<lambda>os w c w'. worker.more w' = worker.more w"])
  subgoal premises p for f os w c w'
  proof -
    note step = wlp_call [where r = "f os w c" for os w c, OF p(1)]
    show ?thesis
      by (rule wlpD [OF _ p(2)], unfold wlp_simps(3), rule wlp_reads(1), subst Let_def, intro wlp_let_nat)
        (auto simp: Let_def intro!: wlp_rules step split: send_res.splits)
  qed
  done

lemmas send_data_more [wlp_rules] = wlp_call [where r = "send_data os w c" for os w c, OF send_data_keeps]

lemma begin_send_more [wlp_rules]:
  "(\<And>w'. worker.more w' = worker.more w \<Longrightarrow> Q w') \<Longrightarrow> wlp (begin_send os w c) Q"
  unfolding begin_send_def by (auto simp: Let_def intro!: wlp_rules)

lemma send_response_more [wlp_rules]:
  "(\<And>w'. worker.more w' = worker.more w \<Longrightarrow> Q w') \<Longrightarrow> wlp (send_response os w c st b l) Q"
  unfolding send_response_def by (auto intro!: wlp_rules)

lemma route_404_more [wlp_rules]:
  "(\<And>w'. worker.more w' = worker.more w \<Longrightarrow> Q w') \<Longrightarrow> wlp (route_404 os w c) Q"
  unfolding route_404_def by (auto intro!: wlp_rules)

lemma on_accept_more [wlp_rules]:
  "(\<And>w'. worker.more w' = worker.more w \<Longrightarrow> Q w') \<Longrightarrow> wlp (on_accept os ev w) Q"
  unfolding on_accept_def accept_connection_def by (auto simp: Let_def intro!: wlp_rules split: option.splits)

lemma run_timers_loop_keeps:
  "run_timers_loop (call_timer os) now w = Some w' \<Longrightarrow> worker.more w' = worker.more w"
  for w w' :: "'a worker_scheme"
proof -
  let ?call = "call_timer os :: addr \<Rightarrow> addr \<Rightarrow> 'a worker_scheme \<Rightarrow> 'a worker_scheme option"
  let ?P = "\<lambda>call now w w'. call = ?call \<longrightarrow> worker.more w' = worker.more w"
  assume "run_timers_loop ?call now w = Some w'"
  then have "?P ?call now w w'"
    apply (rule run_timers_loop.raw_induct [rotated, where P = ?P])
    subgoal premises p for f call now w w'
    proof -
      note step = wlp_call [where r = "f ?call now w" for now w, OF p(1) [THEN mp, OF _ refl]]
      show ?thesis by (rule impI, rule wlpD [OF _ p(2)]) (auto simp: call_timer_def timeout_callback_def intro!: wlp_rules step)
    qed
    done
  then show ?thesis by simp
qed

lemma run_timers_more [wlp_rules]:
  "(\<And>w'. worker.more w' = worker.more w \<Longrightarrow> Q w') \<Longrightarrow> wlp (run_timers (call_timer os) w) Q"
  for w :: "'a worker_scheme"
  unfolding run_timers_def get_time_def by (auto simp: Let_def intro!: wlp_call [where r = "run_timers_loop call now w" for call now w, OF run_timers_loop_keeps])

section \<open>The contract of the shared objects\<close>

text \<open>
  \<open>R\<close> relates the state before some steps to the state after them.  It may only speak of what the loop
  leaves alone, and the calls of the routes have to respect it.
\<close>

locale shared_client =
  fixes call :: "env \<Rightarrow> 'c \<Rightarrow> addr \<Rightarrow> 'a worker_scheme \<Rightarrow> 'a worker_scheme option"
    and R :: "'a worker_scheme \<Rightarrow> 'a worker_scheme \<Rightarrow> bool"
  assumes R_same: "worker.more w' = worker.more w \<Longrightarrow> R w w'"
    and R_trans: "R u v \<Longrightarrow> R v w \<Longrightarrow> R u w"
    and R_call: "call os cb c w = Some w' \<Longrightarrow> R w w'"
begin

lemma R_after: "worker.more v = worker.more w \<Longrightarrow> (\<And>w'. r = Some w' \<Longrightarrow> R v w') \<Longrightarrow> wlp r (R w)"
  by (auto intro: wlpI R_trans [OF R_same])

lemma R_call_wlp: "worker.more v = worker.more w \<Longrightarrow> wlp (call os cb c v) (R w)"
  by (rule R_after [of v]) (auto intro: R_call)

lemma dispatch_R: "dispatch os rts (call os) w c = Some w' \<Longrightarrow> R w w'"
  by (erule wlpD [rotated]) (auto simp: dispatch_def Let_def intro!: wlp_rules R_call_wlp R_same split: option.splits)

lemma read_data_R: "read_data os rts (call os) w c = Some w' \<Longrightarrow> R w w'"
  apply (drule read_data_induct [where P = "\<lambda>os rts call' w c w'. call' = call os \<longrightarrow> R w w'"])
  subgoal premises p for f os rts call' w c cn w'
  proof (rule impI, rule wlpD [OF _ p(3)])
    assume eq: "call' = call os"
    note step = R_after [where v = v and r = "f os rts (call os) v c" for v, OF _ p(1) [THEN mp, OF _ refl]]
      R_after [where v = v and r = "dispatch os rts (call os) v c" for v, OF _ dispatch_R]
    show "wlp (read_round (\<lambda>w. f os rts call' w c) os rts call' w c cn) (R w)"
      unfolding read_round_def eq
      by (auto simp: Let_def intro!: wlp_rules step R_same split: recv_res.splits prod.splits)
  qed
  by simp

lemma io_callback_R: "io_callback os rts (call os) ev c w = Some w' \<Longrightarrow> R w w'"
  by (erule wlpD [rotated])
    (auto simp: io_callback_def intro!: wlp_rules R_same R_after [where v = v and r = "read_data os rts (call os) v c" for v, OF _ read_data_R]
      split: connection_state.splits)

lemma call_event_R: "call_event os rts (call os) cb fd ev d w = Some w' \<Longrightarrow> R w w'"
  by (erule wlpD [rotated])
    (auto simp: call_event_def intro!: wlp_rules R_same
      R_after [where v = v and r = "io_callback os rts (call os) ev c v" for ev c v, OF _ io_callback_R])

lemma run_events_R: "run_events (call_event os rts (call os)) es i k w = Some w' \<Longrightarrow> R w w'"
proof (induction k arbitrary: i w)
  case (Suc k)
  from Suc.prems obtain e w1 and ev :: event where "call_event os rts (call os) (ecb ev) (evfd ev) e (edata ev) w = Some w1"
    "run_events (call_event os rts (call os)) es (Suc i) k w1 = Some w'"
    by (auto simp: bind_eq_Some_conv split: if_splits)
  then show ?case using R_trans [OF call_event_R] Suc.IH by blast
qed (simp add: R_same)

lemma event_base_iter_R:
  assumes "event_base_iter (call_timer os) (call_event os rts (call os)) epoll_wait w = Some (ret, w')"
  shows "R w w'"
proof -
  obtain w1 where w1: "run_timers (call_timer os) w = Some w1" "run_io (call_event os rts (call os)) epoll_wait w1 IO_TIMEOUT = Some (ret, w')"
    using assms by (auto simp: event_base_iter_def bind_eq_Some_conv)
  have "R w w1" by (rule wlpD [OF run_timers_more w1(1)]) (rule R_same)
  moreover have "R w1 w'"
    using w1(2) run_events_R R_same by (auto simp: run_io_def bind_eq_Some_conv split: prod.splits if_splits)
  ultimately show ?thesis by (rule R_trans)
qed

lemma worker_step_R: "worker_step wa rts call w w' \<Longrightarrow> R w w'"
  by (erule worker_stepE) (rule event_base_iter_R)

end

section \<open>Histories of the database\<close>

text \<open>\<open>inserted D db vs db'\<close>: \<open>db'\<close> is what calls of \<^verbatim>\<open>db_insert\<close> with the values \<open>vs\<close>, one after the other, make of \<open>db\<close>.\<close>

inductive inserted :: "db_os \<Rightarrow> db \<Rightarrow> bytes list \<Rightarrow> db \<Rightarrow> bool" for D db where
  none: "inserted D db [] db"
| insert: "inserted D db vs db1 \<Longrightarrow> db_insert D db1 body n = Some (ret, i, db2) \<Longrightarrow>
     inserted D db (vs @ [take (unat n) body]) db2"

lemma inserted_trans:
  assumes "inserted D db2 ws db3" "inserted D db1 vs db2"
  shows "inserted D db1 (vs @ ws) db3"
  using assms(1)
proof (induction rule: inserted.induct)
  case none
  then show ?case using assms(2) by simp
next
  case (insert vs' db1' body n ret i db2')
  from inserted.insert [OF insert.IH insert.hyps(2)] show ?case by simp
qed

text \<open>The contents follow the history as long as they fit.\<close>

lemma inserted_image:
  assumes "inserted D (db_of nb vals) vs db'" "os_ok D" "store_ok nb (vals @ vs)"
  shows "db' = db_of nb (vals @ vs)"
  using assms(1,3)
proof (induction rule: inserted.induct)
  case (insert vs db1 body n ret i db2)
  let ?v = "take (unat n) body"
  have ok: "store_ok nb ((vals @ vs) @ [?v])" using insert.prems by simp
  then have db1: "db1 = db_of nb (vals @ vs)" using insert.IH store_ok_prefix by blast
  have "unat n \<le> length body"
    using db_insert_short [OF assms(2) ok] insert.hyps(2) db1 by (metis not_le option.distinct(1))
  then have "n = of_nat (length ?v)" "take (length ?v) body = ?v" by simp_all
  then show ?case using insert.hyps(2) db1 db_insert_free [OF assms(2) ok, of body] by (metis Pair_inject append.assoc option.inject)
qed simp

text \<open>The mapping stays and the file does not shrink: a database that could be closed still can.\<close>

definition grows :: "db \<Rightarrow> db \<Rightarrow> bool" where
  "grows db db' \<longleftrightarrow> mapsize db' = mapsize db \<and> length (dbfile db) \<le> length (dbfile db')"

lemma grows_refl: "grows db db"
  by (simp add: grows_def)

lemma length_write_le: "length f \<le> length (write_at f k bs)"
  by (auto simp: write_at_def min_def)

lemma pwrite_grows: "pwrite os f k bs = (r, f') \<Longrightarrow> length f \<le> length f'"
  by (auto simp: pwrite_def Let_def length_write_le split: if_splits)

lemma db_grows:
  "(\<And>db'. grows db db' \<Longrightarrow> Q db') \<Longrightarrow> wlp (map_wr64 db k x) Q"
  "(\<And>r j db'. grows db db' \<Longrightarrow> P (r, j, db')) \<Longrightarrow> wlp (insert_record os db i p v n) P"
  by (auto simp: map_wr64_def insert_record_def write_record_def grows_def length_write_le Let_def wlp_def bind_eq_Some_conv
      split: prod.splits if_splits dest!: pwrite_grows)

lemma db_insert_grows:
  assumes "db_insert D db body n = Some (ret, i, db')"
  shows "grows db db'"
proof -
  have "wlp (db_insert D db body n) (\<lambda>(ret, i, db'). grows db db')"
    unfolding db_insert_def
    by (auto simp: Let_def grows_refl intro!: db_grows wlpI [of "map_rd64 db k" for db k] wlpI [of "last_link D f k" for D f k]
        split: option.splits prod.splits dest!: pwrite_grows) (auto simp: grows_def)
  then show ?thesis using assms by (auto dest: wlpD)
qed

lemma inserted_grows: "inserted D db vs db' \<Longrightarrow> grows db db'"
  by (induction rule: inserted.induct) (auto dest: db_insert_grows simp: grows_def)

lemma inserted_close:
  assumes "inserted D db vs db'" "close_db db = Some f"
  shows "close_db db' = Some (dbfile db')"
  using inserted_grows [OF assms(1)] assms(2) by (auto simp: close_db_def map_rd64_def grows_def split: if_splits)

text \<open>The callbacks of the program insert, or leave the database alone.\<close>

definition inserts :: "db_os \<Rightarrow> 'a app_scheme \<Rightarrow> 'a app_scheme \<Rightarrow> bool" where
  "inserts D w w' \<longleftrightarrow> (\<exists>vs. inserted D (adb w) vs (adb w'))"

lemma inserts_same: "worker.more w' = worker.more w \<Longrightarrow> inserts D w w'"
  using app_more(1) [of w' w] inserted.none by (auto simp: inserts_def)

interpretation posts: shared_client "call_route D" "inserts D" for D
proof
  fix os cb c and u v w w' :: "'a app_scheme"
  show "inserts D w w'" if "worker.more w' = worker.more w" using that by (rule inserts_same)
  show "inserts D u w" if "inserts D u v" "inserts D v w" using that inserted_trans unfolding inserts_def by blast
  have ins: "inserts D w w'" if "db_insert D (adb w) body n = Some (r, i, db)" "worker.more w' = worker.more (w\<lparr>adb := db\<rparr>)"
    for w' body n r i db
    using inserted.insert [OF inserted.none that(1)] app_more(1) [OF that(2)] by (auto simp: inserts_def)
  show "inserts D w w'" if "call_route D os cb c w = Some w'"
    using that by (rule wlpD [rotated])
      (auto simp: call_route_def index_callback_def get_callback_def post_callback_def Let_def
        intro!: wlp_rules intro: inserts_same ins split: route_cb.splits option.splits)
qed

end
