(* ===== verification/Cask_Process.thy ===== *)
theory Cask_Process
  imports Cask_Main Cask_Conn_Spec Cask_History
begin

text \<open>
  The program as a whole: the threads of the workers as an interleaving of steps beside \<^verbatim>\<open>main\<close>, the
  invariant of the process, and the run of \<^verbatim>\<open>main\<close> from its options to its exit.
\<close>

section \<open>Threads\<close>

text \<open>What the routes refer to is one object for all workers: after a step they all see it as the worker
  that made the step has left it.\<close>

definition share :: "'a \<Rightarrow> 'a cask \<Rightarrow> 'a cask" where
  "share x k = k\<lparr>wmem := \<lambda>a. map_option (worker.more_update (\<lambda>_. x)) (wmem k a)\<rparr>"

text \<open>A step of a thread: it sets its flag when it begins, and then iterates its loop.\<close>

inductive thread_step ::
  "'c routes \<Rightarrow> (env \<Rightarrow> 'c \<Rightarrow> addr \<Rightarrow> 'a worker_scheme \<Rightarrow> 'a worker_scheme option) \<Rightarrow> 'a cask \<Rightarrow> 'a cask \<Rightarrow> bool"
  for rts call where
  begins: "wmem k wa = Some w \<Longrightarrow> \<not> running w \<Longrightarrow>
     thread_step rts call k (k\<lparr>wmem := (wmem k)(wa \<mapsto> w\<lparr>running := True\<rparr>)\<rparr>)"
| iterates: "wmem k wa = Some w \<Longrightarrow> running w \<Longrightarrow> worker_step wa rts call w w' \<Longrightarrow>
     thread_step rts call k (share (worker.more w') (k\<lparr>wmem := (wmem k)(wa \<mapsto> w')\<rparr>))"

section \<open>The invariant of the process\<close>

definition alive :: "'a cask \<Rightarrow> addr list \<Rightarrow> bool" where
  "alive k ws \<longleftrightarrow> cask_ok k ws \<and>
     (\<forall>wa\<in>set ws. \<exists>w. wmem k wa = Some w \<and> worker_inv wa w \<and> 0 \<le> epollfd w \<and> epollfd w \<notin> kfds k)"

text \<open>Nothing but the workers has changed.\<close>

definition only_workers :: "'a cask \<Rightarrow> 'a cask \<Rightarrow> bool" where
  "only_workers k k' \<longleftrightarrow> k' = k\<lparr>wmem := wmem k'\<rparr>"

lemma only_workersD:
  assumes "only_workers k k'"
  shows "krunning k' = krunning k" "ipcfd k' = ipcfd k" "kfds k' = kfds k" "num_workers k' = num_workers k"
    "workers k' = workers k" "klinks k' = klinks k"
  by (subst assms [unfolded only_workers_def], simp)+

lemma worker_inv_more: "worker_inv wa (worker.more_update (\<lambda>_. x) w) = worker_inv wa w"
proof -
  let ?w = "worker.more_update (\<lambda>_. x) w"
  have e: "get_timer ?w = get_timer w" "fd_of ?w = fd_of w" by (auto simp: get_timer_def fd_of_def)
  have "ready ?w cs t = ready w cs t" for cs t
    using timers_ok_cong [of ?w w] by (simp add: ready_def worker_ok_def conn_sound_def conn_ready_def e)
  then show ?thesis by (simp add: worker_inv_def serving_def e)
qed

lemma alive_worker:
  assumes "alive k ws" "wmem k wa = Some w"
  shows "wa \<in> set ws" "worker_inv wa w" "0 \<le> epollfd w" "epollfd w \<notin> kfds k"
proof -
  show "wa \<in> set ws" using assms by (auto simp: alive_def cask_ok_def)
  then show "worker_inv wa w" "0 \<le> epollfd w" "epollfd w \<notin> kfds k" using assms by (auto simp: alive_def)
qed

text \<open>One worker that is replaced by one in the invariant.\<close>

lemma alive_update:
  assumes a: "alive k ws" and w: "wmem k wa = Some w"
    and w': "worker_inv wa w \<Longrightarrow> worker_inv wa w'" "epollfd w' = epollfd w"
  shows "alive (k\<lparr>wmem := (wmem k)(wa \<mapsto> w')\<rparr>) ws"
  using assms alive_worker [OF a w] by (auto simp: alive_def cask_ok_def)

lemma alive_share: "alive k ws \<Longrightarrow> alive (share x k) ws"
  by (fastforce simp: alive_def cask_ok_def share_def worker_inv_more dom_def)

lemma thread_step_keeps:
  assumes "thread_step rts (call_route D) k k'" "alive k ws"
  shows "alive k' ws \<and> only_workers k k'"
  using assms(1)
proof (cases rule: thread_step.cases)
  case (begins wa w)
  then show ?thesis
    using alive_update [OF assms(2) begins(2), of "w\<lparr>running := True\<rparr>"] by (simp add: worker_inv_running only_workers_def)
next
  case (iterates wa w w')
  have "alive (k\<lparr>wmem := (wmem k)(wa \<mapsto> w')\<rparr>) ws"
  proof (rule alive_update [OF assms(2) iterates(2)])
    have inv: "worker_inv wa w" by (rule alive_worker [OF assms(2) iterates(2)])
    show "epollfd w' = epollfd w" using paste.worker_step_keeps [OF iterates(4) inv] by simp
    show "worker_inv wa w'" using paste.worker_step_keeps [OF iterates(4) inv] by simp
  qed
  then have "alive k' ws" unfolding iterates(1) by (rule alive_share)
  then show ?thesis using iterates(1) by (simp add: only_workers_def share_def)
qed

lemma threads_keep:
  assumes "(thread_step rts (call_route D))\<^sup>*\<^sup>* k k'" "alive k ws"
  shows "alive k' ws \<and> only_workers k k'"
  using assms(1)
proof (induction rule: rtranclp_induct)
  case base
  then show ?case using assms(2) by (simp add: only_workers_def)
next
  case (step k1 k2)
  then have "alive k2 ws" "only_workers k1 k2" using thread_step_keeps by blast+
  moreover have "k2 = k\<lparr>wmem := wmem k2\<rparr>" if "k1 = k\<lparr>wmem := wmem k1\<rparr>" "k2 = k1\<lparr>wmem := wmem k2\<rparr>"
    by (subst that(2), subst that(1)) simp
  ultimately show ?case using step.IH by (auto simp: only_workers_def)
qed

section \<open>The shared database\<close>

text \<open>All workers see the same objects, in particular the same database.\<close>

definition sees :: "'a \<Rightarrow> 'a cask \<Rightarrow> bool" where
  "sees x k \<longleftrightarrow> (\<forall>wa w. wmem k wa = Some w \<longrightarrow> worker.more w = x)"

definition shares :: "'b app_ext cask \<Rightarrow> db \<Rightarrow> bool" where
  "shares k d \<longleftrightarrow> (\<forall>wa w. wmem k wa = Some w \<longrightarrow> adb w = d)"

lemma shares_share:
  fixes w :: "'b app_scheme"
  shows "shares (share (worker.more w) k) (adb w)"
proof -
  have "adb (worker.more_update (\<lambda>_. worker.more w) v) = adb w" for v :: "'b app_scheme"
    by (rule app_more(1)) simp
  then show ?thesis by (auto simp: shares_def share_def)
qed

lemma sees_shares: "sees (app.fields d f) k \<Longrightarrow> shares k d"
proof -
  have "adb w = d" if "worker.more w = app.fields d f" for w
    using that by (cases w rule: app.cases) (simp add: app.defs)
  then show "sees (app.fields d f) k \<Longrightarrow> shares k d" by (simp add: sees_def shares_def)
qed

lemma thread_step_inserts:
  fixes k k' :: "'b app_ext cask"
  assumes "thread_step rts (call_route D) k k'" "shares k d"
  shows "\<exists>vs d'. inserted D d vs d' \<and> shares k' d'"
  using assms(1)
proof (cases rule: thread_step.cases)
  case (begins wa w)
  have "adb (w\<lparr>running := True\<rparr>) = adb w" by (rule app_more(1)) simp
  then have "shares k' d" using assms(2) begins by (auto simp: shares_def)
  then show ?thesis using inserted.none by blast
next
  case (iterates wa w w')
  have "adb w = d" using iterates(2) assms(2) by (simp add: shares_def)
  then obtain vs where "inserted D d vs (adb w')"
    using posts.worker_step_R [OF iterates(4)] by (auto simp: inserts_def)
  then show ?thesis using shares_share unfolding iterates(1) by blast
qed

lemma threads_insert:
  fixes k k' :: "'b app_ext cask"
  assumes "(thread_step rts (call_route D))\<^sup>*\<^sup>* k k'" "shares k d"
  shows "\<exists>vs d'. inserted D d vs d' \<and> shares k' d'"
  using assms(1)
proof (induction rule: rtranclp_induct)
  case base
  then show ?case using assms(2) inserted.none by blast
next
  case (step k1 k2)
  then show ?case using thread_step_inserts inserted_trans by metis
qed

section \<open>Starting the workers\<close>

text \<open>With every thread begun, the process can be shut down.\<close>

definition all_running :: "'a cask \<Rightarrow> bool" where
  "all_running k \<longleftrightarrow> (\<forall>wa w. wmem k wa = Some w \<longrightarrow> running w)"

lemma alive_can_stop:
  assumes "alive k ws" "all_running k" "wa \<in> set ws"
  shows "can_stop k wa"
  using assms unfolding alive_def all_running_def can_stop_def by metis

text \<open>The start of \<open>n\<close> workers from number \<open>i\<close> on, by a system that refuses nothing and gives new objects.\<close>

definition starts_ok :: "(nat \<Rightarrow> start_env) \<Rightarrow> nat \<Rightarrow> nat \<Rightarrow> 'a cask \<Rightarrow> bool" where
  "starts_ok S i n k \<longleftrightarrow>
     (\<forall>j. i \<le> j \<and> j < i + n \<longrightarrow> start_good (S j) \<and> sw_pthread (S j) = 0
        \<and> sw_socket (S j) \<notin> kfds k \<and> sw_epoll (S j) \<notin> kfds k \<and> sw_calloc (S j) \<noteq> workers k)
     \<and> inj_on (\<lambda>j. sw_calloc (S j)) {i..<i + n}"

lemma start_workers_ok:
  "alive k ws \<Longrightarrow> starts_ok S i n k \<Longrightarrow> set ws \<inter> (\<lambda>j. sw_calloc (S j)) ` {i..<i + n} = {} \<Longrightarrow>
    \<exists>k'. start_workers S x i n k = Some (True, k') \<and> alive k' (ws @ map (\<lambda>j. sw_calloc (S j)) [i..<i + n])
      \<and> kfds k' = kfds k \<and> ipcfd k' = ipcfd k \<and> workers k' = workers k \<and> (sees x k \<longrightarrow> sees x k')"
proof (induction n arbitrary: i k ws)
  case (Suc n)
  let ?en = "S i" and ?w = "(new_worker (S i) x)\<lparr>wid := current_id k\<rparr>"
  have k: "cask_ok k ws" using Suc.prems(1) by (simp add: alive_def)
  have g: "start_good ?en" "sw_pthread ?en = 0" "sw_socket ?en \<notin> kfds k" "sw_epoll ?en \<notin> kfds k" "sw_calloc ?en \<noteq> workers k"
    using Suc.prems(2) by (auto simp: starts_ok_def)
  have wa: "sw_calloc ?en \<notin> set (workers k # ws)" using Suc.prems(3) g(5) by auto
  obtain l where l: "start_worker ?en x k = Some (OK, k\<lparr>current_id := current_id k + 1, klinks := l,
      wmem := (wmem k)(sw_calloc ?en \<mapsto> ?w), num_workers := num_workers k + 1\<rparr>)"
    "ring l (workers k) (ws @ [sw_calloc ?en])" "worker_inv (sw_calloc ?en) ?w" "fds_exact ?w []"
    by (rule start_worker_success [OF k wa g(3,1,2)])
  let ?k = "k\<lparr>current_id := current_id k + 1, klinks := l, wmem := (wmem k)(sw_calloc ?en \<mapsto> ?w), num_workers := num_workers k + 1\<rparr>"
  have e: "epollfd ?w = sw_epoll ?en" "worker.more ?w = x" by (simp_all add: new_worker_def calloc_worker_def)
  have se: "sees x k \<longrightarrow> sees x ?k" using e(2) by (auto simp: sees_def)
  have "alive ?k (ws @ [sw_calloc ?en])"
    using Suc.prems(1) l(2-4) g(4) e wa by (auto simp: alive_def cask_ok_def fds_exact_def)
  moreover have "starts_ok S (Suc i) n ?k"
    using Suc.prems(2) by (auto simp: starts_ok_def intro: inj_on_subset)
  moreover have "set (ws @ [sw_calloc ?en]) \<inter> (\<lambda>j. sw_calloc (S j)) ` {Suc i..<Suc i + n} = {}"
    using Suc.prems(2,3) by (fastforce simp: starts_ok_def inj_on_def)
  ultimately obtain k' where "start_workers S x (Suc i) n ?k = Some (True, k')"
    "alive k' ((ws @ [sw_calloc ?en]) @ map (\<lambda>j. sw_calloc (S j)) [Suc i..<Suc i + n])"
    "kfds k' = kfds ?k" "ipcfd k' = ipcfd ?k" "workers k' = workers ?k" "sees x ?k \<longrightarrow> sees x k'"
    using Suc.IH by blast
  then show ?case using l(1) se upt_conv_Cons [of i "i + Suc n"] by simp
qed simp

lemma start_workers_all:
  assumes "alive k []" "starts_ok S 0 n k"
  obtains k' where "start_workers S x 0 n k = Some (True, k')" "alive k' (map (\<lambda>j. sw_calloc (S j)) [0..<n])"
    "kfds k' = kfds k" "ipcfd k' = ipcfd k" "sees x k'"
proof -
  have "sees x k" using assms(1) by (auto simp: sees_def alive_def cask_ok_def)
  then show thesis using that start_workers_ok [OF assms, of x] by fastforce
qed

section \<open>The monitor loop\<close>

text \<open>Whatever is written, the report ends: there are as many workers as the count says.\<close>

lemma report_workers_defined:
  "ring (klinks k) (workers k) (xs @ ys) \<Longrightarrow> set ys \<subseteq> dom (wmem k) \<Longrightarrow> ys \<noteq> [] \<Longrightarrow>
    \<exists>out. report_workers en k (length ys) i (hd ys) = Some out"
proof (induction ys arbitrary: xs i)
  case (Cons y ys)
  obtain w where w: "wmem k y = Some w" using Cons.prems(2) by auto
  have n: "get_next (klinks k) y = Some (hd (ys @ [workers k]))" using Cons.prems(1) by (rule ring_next)
  have "\<exists>out. report_workers en k (length ys) (Suc i) (hd (ys @ [workers k])) = Some out"
    using Cons.IH [of "xs @ [y]"] Cons.prems by (cases "ys = []") auto
  then show ?case using w n by auto
qed simp

text \<open>A client of the monitor socket: it is not accepted, or it sends a whole request.\<close>

definition query_ok :: "ipc_env \<Rightarrow> 'a cask \<Rightarrow> bool" where
  "query_ok en k \<longleftrightarrow> ipc_accept en < 0
     \<or> ipc_accept en \<notin> kfds k \<and> (case ipc_read en of None \<Rightarrow> False | Some bs \<Rightarrow> length bs = 8)"

lemma handle_ipc_returns:
  assumes k: "cask_ok k ws" "length ws < 2 ^ 32" and q: "query_ok en k"
  obtains out where "handle_ipc en k = Some (out, k)"
proof (cases "ipc_accept en < 0")
  case True
  then show thesis using that by (simp add: handle_ipc_def)
next
  case False
  then obtain bs where bs: "ipc_read en = Some bs" "length bs = 8" "ipc_accept en \<notin> kfds k"
    using q by (auto simp: query_ok_def split: option.splits)
  have rg: "ring (klinks k) (workers k) ws" and dom: "dom (wmem k) = set ws" and n: "num_workers k = of_nat (length ws)"
    using k(1) by (auto simp: cask_ok_def)
  have u: "unat (num_workers k) = length ws" unfolding n using k(2) by (simp add: unat_of_nat)
  let ?k = "k\<lparr>kfds := insert (ipc_accept en) (kfds k)\<rparr>"
  have "\<exists>out. report_workers en ?k (length ws) 2 (if ws = [] then NULL else hd ws) = Some out"
    using report_workers_defined [of ?k "[]" ws en 2] rg dom by (cases "ws = []") auto
  moreover have "close_k ?k (ipc_accept en) = k" using bs(3) by (simp add: close_k_def)
  ultimately have "\<exists>out. handle_ipc en k = Some (out, k)"
    using False bs u ring_ends(1) [OF rg] by (auto simp: handle_ipc_def Let_def)
  then show thesis using that by blast
qed

text \<open>The returns of \<^verbatim>\<open>pselect\<close>: before each of them the threads make steps; the last one is an error or an
  interruption by a signal, at a time when every thread has begun, the others are queries.\<close>

definition stops :: "'a wait \<Rightarrow> bool" where
  "stops x \<longleftrightarrow> w_signal x \<or> w_res x < 0 \<and> \<not> w_eintr x"

fun waits_ok ::
  "'c routes \<Rightarrow> (env \<Rightarrow> 'c \<Rightarrow> addr \<Rightarrow> 'a worker_scheme \<Rightarrow> 'a worker_scheme option) \<Rightarrow> 'a wait list \<Rightarrow> 'a cask \<Rightarrow> bool" where
  "waits_ok rts call [] k = False"
| "waits_ok rts call (x # xs) k =
     ((thread_step rts call)\<^sup>*\<^sup>* k (w_others x k)
      \<and> (if stops x then all_running (w_others x k)
         else (w_res x \<noteq> 0 \<and> w_isset x \<longrightarrow> query_ok (w_ipc x) (w_others x k)) \<and> waits_ok rts call xs (w_others x k)))"

lemma alive_sighandler: "alive (sighandler k) ws = alive k ws" "alive (k\<lparr>krunning := b\<rparr>) ws = alive k ws"
  by (simp_all add: alive_def cask_ok_def sighandler_def)

lemma shares_sighandler: "shares (sighandler k) d = shares k d"
  by (simp add: shares_def sighandler_def)

lemma monitor_loop_stops:
  "waits_ok rts (call_route D) xs k \<Longrightarrow> alive k ws \<Longrightarrow> length ws < 2 ^ 32 \<Longrightarrow> krunning k \<Longrightarrow> shares k d \<Longrightarrow>
    \<exists>outs k' vs d'. monitor_loop xs code k = Some (1, outs, k') \<and> alive k' ws \<and> all_running k'
      \<and> kfds k' = kfds k \<and> ipcfd k' = ipcfd k \<and> inserted D d vs d' \<and> shares k' d'"
proof (induction xs arbitrary: k d)
  case (Cons x xs)
  let ?k = "w_others x k"
  have o: "alive ?k ws" "only_workers k ?k" using threads_keep [OF _ Cons.prems(2)] Cons.prems(1) by auto
  note O = only_workersD [OF o(2)]
  obtain vs1 d1 where d1: "inserted D d vs1 d1" "shares ?k d1"
    using threads_insert [OF _ Cons.prems(5)] Cons.prems(1) by fastforce
  show ?case
  proof (cases "stops x")
    case True
    then have "all_running ?k" using Cons.prems(1) by simp
    let ?k' = "if w_signal x then sighandler ?k else ?k"
    have "monitor_loop (x # xs) code k = Some (1, [], ?k')"
      using True Cons.prems(4) by (subst monitor_loop.simps) (auto simp: stops_def Let_def sighandler_def)
    moreover have "alive ?k' ws" "all_running ?k'" "kfds ?k' = kfds k" "ipcfd ?k' = ipcfd k" "shares ?k' d1"
      using o(1) O \<open>all_running ?k\<close> d1(2) alive_sighandler(1) [of ?k ws]
      by (simp_all add: shares_sighandler all_running_def) (simp_all add: sighandler_def)
    ultimately show ?thesis using d1(1) by blast
  next
    case False
    then have r: "waits_ok rts (call_route D) xs ?k" and q: "w_res x \<noteq> 0 \<and> w_isset x \<longrightarrow> query_ok (w_ipc x) ?k"
      using Cons.prems(1) by auto
    obtain outs k' vs d' where k': "monitor_loop xs code ?k = Some (1, outs, k')" "alive k' ws" "all_running k'"
      "kfds k' = kfds k" "ipcfd k' = ipcfd k" "inserted D d1 vs d'" "shares k' d'"
      using Cons.IH [OF r o(1) Cons.prems(3) _ d1(2)] O Cons.prems(4) by auto
    note ins = inserted_trans [OF k'(6) d1(1)]
    have step: "monitor_loop (x # xs) code k =
        (if w_res x \<noteq> 0 \<and> w_isset x
         then do { (out, k) \<leftarrow> handle_ipc (w_ipc x) ?k; (code, outs, k) \<leftarrow> monitor_loop xs code k; Some (code, out # outs, k) }
         else monitor_loop xs code ?k)"
      using False Cons.prems(4) O(1) by (subst monitor_loop.simps) (auto simp: stops_def Let_def)
    show ?thesis
    proof (cases "w_res x \<noteq> 0 \<and> w_isset x")
      case True
      have "cask_ok ?k ws" using o(1) by (simp add: alive_def)
      then obtain out where "handle_ipc (w_ipc x) ?k = Some (out, ?k)"
        by (rule handle_ipc_returns [OF _ Cons.prems(3)]) (use q True in simp)
      then show ?thesis using k' step True ins by auto
    qed (use k' step ins in auto)
  qed
qed simp

section \<open>The run of the program\<close>

lemma map_file_fds:
  assumes "\<forall>fd. op = Inr fd \<longrightarrow> fd \<notin> open_fds R" "None \<notin> range mm"
  shows "open_fds (snd (map_file st op mm R)) = open_fds R"
proof -
  have "\<exists>d. mm n = Some d" for n using assms(2) by (metis not_None_eq rangeI)
  then show ?thesis using assms(1) by (auto simp: map_file_def Let_def split: sum.splits option.splits) (metis option.distinct(1))
qed

lemma setup_ipc_good:
  assumes "strlen path = Some n" "n \<le> UNIX_PATH_MAX" "0 \<le> s" "\<forall>a. 0 \<le> bind_res a" "0 \<le> l"
  shows "setup_ipc s bind_res l path F = Some (s, insert s F)"
proof -
  have "n \<le> length path" using assms(1) length_takeWhile_le [of _ path] by (auto simp: strlen_def split: if_splits)
  then obtain a where "memcpy (replicate UNIX_PATH_MAX NUL) 0 path n = Some a"
    using assms(2) by (simp add: memcpy_def)
  then show ?thesis using assms by (auto simp: setup_ipc_def Let_def not_less [symmetric])
qed

lemma main_out_ok:
  assumes k: "alive k ws" "all_running k" and d: "close_db db = Some d"
  shows "\<exists>R' k'. main_out os db f R k = Some (d, R', k') \<and> cask_ok k' [] \<and> kfds k' = kfds k - {ipcfd k}"
proof -
  let ?k = "close_k k (ipcfd k)"
  have "alive ?k ws" "all_running ?k" using k by (auto simp: alive_def cask_ok_def close_k_def all_running_def)
  then have "cask_ok ?k ws" "\<forall>wa\<in>set ws. can_stop ?k wa" using alive_can_stop by (auto simp: alive_def)
  then show ?thesis using shutdown_list [of ?k ws os] d by (auto simp: main_out_def Let_def) (auto simp: close_k_def)
qed

lemma db_object_shares:
  assumes "alive k ws" "ws \<noteq> []" "shares k d"
  shows "db_object k db = d"
proof -
  have "get_next (klinks k) (workers k) = Some (hd ws)" using ring_first [of "klinks k" "workers k" ws] assms(1,2) by (simp add: alive_def cask_ok_def)
  moreover obtain w where "wmem k (hd ws) = Some w" using assms(1,2) unfolding alive_def by (meson hd_in_set)
  ultimately show ?thesis using assms(3) by (simp add: db_object_def shares_def)
qed

text \<open>A system that refuses nothing at start-up: all calls succeed, and descriptors and objects are new.\<close>

definition boot_ok :: "'a main_env \<Rightarrow> params \<Rightarrow> 'a cask \<Rightarrow> bool" where
  "boot_ok M p k0 \<longleftrightarrow>
     m_mutex M = 0 \<and> 0 \<le> m_sigmask M \<and> m_addrinfo M (port p) = 0
     \<and> 0 \<le> m_socket M \<and> m_socket M \<notin> kfds k0 \<and> (\<forall>a. 0 \<le> m_bind M a) \<and> 0 \<le> m_listen M
     \<and> (\<forall>fd. m_open M = Inr fd \<longrightarrow> fd \<notin> insert (m_socket M) (kfds k0)) \<and> None \<notin> range (m_mmap M)
     \<and> alloc_ok (m_os M)
     \<and> starts_ok (m_start M) 0 (unat (pworkers p)) (k0\<lparr>kfds := insert (m_socket M) (kfds k0)\<rparr>)"

text \<open>The static \<^verbatim>\<open>struct cask\<close> before \<^verbatim>\<open>main\<close>.\<close>

definition zeroed :: "'a cask \<Rightarrow> bool" where
  "zeroed k \<longleftrightarrow> workers k \<noteq> NULL \<and> wmem k = Map.empty \<and> num_workers k = 0"

lemma zeroed_alive:
  assumes "zeroed k" shows "alive (k\<lparr>started_at := t, klinks := LIST_INIT_HEAD (klinks k) (workers k), ipcfd := i, kfds := F\<rparr>) []"
  using assms ring_init [of "workers k" "klinks k"] by (simp add: alive_def cask_ok_def zeroed_def)

section \<open>Properties\<close>


definition demo_process :: "unit app_ext cask" where
  "demo_process = demo_cask\<lparr>wmem := [20 \<mapsto> demo_w\<lparr>wid := 0, running := True\<rparr>]\<rparr>"



text \<open>An example: one worker, a status request, then a signal once the thread of the worker runs.\<close>

definition begin_20 :: "'a cask \<Rightarrow> 'a cask" where
  "begin_20 k = (case wmem k 20 of None \<Rightarrow> k
     | Some w \<Rightarrow> if running w then k else k\<lparr>wmem := (wmem k)(20 \<mapsto> w\<lparr>running := True\<rparr>)\<rparr>)"

definition demo_main :: "unit app_ext main_env" where
  "demo_main = \<lparr>m_clock = Some (1, 0), m_mutex = 0, m_sigmask = 0, m_addrinfo = \<lambda>_. 0, m_dbos = good_os, m_files = \<lambda>_. None,
     m_socket = 3, m_bind = \<lambda>_. 0, m_listen = 0, m_stat = Inl ENOENT, m_open = Inl ENOENT, m_mmap = \<lambda>n. Some (replicate n NUL),
     m_start = \<lambda>_. demo_start, m_os = demo_env,
     m_waits = [\<lparr>w_res = 1, w_eintr = False, w_signal = False, w_isset = True,
                   w_ipc = demo_ipc\<lparr>ipc_read := Some (enc_request \<lparr>command = IPC_CMD_STATUS, payload = 0\<rparr>)\<rparr>, w_others = \<lambda>k. k\<rparr>,
                \<lparr>w_res = -1, w_eintr = True, w_signal = True, w_isset = False, w_ipc = demo_ipc, w_others = begin_20\<rparr>]\<rparr>"

definition demo_static :: "unit app_ext cask" where
  "demo_static = demo_cask\<lparr>krunning := False, klinks := Map.empty, ipcfd := 0, kfds := {0, 1, 2}\<rparr>"

lemma begin_20_runs:
  assumes "alive k [20]"
  shows "(thread_step rts call)\<^sup>*\<^sup>* k (begin_20 k) \<and> all_running (begin_20 k)"
proof -
  have d: "dom (wmem k) = {20}" using assms by (simp add: alive_def cask_ok_def)
  then obtain w where w: "wmem k 20 = Some w" by blast
  have "wmem k = [20 \<mapsto> w]" using d w by (auto simp: fun_eq_iff dom_def)
  then show ?thesis using w thread_step.begins [OF w, of rts call] by (auto simp: begin_20_def all_running_def)
qed


end
