(* ===== verification/Spec2Isabelle.thy ===== *)
theory Spec2Isabelle
  imports Cask_Process
begin

text \<open>
  \<^bold>\<open>Verification of cask\<close>, a pastebin server in C with a small HTTP parser, a hash table in a file, an
  epoll event loop with timers in a red-black tree, worker threads and a monitor program.

  \<^bold>\<open>The program.\<close>  \<^verbatim>\<open>main\<close> (\<^verbatim>\<open>cask.c\<close>) reads the options, opens the database (\<^verbatim>\<open>db.c\<close>), maps the index page
  (\<^verbatim>\<open>file.c\<close>), fills the table of routes (\<^verbatim>\<open>route.c\<close>, \<^verbatim>\<open>array.h\<close>), starts the workers (\<^verbatim>\<open>worker.c\<close>) and answers
  status requests of \<^verbatim>\<open>caskmon\<close> until it is interrupted.  A worker runs \<^verbatim>\<open>event_base_iter\<close> (\<^verbatim>\<open>event.c\<close>): it
  fires the timers that are due, which closes idle connections, and hands the events of
  \<^verbatim>\<open>epoll_wait\<close> to \<^verbatim>\<open>on_accept\<close> or to the \<^verbatim>\<open>io_callback\<close> of a connection (\<^verbatim>\<open>connection.c\<close>), which reads into a
  buffer (\<^verbatim>\<open>buffer.c\<close>), parses (\<^verbatim>\<open>request.c\<close>, \<^verbatim>\<open>http.c\<close>), looks the route up and calls its callback, which
  sends a response.  Connections and workers are nodes of intrusive rings (\<^verbatim>\<open>list.h\<close>), timers nodes of an
  intrusive red-black tree (\<^verbatim>\<open>rbtree.c\<close>).

  \<^bold>\<open>Conventions.\<close>  Sizes are \<open>nat\<close> with the wrap-around of \<^verbatim>\<open>size_t\<close> written out, \<^verbatim>\<open>int\<close> is \<open>int\<close> with
  conversions by \<open>to_i32\<close>, other fixed-width integers are words.  Objects that are linked are entries of
  explicit memories, maps from addresses.  \<open>None\<close> as the result of an operation means that the C program
  has undefined behaviour there (a null pointer, a read outside an object, freed memory) or does
  not return (\<open>partial_function (option)\<close>): a theorem with a result \<open>Some\<close> says that the code is defined
  and terminates.  Error codes are values.  There is no fuel: loops are structural, have a measure,
  or are partial functions whose results are proved to exist.  The kernel, the C library's
  allocator and the clock are arguments: \<open>alloc\<close> (which allocations fail, what fresh memory holds),
  \<open>db_os\<close> (the file system of the database), \<open>env\<close> (the answer to the \<open>n\<close>-th system call of a worker),
  \<open>start_env\<close>, \<open>ipc_env\<close>, \<open>mon_env\<close> and \<open>main_env\<close>.  What a theorem relies on of them is a hypothesis with a
  name (\<open>alloc_ok\<close>, \<open>os_ok\<close>, \<open>send_sane\<close>, \<open>os_good\<close>, \<open>accept_sane\<close>), and its witness shows a system that meets it.

  \<^bold>\<open>Theories.\<close>
  \<^item> \<open>Cask_Prelude\<close>: types, collections of rewrite rules, the contract \<open>codec\<close> of packed structures and its
    interpretations, generic lemmas.  \<open>Cask_Libc\<close>: the C library functions used (\<^verbatim>\<open>memcpy\<close>, \<^verbatim>\<open>strncmp\<close>,
    \<^verbatim>\<open>strtol\<close>, \<^verbatim>\<open>strtoull\<close>, \<^verbatim>\<open>snprintf\<close>).
  \<^item> \<open>Cask_Buffer\<close>, \<open>Cask_Http\<close>, \<open>Cask_Request\<close>, \<open>Cask_Parse\<close>: the buffer, the tables, the parser and its
    correctness: a rendered request is parsed back, also when its body arrives later, and no input
    makes the parser read outside the buffer.
  \<^item> \<open>Cask_Db\<close>, \<open>Cask_Store\<close>: the database file and its refinement of an append-only list of pastes, with the
    two ways it is damaged.
  \<^item> \<open>Cask_RBTree\<close> and \<open>_Shape\<close>, \<open>_Insert\<close>, \<open>_Query\<close>, \<open>_Delete\<close>, \<open>_Spec\<close>: the tree over a memory of nodes; insertion and
    deletion keep a balanced tree with all links and the order of the keys.
  \<^item> \<open>Cask_Event\<close>, \<open>Cask_Timers\<close>: timers, events and the loop; the timers are a queue in the order of their
    deadlines, and what a node with two children does to it.  The contract \<open>timer_client\<close> is what the
    callbacks of timers have to keep.
  \<^item> \<open>Cask_List\<close>, \<open>Cask_Array\<close>, \<open>Cask_Route\<close>: rings, growing arrays and the route table against lists.
  \<^item> \<open>Cask_Connection\<close>: \<^verbatim>\<open>connection.c\<close>, \<^verbatim>\<open>send_response\<close>, \<^verbatim>\<open>route_404\<close> and \<^verbatim>\<open>on_accept\<close>.  The record \<open>worker\<close> extends the
    event base; a connection is addressed by one address in the memories of connections, events, timers and
    links, so \<^verbatim>\<open>free(c)\<close> takes four entries away.  \<open>outbox\<close> collects what the kernel has taken.
  \<^item> \<open>Cask_Conn_Inv\<close>, \<open>Cask_Serve\<close>, \<open>Cask_Respond\<close>, \<open>Cask_Receive\<close>, \<open>Cask_Expiry\<close>, \<open>Cask_Loop\<close>: the invariant \<open>serving\<close> of a
    worker between two callbacks and how closing, waiting, sending, receiving, timeouts and
    accepting keep it; \<open>worker_step\<close> is one iteration of the loop.  The contract \<open>route_client\<close> is what
    callbacks of routes have to keep.
  \<^item> \<open>Cask_File\<close>, \<open>Cask_App\<close>, \<open>Cask_Paste\<close>: the index page, the callbacks of the service, which meet \<open>route_client\<close>,
    and the service from the bytes a client sends to the bytes it gets.
  \<^item> \<open>Cask_Worker\<close>, \<open>Cask_Ipc\<close>, \<open>Cask_Main\<close>: starting, running and shutting down workers, the monitor protocol on
    both sides, and \<^verbatim>\<open>main\<close>.
  \<^item> \<open>Cask_Conn_Spec\<close>: the properties of connections, of the loop and of the service, with an example.
  \<^item> \<open>Cask_History\<close>: what the threads share: rules for weakest liberal preconditions, the contract
    \<open>shared_client\<close> of what a callback does to shared objects, lifted to iterations of the loop, and the
    histories of \<^verbatim>\<open>db_insert\<close> (\<open>inserted\<close>), which the callbacks of the program keep to.
  \<^item> \<open>Cask_Process\<close>: the threads as an interleaving of iterations (\<open>thread_step\<close>), the invariant of the process
    (\<open>alive\<close>) and the run of \<^verbatim>\<open>main\<close> from its options to its exit.

  \<^bold>\<open>The bound of two connections.\<close>  \<open>rbtree_delete\<close> leaves a node with two children in the tree, with the
  payload of its successor.  With three timers the root of the tree has two children, so closing
  that connection frees a node the tree still holds (\<open>close_connection_dangling\<close>).  The invariant of the
  loop can therefore only be shown for at most two connections of a worker at a time; two nodes never
  give a node two children.  Accepting, the timeouts (which fire from the leftmost node) and the
  properties of the parts hold for any number.

  \<^bold>\<open>Threads.\<close>  A worker only touches its own connections, timers and descriptors; what it shares with others
  is the database and the list of workers, both behind a lock.  An operation under a lock is one
  step, and the history theorems quantify over all sequences of such steps.  In \<open>thread_step\<close> the workers
  interleave by whole iterations of their loops, and all of them see the database as the last one has
  left it.  The unlocked
  accesses to \<^verbatim>\<open>running\<close> and \<^verbatim>\<open>num_conns\<close> are atomic in the model, and the sentinel of the red-black tree, which
  the source shares between threads, belongs to each worker.  When \<open>cask_main\<close> closes
  the database it is the one the workers share at that moment.

  \<^bold>\<open>Not modelled.\<close>  \<^verbatim>\<open>free_buffer\<close> as an operation of its own (the buffer goes with the entry of its
  connection); \<^verbatim>\<open>next_pot64\<close>, which no source defines, is an argument of \<open>array_push_back_n\<close>; diagnostic output; the peer address of a connection; \<^verbatim>\<open>getaddrinfo\<close> beyond its result; weak memory
  and the interleaving of unlocked accesses.
\<close>

end
